(* ===== verification/Prelude.thy ===== *)
theory Prelude
  imports Complex_Main "HOL-Library.Signed_Division"
begin

text \<open>
  Shared vocabulary of the development: the 64-bit integers of Go written out over
  \<^typ>\<open>int\<close>, the truncating integer division of the language, the collections of rewrite
  rules the component theories feed, and the few generic lemmas on sums and maps that several
  components use.

  The Go types \<open>int\<close> and \<open>int64\<close> are both 64 bits wide on the platforms the
  program is built for (linux/amd64 containers), and arithmetic on them wraps around. A model
  value of type \<^typ>\<open>int\<close> stands for such an integer; every operation of the source that can
  leave the range is wrapped explicitly by \<open>i64\<close>.
\<close>

named_theorems go_arith \<open>rules for Go's machine arithmetic\<close>
named_theorems wf_intros \<open>preservation of component invariants\<close>

section \<open>64-bit integers\<close>

definition min_i64 :: int where
  "min_i64 = - (2 ^ 63)"

definition max_i64 :: int where
  "max_i64 = 2 ^ 63 - 1"

definition in_i64 :: "int \<Rightarrow> bool" where
  "in_i64 x \<longleftrightarrow> min_i64 \<le> x \<and> x \<le> max_i64"

definition i64 :: "int \<Rightarrow> int" where
  "i64 x = (x + 2 ^ 63) mod 2 ^ 64 - 2 ^ 63"

lemma i64_id [go_arith]: "in_i64 x \<Longrightarrow> i64 x = x"
  by (simp add: i64_def in_i64_def min_i64_def max_i64_def)

lemma in_i64_i64 [simp, go_arith]: "in_i64 (i64 x)"
proof -
  have "0 \<le> (x + 2 ^ 63) mod 2 ^ 64" and "(x + 2 ^ 63) mod 2 ^ 64 < 2 ^ 64"
    by simp_all
  then show ?thesis
    unfolding i64_def in_i64_def min_i64_def max_i64_def by simp
qed

lemma i64_cong: "i64 x mod 2 ^ 64 = x mod 2 ^ 64"
  by (simp add: i64_def mod_simps)

lemma i64_add_left [go_arith]: "i64 (i64 x + y) = i64 (x + y)"
proof -
  have "(i64 x + y + 2 ^ 63) mod 2 ^ 64 = (i64 x mod 2 ^ 64 + (y + 2 ^ 63)) mod 2 ^ 64"
    by (simp add: mod_simps add.assoc)
  also have "\<dots> = (x + y + 2 ^ 63) mod 2 ^ 64"
    by (simp only: i64_cong mod_simps add.assoc)
  finally show ?thesis by (simp add: i64_def)
qed

lemma in_i64_nonneg: "0 \<le> x \<Longrightarrow> x < 2 ^ 63 \<Longrightarrow> in_i64 x"
  by (simp add: in_i64_def min_i64_def max_i64_def)

lemma i64_le: "min_i64 \<le> x \<Longrightarrow> i64 x \<le> x"
  using zmod_le_nonneg_dividend [of "x + 2 ^ 63" "2 ^ 64"] by (simp add: i64_def min_i64_def)

section \<open>Sums over a finite index set with one entry changed\<close>

lemma sum_fun_upd:
  fixes f :: "'a \<Rightarrow> 'b::ab_group_add"
  assumes "finite A" and "a \<in> A"
  shows "sum (f(a := v)) A = sum f A - f a + v"
proof -
  have "sum (f(a := v)) A = v + sum (f(a := v)) (A - {a})"
    using assms by (simp add: sum.remove)
  also have "sum (f(a := v)) (A - {a}) = sum f (A - {a})"
    by (rule sum.cong) auto
  also have "\<dots> = sum f A - f a"
    using assms by (simp add: sum_diff1)
  finally show ?thesis by (simp add: algebra_simps)
qed

lemma sum_list_map_update:
  fixes f :: "'a \<Rightarrow> int"
  shows "i < length xs \<Longrightarrow> sum_list (map f (xs[i := x])) = sum_list (map f xs) - f (xs ! i) + f x"
  by (induction xs arbitrary: i) (auto simp: nth_Cons split: nat.splits)

end
