(* ===== verification/Float64.thy ===== *)
theory Float64
  imports Prelude "HOL-Library.Log_Nat"
begin

text \<open>
  The \<open>float64\<close> arithmetic of Go, as far as the program uses it. A finite binary64 value is
  a rational number; an operation returns the rounding to nearest, ties to even, of the exact
  result, with 53 bits of precision and the gradual underflow of the format
  (least exponent \<open>-1074\<close>).

  Overflow to infinity is the one part of the format that is not represented: a result beyond
  \<open>2 ^ 1024\<close> stays the (huge) rational it is. The program only ever compares such a value with,
  or takes its minimum with, a finite one, or converts it to an integer, where it is out of range
  like the infinity it stands for.
\<close>

type_synonym float64 = rat

section \<open>Definitions\<close>

definition round_even :: "rat \<Rightarrow> int" where
  "round_even y =
     (let f = \<lfloor>y\<rfloor>; r = y - of_int f in
      if r < 1 / 2 then f else if 1 / 2 < r then f + 1 else if even f then f else f + 1)"

definition ilog2 :: "rat \<Rightarrow> int" where
  "ilog2 x =
     (let (n, d) = quotient_of x; e = bitlen n - bitlen d in
      if 2 powi e \<le> x then e else e - 1)"

definition ulp_exp :: "rat \<Rightarrow> int" where
  "ulp_exp x = max (ilog2 \<bar>x\<bar> - 52) (-1074)"

definition rnd :: "rat \<Rightarrow> float64" where
  "rnd x =
     (if x = 0 then 0
      else let q = 2 powi ulp_exp x in of_int (round_even (x / q)) * q)"

definition is_float64 :: "rat \<Rightarrow> bool" where
  "is_float64 x \<longleftrightarrow> rnd x = x"

definition fadd :: "float64 \<Rightarrow> float64 \<Rightarrow> float64" where
  "fadd x y = rnd (x + y)"

definition fsub :: "float64 \<Rightarrow> float64 \<Rightarrow> float64" where
  "fsub x y = rnd (x - y)"

definition fmul :: "float64 \<Rightarrow> float64 \<Rightarrow> float64" where
  "fmul x y = rnd (x * y)"

definition fdiv :: "float64 \<Rightarrow> float64 \<Rightarrow> float64" where
  "fdiv x y = rnd (x / y)"

text \<open>Conversions: \<open>float64(k)\<close> rounds; \<open>int(x)\<close> truncates towards zero.
  Out of range the language leaves the result of \<open>int(x)\<close> to the implementation; on
  amd64 the conversion instruction delivers the least integer.\<close>

definition float_of_int :: "int \<Rightarrow> float64" where
  "float_of_int k = rnd (of_int k)"

definition trunc :: "rat \<Rightarrow> int" where
  "trunc x = (if 0 \<le> x then \<lfloor>x\<rfloor> else \<lceil>x\<rceil>)"

definition int_of_float :: "float64 \<Rightarrow> int" where
  "int_of_float x = (if in_i64 (trunc x) then trunc x else min_i64)"

section \<open>Rounding to an integer\<close>

lemma round_even_of_int [simp]: "round_even (of_int k) = k"
  by (simp add: round_even_def)

lemma round_even_error: "\<bar>of_int (round_even y) - y\<bar> \<le> 1 / 2"
proof -
  have "0 \<le> y - of_int \<lfloor>y\<rfloor>" and "y - of_int \<lfloor>y\<rfloor> < 1"
    by linarith+
  then show ?thesis
    unfolding round_even_def Let_def by (auto simp: abs_le_iff)
qed

lemma round_even_mono: "x \<le> y \<Longrightarrow> round_even x \<le> round_even y"
proof -
  assume le: "x \<le> y"
  have b: "\<lfloor>z\<rfloor> \<le> round_even z \<and> round_even z \<le> \<lfloor>z\<rfloor> + 1" for z :: rat
    by (simp add: round_even_def Let_def)
  have fl: "\<lfloor>x\<rfloor> \<le> \<lfloor>y\<rfloor>" using le by (rule floor_mono)
  show ?thesis
  proof (cases "\<lfloor>x\<rfloor> = \<lfloor>y\<rfloor>")
    case True
    then show ?thesis using le by (auto simp: round_even_def Let_def)
  next
    case False
    then have "\<lfloor>x\<rfloor> + 1 \<le> \<lfloor>y\<rfloor>" using fl by linarith
    then show ?thesis using b [of x] b [of y] by linarith
  qed
qed

lemma round_even_minus: "round_even (- y) = - round_even y"
proof (cases "y = of_int \<lfloor>y\<rfloor>")
  case True
  then show ?thesis by (metis of_int_minus round_even_of_int)
next
  case False
  then have c: "\<lceil>y\<rceil> = \<lfloor>y\<rfloor> + 1"
    by (metis ceiling_altdef)
  have "\<lfloor>- y\<rfloor> = - \<lceil>y\<rceil>" by (simp add: ceiling_def)
  with c have fl: "\<lfloor>- y\<rfloor> = - \<lfloor>y\<rfloor> - 1" by simp
  show ?thesis
    unfolding round_even_def Let_def fl by auto
qed

section \<open>The binary exponent\<close>

lemma powi2_pos [simp]: "(0::rat) < 2 powi e"
  by (simp add: zero_less_power_int)

lemma powi2_add: "(2::rat) powi (a + b) = 2 powi a * 2 powi b"
  by (simp add: power_int_add)

lemma powi2_nat: "0 \<le> e \<Longrightarrow> (2::rat) powi e = of_int (2 ^ nat e)"
  by (simp add: power_int_def)

lemma powi2_le_iff [simp]: "((2::rat) powi a \<le> 2 powi b) = (a \<le> b)"
  by (metis power_int_increasing power_int_strict_increasing linorder_not_le one_less_numeral_iff
      one_le_numeral semiring_norm(76))

lemma powi2_split: "a \<le> b \<Longrightarrow> (2::rat) powi b = of_int (2 ^ nat (b - a)) * 2 powi a"
  using powi2_add [of "b - a" a] powi2_nat [of "b - a"] by simp

lemma ilog2_bounds:
  assumes "0 < x"
  shows "2 powi ilog2 x \<le> x" and "x < 2 powi (ilog2 x + 1)"
proof -
  obtain n d where nd: "quotient_of x = (n, d)" by fastforce
  have d: "0 < d" and x: "x = of_int n / of_int d"
    using quotient_of_denom_pos [OF nd] quotient_of_div [OF nd] by auto
  have n: "0 < n" using assms d x by (simp add: zero_less_divide_iff)
  let ?bn = "bitlen n" and ?bd = "bitlen d"
  have bpos: "0 < ?bn" "0 < ?bd"
    using n d by (metis bitlen_eq_zero_iff bitlen_nonneg order_le_less linorder_not_le)+
  have "2 ^ nat (?bn - 1) \<le> n \<and> n < 2 ^ nat ?bn" and "2 ^ nat (?bd - 1) \<le> d \<and> d < 2 ^ nat ?bd"
    using bitlen_bounds [OF n] bitlen_bounds [OF d] by auto
  then have
    lo: "(2::rat) powi (?bn - 1) \<le> of_int n" "(2::rat) powi (?bd - 1) \<le> of_int d" and
    hi: "of_int n < (2::rat) powi ?bn" "of_int d < (2::rat) powi ?bd"
    using bpos by (simp_all only: powi2_nat of_int_le_iff of_int_less_iff zle_diff1_eq int_one_le_iff_zero_less order_less_imp_le diff_ge_0_iff_ge)
  have up: "x < 2 powi (?bn - ?bd + 1)"
  proof -
    have "of_int n < (2::rat) powi (?bn - ?bd + 1) * 2 powi (?bd - 1)"
      using hi(1) by (simp flip: powi2_add)
    also have "\<dots> \<le> 2 powi (?bn - ?bd + 1) * of_int d"
      using lo(2) by simp
    finally show ?thesis using d by (simp add: x field_simps)
  qed
  have low: "2 powi (?bn - ?bd - 1) \<le> x"
  proof -
    have "(2::rat) powi (?bn - ?bd - 1) * of_int d \<le> 2 powi (?bn - ?bd - 1) * 2 powi ?bd"
      using hi(2) by simp
    also have "\<dots> = 2 powi (?bn - 1)"
      by (simp flip: powi2_add)
    also have "\<dots> \<le> of_int n" by (rule lo(1))
    finally show ?thesis using d by (simp add: x field_simps)
  qed
  show "2 powi ilog2 x \<le> x" and "x < 2 powi (ilog2 x + 1)"
    using up low by (auto simp: ilog2_def nd Let_def)
qed

lemma ilog2_eqI: "2 powi e \<le> x \<Longrightarrow> x < 2 powi (e + 1) \<Longrightarrow> ilog2 x = e"
proof -
  assume a: "2 powi e \<le> x" "x < 2 powi (e + 1)"
  then have "0 < x" using powi2_pos [of e] by linarith
  from ilog2_bounds [OF this] a
  have "(2::rat) powi e < 2 powi (ilog2 x + 1)" "(2::rat) powi ilog2 x < 2 powi (e + 1)"
    by linarith+
  then show ?thesis by (simp flip: linorder_not_le)
qed

section \<open>Rounding to binary64\<close>

lemma rnd_0 [simp]: "rnd 0 = 0"
  by (simp add: rnd_def)

lemma ulp_exp_minus [simp]: "ulp_exp (- x) = ulp_exp x"
  by (simp add: ulp_exp_def)

lemma ulp_exp_ge: "-1074 \<le> ulp_exp x"
  by (simp add: ulp_exp_def)

lemma rnd_minus: "rnd (- x) = - rnd x"
  by (simp add: rnd_def Let_def round_even_minus)

lemma rnd_eq: "rnd x = of_int (round_even (x / 2 powi ulp_exp x)) * 2 powi ulp_exp x"
  by (cases "x = 0") (simp_all add: rnd_def Let_def round_even_def)

lemma ulp_exp_mono:
  assumes "0 < x" and "x \<le> y"
  shows "ulp_exp x \<le> ulp_exp y"
proof -
  have "(2::rat) powi ilog2 x < 2 powi (ilog2 y + 1)"
    using ilog2_bounds(1) [of x] ilog2_bounds(2) [of y] assms by linarith
  then have "ilog2 x \<le> ilog2 y" by (simp flip: linorder_not_le)
  then show ?thesis using assms by (simp add: ulp_exp_def)
qed

text \<open>A grid point of the exponent of \<open>x\<close> that bounds \<open>x\<close> bounds its rounding.\<close>

lemma rnd_le_grid:
  assumes "x \<le> of_int k * 2 powi ulp_exp x"
  shows "rnd x \<le> of_int k * 2 powi ulp_exp x"
proof -
  have "x / 2 powi ulp_exp x \<le> of_int k"
    using assms by (simp add: divide_le_eq)
  from round_even_mono [OF this] show ?thesis by (simp add: rnd_eq [of x])
qed

lemma rnd_ge_grid:
  assumes "of_int k * 2 powi ulp_exp x \<le> x"
  shows "of_int k * 2 powi ulp_exp x \<le> rnd x"
proof -
  have "of_int k \<le> x / 2 powi ulp_exp x"
    using assms by (simp add: le_divide_eq)
  from round_even_mono [OF this] show ?thesis by (simp add: rnd_eq [of x])
qed

lemma rnd_mono_pos:
  assumes "0 < x" and "x \<le> y"
  shows "rnd x \<le> rnd y"
proof (cases "ulp_exp x = ulp_exp y")
  case True
  have "x / 2 powi ulp_exp x \<le> y / 2 powi ulp_exp x"
    using assms by (simp add: divide_right_mono)
  from round_even_mono [OF this] show ?thesis
    by (simp add: rnd_eq [of x] rnd_eq [of y] True)
next
  case False
  with ulp_exp_mono [OF assms] have lt: "ulp_exp x < ulp_exp y" by simp
  let ?e = "ilog2 y"
  have ey: "ulp_exp y = ?e - 52"
    using lt ulp_exp_ge [of x] assms by (auto simp: ulp_exp_def max_def split: if_splits)
  have grid: "\<exists>k. (2::rat) powi ?e = of_int k * 2 powi a" if "a \<le> ?e" for a
    using powi2_split [OF that] by blast
  have "ilog2 x + 1 \<le> ?e"
    using lt assms by (auto simp: ulp_exp_def max_def split: if_splits)
  then have "(2::rat) powi (ilog2 x + 1) \<le> 2 powi ?e" by simp
  then have xe: "x \<le> 2 powi ?e" using ilog2_bounds(2) [OF assms(1)] by linarith
  obtain k where k: "(2::rat) powi ?e = of_int k * 2 powi ulp_exp x"
    using grid [of "ulp_exp x"] lt ey by auto
  have "rnd x \<le> 2 powi ?e" using rnd_le_grid [of x k] xe k by simp
  moreover
  obtain l where l: "(2::rat) powi ?e = of_int l * 2 powi ulp_exp y"
    using grid [of "ulp_exp y"] ey by auto
  have "2 powi ?e \<le> rnd y"
    using rnd_ge_grid [of l y] l ilog2_bounds(1) [of y] assms by simp
  ultimately show ?thesis by simp
qed

lemma rnd_nonneg: "0 \<le> x \<Longrightarrow> 0 \<le> rnd x"
  using rnd_ge_grid [of 0 x] by simp

lemma rnd_nonpos: "x \<le> 0 \<Longrightarrow> rnd x \<le> 0"
  using rnd_le_grid [of x 0] by simp

lemma rnd_mono: "x \<le> y \<Longrightarrow> rnd x \<le> rnd y"
proof -
  assume le: "x \<le> y"
  consider "0 < x" | "x \<le> 0" "0 \<le> y" | "y < 0" using le by linarith
  then show ?thesis
  proof cases
    case 1
    then show ?thesis using le by (rule rnd_mono_pos)
  next
    case 2
    then show ?thesis using rnd_nonneg [of y] rnd_nonpos [of x] by simp
  next
    case 3
    then have "rnd (- y) \<le> rnd (- x)" using le by (intro rnd_mono_pos) auto
    then show ?thesis by (simp add: rnd_minus)
  qed
qed

section \<open>Representable values\<close>

text \<open>Every multiple \<open>m * 2 ^ e\<close> with at most 53 significant bits is a value of the format.\<close>

lemma is_float64_grid:
  assumes "\<bar>m\<bar> \<le> 2 ^ 53" and "-1074 \<le> e"
  shows "is_float64 (of_int m * 2 powi e)"
proof (cases "m = 0")
  case True
  then show ?thesis by (simp add: is_float64_def)
next
  case False
  let ?x = "of_int m * 2 powi e :: rat"
  have x0: "0 < \<bar>?x\<bar>" using False by (simp add: abs_mult)
  have "\<exists>k. ?x = of_int k * 2 powi ulp_exp ?x"
  proof (cases "\<bar>m\<bar> = 2 ^ 53")
    case True
    have "\<bar>of_int m :: rat\<bar> = 2 powi 53" by (simp flip: of_int_abs add: True)
    then have ax: "\<bar>?x\<bar> = 2 powi (e + 53)"
      by (simp add: abs_mult powi2_add)
    have "ilog2 \<bar>?x\<bar> = e + 53"
      by (rule ilog2_eqI) (simp_all add: ax powi2_add)
    then have u: "ulp_exp ?x = e + 1" using assms by (simp add: ulp_exp_def)
    have "m = 2 ^ 53 \<or> m = - (2 ^ 53)" using True by linarith
    then have "m = 2 * (m div 2)" by auto
    then have "?x = of_int (2 * (m div 2)) * 2 powi e" by simp
    also have "\<dots> = of_int (m div 2) * 2 powi (e + 1)" by (simp add: powi2_add)
    finally show ?thesis using u by metis
  next
    case False
    then have "\<bar>m\<bar> < 2 ^ 53" using assms(1) by linarith
    then have "\<bar>of_int m :: rat\<bar> < 2 powi 53"
      by (simp add: powi2_nat flip: of_int_abs)
    then have "\<bar>?x\<bar> < 2 powi (e + 53)"
      by (simp add: abs_mult powi2_add)
    then have "(2::rat) powi ilog2 \<bar>?x\<bar> < 2 powi (e + 53)"
      using ilog2_bounds(1) [OF x0] by linarith
    then have "ilog2 \<bar>?x\<bar> < e + 53" by (simp flip: linorder_not_le)
    then have u: "ulp_exp ?x \<le> e" using assms(2) by (simp add: ulp_exp_def)
    have "?x = of_int (m * 2 ^ nat (e - ulp_exp ?x)) * 2 powi ulp_exp ?x"
      using powi2_split [OF u] by (simp add: mult.assoc)
    then show ?thesis by blast
  qed
  then obtain k where k: "?x = of_int k * 2 powi ulp_exp ?x" by blast
  then have "?x / 2 powi ulp_exp ?x = of_int k"
    by (metis nonzero_mult_div_cancel_right powi2_pos order_less_irrefl)
  then show ?thesis using k by (simp add: is_float64_def rnd_eq [of ?x])
qed

lemma rnd_of_int [simp]: "\<bar>k\<bar> \<le> 2 ^ 53 \<Longrightarrow> rnd (of_int k) = of_int k"
  using is_float64_grid [of k 0] by (simp add: is_float64_def)

lemma rnd_numeral [simp]: "numeral n \<le> (2 ^ 53 :: int) \<Longrightarrow> rnd (numeral n) = numeral n"
  using rnd_of_int [of "numeral n"] by simp

lemma rnd_1 [simp]: "rnd 1 = 1"
  using rnd_of_int [of 1] by simp

lemma is_float64_rnd [simp]: "is_float64 (rnd x)"
proof (cases "x = 0")
  case True
  then show ?thesis by (simp add: is_float64_def)
next
  case False
  let ?q = "2 powi ulp_exp x :: rat"
  have "\<bar>x\<bar> < 2 powi (ilog2 \<bar>x\<bar> + 1)" using ilog2_bounds(2) [of "\<bar>x\<bar>"] False by simp
  also have "(2::rat) powi (ilog2 \<bar>x\<bar> + 1) \<le> 2 powi (53 + ulp_exp x)"
    by (simp add: ulp_exp_def)
  also have "\<dots> = of_int (2 ^ 53) * ?q" by (simp add: powi2_add powi2_nat)
  finally have "\<bar>x\<bar> \<le> of_int (2 ^ 53) * ?q" by simp
  then have "x / ?q \<le> of_int (2 ^ 53)" and "of_int (- (2 ^ 53)) \<le> x / ?q"
    by (auto simp: divide_le_eq le_divide_eq abs_le_iff)
  then have "round_even (x / ?q) \<le> 2 ^ 53" and "- (2 ^ 53) \<le> round_even (x / ?q)"
    using round_even_mono round_even_of_int by metis+
  then have "\<bar>round_even (x / ?q)\<bar> \<le> 2 ^ 53" by linarith
  from is_float64_grid [OF this ulp_exp_ge] show ?thesis
    by (simp add: rnd_eq [of x])
qed

lemma rnd_id: "is_float64 x \<Longrightarrow> rnd x = x"
  by (simp add: is_float64_def)

lemma rnd_le: "is_float64 y \<Longrightarrow> x \<le> y \<Longrightarrow> rnd x \<le> y"
  using rnd_mono [of x y] by (simp add: rnd_id)

lemma rnd_ge: "is_float64 y \<Longrightarrow> y \<le> x \<Longrightarrow> y \<le> rnd x"
  using rnd_mono [of y x] by (simp add: rnd_id)

section \<open>Error of a rounding, and operations without one\<close>

text \<open>Half the least positive value: what underflow can lose.\<close>

definition tiny64 :: rat where
  "tiny64 = 2 powi (-1075)"

lemma tiny64_nonneg [simp]: "0 \<le> tiny64"
  by (simp add: tiny64_def)

lemma tiny64_small: "tiny64 \<le> 1 / 2 ^ 113"
proof -
  have "tiny64 \<le> (2::rat) powi (- 113)"
    unfolding tiny64_def by (rule powi2_le_iff [THEN iffD2]) simp
  also have "\<dots> = 1 / 2 ^ 113" by (simp add: power_int_def power_one_over)
  finally show ?thesis .
qed

lemma rnd_error: "\<bar>rnd x - x\<bar> \<le> \<bar>x\<bar> / 2 ^ 53 + tiny64"
proof (cases "x = 0")
  case True
  then show ?thesis by simp
next
  case False
  let ?q = "2 powi ulp_exp x :: rat"
  have "rnd x - x = (of_int (round_even (x / ?q)) - x / ?q) * ?q"
    by (simp add: rnd_eq [of x] algebra_simps)
  then have "\<bar>rnd x - x\<bar> = \<bar>of_int (round_even (x / ?q)) - x / ?q\<bar> * ?q"
    by (simp add: abs_mult)
  also have "\<dots> \<le> 1 / 2 * ?q"
    by (rule mult_right_mono [OF round_even_error]) simp
  finally have err: "\<bar>rnd x - x\<bar> \<le> ?q / 2" by simp
  have lo: "2 powi ilog2 \<bar>x\<bar> \<le> \<bar>x\<bar>" using False by (intro ilog2_bounds) simp
  have "?q = 2 powi (ilog2 \<bar>x\<bar> - 52) \<or> ?q = 2 powi (-1074)"
    by (simp add: ulp_exp_def max_def)
  then have "?q / 2 \<le> \<bar>x\<bar> / 2 ^ 53 \<or> ?q / 2 = tiny64"
  proof
    assume "?q = 2 powi (ilog2 \<bar>x\<bar> - 52)"
    then have "?q = 2 powi ilog2 \<bar>x\<bar> / 2 ^ 52"
      by (simp add: power_int_diff)
    then show ?thesis using lo by simp
  next
    assume q: "?q = 2 powi (-1074)"
    have "(2::rat) powi (-1074) = 2 powi (-1075 + 1)" by simp
    also have "\<dots> = tiny64 * 2" by (simp only: powi2_add tiny64_def power_int_1_right)
    finally show ?thesis using q by simp
  qed
  then show ?thesis
  proof
    assume "?q / 2 \<le> \<bar>x\<bar> / 2 ^ 53"
    then have "\<bar>rnd x - x\<bar> \<le> \<bar>x\<bar> / 2 ^ 53" using err by linarith
    then show ?thesis using tiny64_nonneg by linarith
  next
    assume "?q / 2 = tiny64"
    then have "\<bar>rnd x - x\<bar> \<le> tiny64" using err by simp
    moreover have "0 \<le> \<bar>x\<bar> / 2 ^ 53" by simp
    ultimately show ?thesis by linarith
  qed
qed

lemma rnd_upper: "0 \<le> x \<Longrightarrow> rnd x \<le> x * (1 + 1 / 2 ^ 53) + tiny64"
  using rnd_error [of x] by (simp add: abs_le_iff algebra_simps)

lemma rnd_lower: "0 \<le> x \<Longrightarrow> x * (1 - 1 / 2 ^ 53) - tiny64 \<le> rnd x"
  using rnd_error [of x] by (simp add: abs_le_iff algebra_simps)

text \<open>Taking whole units off a nonnegative value below \<open>2 ^ 53\<close> is exact.\<close>

lemma is_float64_diff_int:
  assumes "is_float64 x" and "0 \<le> k" and "of_int k \<le> x" and "x \<le> 2 ^ 53"
  shows "is_float64 (x - of_int k)"
proof (cases "0 \<le> ulp_exp x")
  case True
  have "x \<le> of_int (2 ^ 53)" using assms(4) by simp
  have "x = of_int (round_even (x / 2 powi ulp_exp x) * 2 ^ nat (ulp_exp x))"
    using assms(1) True by (simp add: is_float64_def rnd_eq [of x] powi2_nat)
  then obtain j where j: "x = of_int j" by blast
  have "x - of_int k = of_int (j - k) * 2 powi 0" by (simp add: j)
  moreover have "\<bar>j - k\<bar> \<le> 2 ^ 53"
    using assms(2,3) \<open>x \<le> of_int (2 ^ 53)\<close> by (simp only: j of_int_le_iff abs_of_nonneg diff_ge_0_iff_ge)
  ultimately show ?thesis using is_float64_grid [of "j - k" 0] by simp
next
  case False
  let ?e = "ulp_exp x" let ?m = "round_even (x / 2 powi ?e)"
  have x0: "0 \<le> x" using assms(2,3) by (metis of_int_0_le_iff order_trans)
  have xm: "x = of_int ?m * 2 powi ?e"
    using assms(1) by (simp add: is_float64_def rnd_eq [of x])
  let ?l = "?m - k * 2 ^ nat (- ?e)"
  have kk: "(of_int k :: rat) = of_int (k * 2 ^ nat (- ?e)) * 2 powi ?e"
    using powi2_split [of ?e 0] False by simp
  have d: "x - of_int k = of_int ?l * 2 powi ?e"
    using xm kk by (simp add: left_diff_distrib)
  have "0 \<le> ?l"
    using d assms(3) by (metis diff_ge_0_iff_ge of_int_0_le_iff powi2_pos zero_le_mult_iff
        linorder_not_le)
  moreover have "?l \<le> ?m" using assms(2) by simp
  moreover have "?m \<le> 2 ^ 53"
  proof (cases "x = 0")
    case True
    then show ?thesis by (simp add: round_even_def)
  next
    case False
    have "x < 2 powi (ilog2 x + 1)" using ilog2_bounds(2) [of x] False x0 by simp
    also have "(2::rat) powi (ilog2 x + 1) \<le> 2 powi (53 + ?e)"
      using x0 by (simp add: ulp_exp_def)
    also have "\<dots> = of_int (2 ^ 53) * 2 powi ?e" by (simp add: powi2_add powi2_nat)
    finally have "of_int ?m * 2 powi ?e < of_int (2 ^ 53) * (2 powi ?e :: rat)"
      using xm by simp
    then have "?m < 2 ^ 53"
      by (metis mult_less_cancel_right_pos of_int_less_iff powi2_pos)
    then show ?thesis by simp
  qed
  ultimately have "\<bar>?l\<bar> \<le> 2 ^ 53" by linarith
  from is_float64_grid [OF this ulp_exp_ge] show ?thesis by (simp only: d)
qed

section \<open>Truncation\<close>

lemma trunc_floor [simp]: "0 \<le> x \<Longrightarrow> trunc x = \<lfloor>x\<rfloor>"
  by (simp add: trunc_def)

lemma int_of_float_floor [go_arith]: "0 \<le> x \<Longrightarrow> x < 2 ^ 63 \<Longrightarrow> int_of_float x = \<lfloor>x\<rfloor>"
proof -
  assume a: "0 \<le> x" "x < 2 ^ 63"
  then have "0 \<le> \<lfloor>x\<rfloor>" and "\<lfloor>x\<rfloor> < 2 ^ 63" by (simp_all add: floor_less_iff)
  then show ?thesis using a by (simp add: int_of_float_def in_i64_nonneg)
qed

lemma float_of_int_exact [go_arith]: "\<bar>k\<bar> \<le> 2 ^ 53 \<Longrightarrow> float_of_int k = of_int k"
  by (simp add: float_of_int_def)

end
