(* ===== verification/GoTime.thy ===== *)
theory GoTime
  imports Float64
begin

text \<open>
  Instants and durations of package \<open>time\<close>. An instant is the number of nanoseconds since
  the zero \<open>Time\<close> (January 1, year 1), so that \<open>time.Time{}\<close> is \<open>0\<close> and
  \<open>IsZero\<close> is equality with it; a duration is a 64-bit count of nanoseconds.
  \<open>Seconds\<close> is the two-step conversion of the library: whole seconds plus the rounded
  quotient of the remaining nanoseconds.
\<close>

type_synonym time = int
type_synonym duration = int

section \<open>Definitions\<close>

definition Second :: duration where
  "Second = 1000000000"

definition Millisecond :: duration where
  "Millisecond = 1000000"

definition zero_time :: time where
  "zero_time = 0"

definition is_zero :: "time \<Rightarrow> bool" where
  "is_zero t \<longleftrightarrow> t = zero_time"

definition time_sub :: "time \<Rightarrow> time \<Rightarrow> duration" where
  "time_sub t u = max min_i64 (min max_i64 (t - u))"

definition time_add :: "time \<Rightarrow> duration \<Rightarrow> time" where
  "time_add t d = t + d"

definition Seconds :: "duration \<Rightarrow> float64" where
  "Seconds d = fadd (float_of_int (d sdiv Second)) (fdiv (float_of_int (d smod Second)) 1000000000)"

definition Milliseconds :: "duration \<Rightarrow> int" where
  "Milliseconds d = d sdiv Millisecond"

text \<open>\<open>time.Duration(ms) * time.Millisecond\<close>, which wraps.\<close>

definition duration_of_ms :: "int \<Rightarrow> duration" where
  "duration_of_ms ms = i64 (ms * Millisecond)"

text \<open>\<open>UnixMilli\<close>: the Unix epoch is 62135596800 seconds after the zero time.\<close>

definition UnixMilli :: "time \<Rightarrow> int" where
  "UnixMilli t = (t - 62135596800 * Second) div Millisecond"

section \<open>Durations\<close>

lemma time_sub_nonneg: "u \<le> t \<Longrightarrow> 0 \<le> time_sub t u"
  by (simp add: time_sub_def min_i64_def max_i64_def)

lemma time_sub_le: "u \<le> t \<Longrightarrow> time_sub t u \<le> t - u"
  by (simp add: time_sub_def min_i64_def max_i64_def)

lemma time_sub_exact: "u \<le> t \<Longrightarrow> t - u \<le> max_i64 \<Longrightarrow> time_sub t u = t - u"
  by (simp add: time_sub_def min_i64_def max_i64_def)

lemma in_i64_time_sub [simp]: "in_i64 (time_sub t u)"
  by (simp add: in_i64_def time_sub_def min_i64_def max_i64_def)

lemma sdiv_pos: "0 \<le> d \<Longrightarrow> 0 < c \<Longrightarrow> d sdiv c = d div (c::int)"
  by (simp add: signed_divide_int_def sgn_if)

lemma smod_pos: "0 \<le> d \<Longrightarrow> 0 < c \<Longrightarrow> d smod c = d mod (c::int)"
  by (cases "d = 0") (simp_all add: signed_modulo_int_def)

lemma duration_of_ms_exact:
  "0 \<le> ms \<Longrightarrow> ms \<le> 9223372036854 \<Longrightarrow> duration_of_ms ms = ms * 1000000"
  unfolding duration_of_ms_def Millisecond_def
  by (rule i64_id) (simp add: in_i64_def min_i64_def max_i64_def)

lemma Milliseconds_pos: "0 \<le> d \<Longrightarrow> Milliseconds d = d div 1000000"
  by (simp add: Milliseconds_def sdiv_pos Millisecond_def)

section \<open>Conversion to seconds\<close>

text \<open>Without underflow the error of a rounding is relative.\<close>

lemma rnd_rel:
  assumes "x = 0 \<or> 1 / 2 ^ 60 \<le> x"
  shows "x * (1 - 1 / 2 ^ 52) \<le> rnd x" and "rnd x \<le> x * (1 + 1 / 2 ^ 52)"
proof -
  have "tiny64 \<le> x / 2 ^ 53" if "1 / 2 ^ 60 \<le> x"
  proof -
    have "tiny64 \<le> 1 / 2 ^ 60 / 2 ^ 53" using tiny64_small by simp
    also have "\<dots> \<le> x / 2 ^ 53" using that by (rule divide_right_mono) simp
    finally show ?thesis .
  qed
  moreover have "x \<noteq> 0 \<Longrightarrow> (0::rat) \<le> x"
    using assms by (metis divide_nonneg_nonneg order_trans zero_le_one zero_le_power zero_le_numeral)
  ultimately show "x * (1 - 1 / 2 ^ 52) \<le> rnd x" and "rnd x \<le> x * (1 + 1 / 2 ^ 52)"
    using assms rnd_upper [of x] rnd_lower [of x] by (auto simp: algebra_simps)
qed

text \<open>The value \<open>d\<close> nanoseconds stand for, exactly.\<close>

definition secs :: "int \<Rightarrow> rat" where
  "secs d = of_int d / 1000000000"

lemma secs_add: "secs (a + b) = secs a + secs b"
  by (simp add: secs_def add_divide_distrib)

lemma secs_mono: "a \<le> b \<Longrightarrow> secs a \<le> secs b"
  by (simp add: secs_def divide_right_mono)

lemma secs_nonneg [simp]: "0 \<le> d \<Longrightarrow> 0 \<le> secs d"
  by (simp add: secs_def)

lemma Seconds_bounds:
  assumes "0 \<le> d" and "in_i64 d"
  shows "secs d * (1 - 1 / 2 ^ 51) \<le> Seconds d" and "Seconds d \<le> secs d * (1 + 1 / 2 ^ 50)"
proof -
  let ?S = "d div 1000000000" and ?N = "d mod 1000000000"
  let ?n = "rnd (of_int ?N / 1000000000)"
  have S0: "0 \<le> ?S" using assms by simp
  have "?S \<le> (2 ^ 63 - 1) div 1000000000"
    using assms by (intro zdiv_mono1) (simp_all add: in_i64_def max_i64_def)
  then have "?S \<le> 2 ^ 53" by simp
  then have S: "float_of_int (d sdiv Second) = of_int ?S"
    using S0 assms by (simp add: sdiv_pos Second_def float_of_int_exact)
  have N: "0 \<le> ?N" "?N < 1000000000" by simp_all
  then have "float_of_int (d smod Second) = of_int ?N"
    using assms by (simp add: smod_pos Second_def float_of_int_exact)
  then have eq: "Seconds d = rnd (of_int ?S + ?n)"
    by (simp add: Seconds_def S fadd_def fdiv_def)
  have split: "secs d = of_int ?S + of_int ?N / 1000000000"
  proof -
    have "(of_int d :: rat) = of_int (1000000000 * ?S + ?N)" by (simp only: mult_div_mod_eq)
    also have "\<dots> = 1000000000 * of_int ?S + of_int ?N"
      by (simp only: of_int_add of_int_mult of_int_numeral)
    finally have "(of_int d :: rat) = 1000000000 * of_int ?S + of_int ?N" .
    then show ?thesis unfolding secs_def by (simp add: add_divide_distrib)
  qed
  have nz: "(of_int ?N :: rat) / 1000000000 = 0 \<or> 1 / 2 ^ 30 \<le> (of_int ?N :: rat) / 1000000000"
  proof (cases "?N = 0")
    case False
    then have "(1::rat) \<le> of_int ?N" using N(1) by (metis of_int_1_le_iff int_one_le_iff_zero_less order_le_less)
    then have "1 / 1000000000 \<le> (of_int ?N :: rat) / 1000000000" by (rule divide_right_mono) simp
    then show ?thesis by simp
  qed simp
  then have nb: "of_int ?N / 1000000000 * (1 - 1 / 2 ^ 52) \<le> ?n"
      "?n \<le> of_int ?N / 1000000000 * (1 + 1 / 2 ^ 52)"
    using rnd_rel [of "of_int ?N / 1000000000"] by auto
  have n31: "?n = 0 \<or> 1 / 2 ^ 31 \<le> ?n"
    using nz nb by auto
  have "of_int ?S + ?n = 0 \<or> 1 / 2 ^ 60 \<le> of_int ?S + ?n"
  proof (cases "?S = 0")
    case True
    then show ?thesis using n31 by auto
  next
    case False
    then have "(1::rat) \<le> of_int ?S" using S0 by (metis of_int_1_le_iff int_one_le_iff_zero_less order_le_less)
    moreover have "0 \<le> ?n" using N by (intro rnd_nonneg) simp
    ultimately show ?thesis by simp
  qed
  note sb = rnd_rel [OF this]
  have S0': "(0::rat) \<le> of_int ?S" using S0 by simp
  have N0': "(0::rat) \<le> of_int ?N / 1000000000" using N by simp
  show "secs d * (1 - 1 / 2 ^ 51) \<le> Seconds d" and "Seconds d \<le> secs d * (1 + 1 / 2 ^ 50)"
    using sb nb S0' N0' unfolding eq split by (simp_all add: field_simps)
qed

text \<open>What accrues over a duration at a rate, as the program computes it.\<close>

lemma increment_bounds:
  assumes "0 \<le> d" and "in_i64 d" and "0 \<le> rps"
  shows "0 \<le> fmul (Seconds d) rps" and "fmul (Seconds d) rps \<le> rps * (1 + 1 / 2 ^ 49) * secs d + tiny64"
proof -
  have D0: "0 \<le> secs d" using assms(1) by simp
  have s: "secs d * (1 - 1 / 2 ^ 51) \<le> Seconds d" "Seconds d \<le> secs d * (1 + 1 / 2 ^ 50)"
    using Seconds_bounds [OF assms(1,2)] by auto
  have "0 \<le> secs d * (1 - 1 / 2 ^ 51)" using D0 by simp
  then have s0: "0 \<le> Seconds d" using s(1) by linarith
  then show "0 \<le> fmul (Seconds d) rps" using assms(3) by (simp add: fmul_def rnd_nonneg)
  have "Seconds d * rps \<le> secs d * (1 + 1 / 2 ^ 50) * rps" using s(2) assms(3) by (rule mult_right_mono)
  then have "fmul (Seconds d) rps \<le> rnd (secs d * (1 + 1 / 2 ^ 50) * rps)"
    unfolding fmul_def by (rule rnd_mono)
  also have "\<dots> \<le> secs d * (1 + 1 / 2 ^ 50) * rps * (1 + 1 / 2 ^ 53) + tiny64"
    using D0 assms(3) by (intro rnd_upper) simp
  also have "secs d * (1 + 1 / 2 ^ 50) * rps * (1 + 1 / 2 ^ 53) =
      rps * secs d * ((1 + 1 / 2 ^ 50) * (1 + 1 / 2 ^ 53))"
    by (simp add: mult_ac)
  also have "\<dots> \<le> rps * secs d * (1 + 1 / 2 ^ 49)"
    using D0 assms(3) by (intro mult_left_mono) auto
  finally show "fmul (Seconds d) rps \<le> rps * (1 + 1 / 2 ^ 49) * secs d + tiny64" by (simp add: mult_ac)
qed

lemma increment_lower:
  assumes "0 \<le> d" and "in_i64 d" and "0 \<le> rps"
  shows "rps * (1 - 1 / 2 ^ 49) * secs d - tiny64 \<le> fmul (Seconds d) rps"
proof -
  have D0: "0 \<le> secs d" using assms(1) by simp
  have "secs d * (1 - 1 / 2 ^ 51) \<le> Seconds d" by (rule Seconds_bounds [OF assms(1,2)])
  then have lo: "secs d * (1 - 1 / 2 ^ 51) * rps \<le> Seconds d * rps" using assms(3) by (rule mult_right_mono)
  have "rps * (1 - 1 / 2 ^ 49) * secs d \<le> rps * secs d * ((1 - 1 / 2 ^ 51) * (1 - 1 / 2 ^ 53))"
    using D0 assms(3) by (simp add: mult_ac mult_left_mono)
  also have "\<dots> = secs d * (1 - 1 / 2 ^ 51) * rps * (1 - 1 / 2 ^ 53)" by (simp only: mult_ac)
  finally have a: "rps * (1 - 1 / 2 ^ 49) * secs d \<le> secs d * (1 - 1 / 2 ^ 51) * rps * (1 - 1 / 2 ^ 53)" .
  have "0 \<le> secs d * (1 - 1 / 2 ^ 51) * rps" using D0 assms(3) by simp
  from rnd_lower [OF this] a
  have "rps * (1 - 1 / 2 ^ 49) * secs d - tiny64 \<le> rnd (secs d * (1 - 1 / 2 ^ 51) * rps)" by linarith
  also have "\<dots> \<le> fmul (Seconds d) rps" unfolding fmul_def by (rule rnd_mono [OF lo])
  finally show ?thesis .
qed

end
