(* ===== verification/Limiter.thy ===== *)
theory Limiter
  imports GoTime
begin

text \<open>
  Package \<open>internal/worker\<close>, file \<open>limiter.go\<close>: the per-tenant pools of leased
  tokens and the code that works on one pool under its mutex. \<open>Check\<close> has two critical
  sections (\<open>check_locked\<close>, lines 127 to 155, and \<open>wake_locked\<close>, lines 164 to 173)
  and \<open>renew\<close> has one (\<open>renew_locked\<close>); each is a function on the pool here. How
  goroutines interleave them is the subject of theory \<open>Limiter_Steps\<close>.

  A channel \<open>renewDone\<close> is named by a number; the runtime state keeps which channels are
  closed.
\<close>

section \<open>Definitions\<close>

record Grant =
  g_Tokens :: int
  g_TTL :: duration
  g_RetryAfter :: duration

datatype lease_error = ErrUnknownTenant | ErrLease string

type_synonym lease_result = "lease_error + Grant"
type_synonym chan = nat

definition prefetchFraction :: float64 where
  "prefetchFraction = rnd (1 / 5)"

definition minRetryAfter :: duration where
  "minRetryAfter = 200 * Millisecond"

definition backoffMin :: duration where
  "backoffMin = 250 * Millisecond"

definition backoffMax :: duration where
  "backoffMax = 2 * Second"

definition unknownTenantTTL :: duration where
  "unknownTenantTTL = 10 * Second"

definition waitForLease :: duration where
  "waitForLease = 25 * Millisecond"

lemmas limiter_consts = minRetryAfter_def backoffMin_def backoffMax_def unknownTenantTTL_def
  waitForLease_def Second_def Millisecond_def

record pool =
  tokens :: int
  expiry :: time
  lastGrant :: int
  renewing :: bool
  renewDone :: "chan option"
  nextTry :: time
  backoff :: duration
  unknownUntil :: time

definition zero_pool :: pool where
  "zero_pool = \<lparr>tokens = 0, expiry = zero_time, lastGrant = 0, renewing = False, renewDone = None,
     nextTry = zero_time, backoff = 0, unknownUntil = zero_time\<rparr>"

datatype Decision = Admit | Reject | Unknown

record Counters =
  Admitted :: int
  AdmittedTokens :: int
  Rejected :: int
  LeaseCalls :: int
  LeaseErrs :: int

definition zero_counters :: Counters where
  "zero_counters = \<lparr>Admitted = 0, AdmittedTokens = 0, Rejected = 0, LeaseCalls = 0, LeaseErrs = 0\<rparr>"

record Limiter =
  pools :: "string \<rightharpoonup> pool"
  counts :: "string \<rightharpoonup> Counters"

definition NewLimiter :: Limiter where
  "NewLimiter = \<lparr>pools = Map.empty, counts = Map.empty\<rparr>"

text \<open>The lookups that create what is missing. Entries are never removed, so the pointer a
  goroutine holds is the entry of its tenant.\<close>

definition get_pool :: "string \<Rightarrow> 'a Limiter_scheme \<Rightarrow> pool \<times> 'a Limiter_scheme" where
  "get_pool tenant lm =
     (case pools lm tenant of
        Some p \<Rightarrow> (p, lm)
      | None \<Rightarrow> (zero_pool, lm\<lparr>pools := (pools lm)(tenant \<mapsto> zero_pool)\<rparr>))"

definition get_counters :: "string \<Rightarrow> 'a Limiter_scheme \<Rightarrow> Counters \<times> 'a Limiter_scheme" where
  "get_counters tenant lm =
     (case counts lm tenant of
        Some c \<Rightarrow> (c, lm)
      | None \<Rightarrow> (zero_counters, lm\<lparr>counts := (counts lm)(tenant \<mapsto> zero_counters)\<rparr>))"

definition watermark :: "int \<Rightarrow> int" where
  "watermark granted =
     (let w = int_of_float (fmul (float_of_int granted) prefetchFraction) in if w < 1 then 1 else w)"

definition shouldRenewLocked :: "pool \<Rightarrow> time \<Rightarrow> bool \<Rightarrow> bool" where
  "shouldRenewLocked p now insufficient =
     (if renewing p \<or> now < nextTry p then False
      else if insufficient \<or> lastGrant p = 0 then True
      else tokens p < watermark (lastGrant p))"

definition norm_cost :: "int \<Rightarrow> int" where
  "norm_cost cost = (if cost < 1 then 1 else cost)"

text \<open>What the first critical section of \<open>Check\<close> decides: the tenant is negative-cached, or
  whether the request is admitted, whether this goroutine starts a renewal, and the channel it
  may wait on.\<close>

datatype locked = LUnknown | LDecided (l_admitted: bool) (l_needRenew: bool) (l_wait: "chan option")

definition drop_expired :: "time \<Rightarrow> pool \<Rightarrow> pool" where
  "drop_expired now p = (if 0 < tokens p \<and> \<not> now < expiry p then p\<lparr>tokens := 0\<rparr> else p)"

definition check_locked :: "time \<Rightarrow> int \<Rightarrow> chan \<Rightarrow> pool \<Rightarrow> locked \<times> pool" where
  "check_locked now cost fresh p =
     (if now < unknownUntil p then (LUnknown, p)
      else
        let p = drop_expired now p;
            admitted = (cost \<le> tokens p);
            p = (if admitted then p\<lparr>tokens := tokens p - cost\<rparr> else p);
            needRenew = shouldRenewLocked p now (\<not> admitted);
            p = (if needRenew then p\<lparr>renewing := True, renewDone := Some fresh\<rparr> else p);
            cold = (lastGrant p = 0 \<or> \<not> now < expiry p);
            canWait = (\<not> admitted \<and> renewing p \<and> is_zero (nextTry p) \<and> cold);
            done = renewDone p in
        (LDecided admitted needRenew (if canWait then done else None), p))"

text \<open>After the channel closed: \<open>None\<close> is the unknown tenant, otherwise whether the request
  is admitted now.\<close>

definition wake_locked :: "time \<Rightarrow> int \<Rightarrow> pool \<Rightarrow> bool option \<times> pool" where
  "wake_locked now cost p =
     (if now < unknownUntil p then (None, p)
      else if cost \<le> tokens p \<and> now < expiry p then (Some True, p\<lparr>tokens := tokens p - cost\<rparr>)
      else (Some False, p))"

definition next_backoff :: "duration \<Rightarrow> duration" where
  "next_backoff b =
     (if b = 0 then backoffMin
      else let b = i64 (b * 2) in if backoffMax < b then backoffMax else b)"

text \<open>\<open>rand.Float64()\<close> is the argument \<open>r\<close>, a float64 in \<open>[0, 1)\<close>.\<close>

definition jitter :: "float64 \<Rightarrow> float64" where
  "jitter r = fadd 1 (fdiv (fsub r (1 / 2)) 2)"

definition backoff_delay :: "duration \<Rightarrow> float64 \<Rightarrow> duration" where
  "backoff_delay b r = int_of_float (fmul (float_of_int b) (jitter r))"

definition renew_result :: "time \<Rightarrow> float64 \<Rightarrow> lease_result \<Rightarrow> pool \<Rightarrow> pool" where
  "renew_result now r res p =
     (case res of
        Inl ErrUnknownTenant \<Rightarrow> p\<lparr>tokens := 0, unknownUntil := time_add now unknownTenantTTL\<rparr>
      | Inl (ErrLease _) \<Rightarrow>
          (let b = next_backoff (backoff p) in
           p\<lparr>backoff := b, nextTry := time_add now (backoff_delay b r)\<rparr>)
      | Inr g \<Rightarrow>
          if g_Tokens g = 0
          then (let ra = (if g_RetryAfter g < minRetryAfter then minRetryAfter else g_RetryAfter g) in
                p\<lparr>backoff := 0, nextTry := time_add now ra\<rparr>)
          else p\<lparr>backoff := 0, nextTry := zero_time, tokens := i64 (tokens p + g_Tokens g),
                 expiry := time_add now (g_TTL g), lastGrant := g_Tokens g\<rparr>)"

text \<open>The channel that the section closes comes first; \<open>renewDone\<close> is reset with it.\<close>

definition renew_locked :: "time \<Rightarrow> float64 \<Rightarrow> lease_result \<Rightarrow> pool \<Rightarrow> chan option \<times> pool" where
  "renew_locked now r res p =
     (renewDone p, renew_result now r res (p\<lparr>renewing := False, renewDone := None\<rparr>))"

definition is_lease_err :: "lease_result \<Rightarrow> bool" where
  "is_lease_err res = (case res of Inl (ErrLease _) \<Rightarrow> True | _ \<Rightarrow> False)"

section \<open>Counters\<close>

definition count_admit :: "int \<Rightarrow> Counters \<Rightarrow> Counters" where
  "count_admit cost c = c\<lparr>Admitted := i64 (Admitted c + 1), AdmittedTokens := i64 (AdmittedTokens c + cost)\<rparr>"

definition count_reject :: "Counters \<Rightarrow> Counters" where
  "count_reject c = c\<lparr>Rejected := i64 (Rejected c + 1)\<rparr>"

definition count_lease_call :: "Counters \<Rightarrow> Counters" where
  "count_lease_call c = c\<lparr>LeaseCalls := i64 (LeaseCalls c + 1)\<rparr>"

definition count_lease_err :: "Counters \<Rightarrow> Counters" where
  "count_lease_err c = c\<lparr>LeaseErrs := i64 (LeaseErrs c + 1)\<rparr>"

definition update_counters :: "string \<Rightarrow> (Counters \<Rightarrow> Counters) \<Rightarrow> 'a Limiter_scheme \<Rightarrow> 'a Limiter_scheme" where
  "update_counters tenant f lm =
     (let (c, lm) = get_counters tenant lm in lm\<lparr>counts := (counts lm)(tenant \<mapsto> f c)\<rparr>)"

text \<open>\<open>StatsSnapshot\<close>: the counters of one tenant under the names of the JSON answer.\<close>

definition counters_map :: "Counters \<Rightarrow> (string \<times> int) list" where
  "counters_map c =
     [(''admitted'', Admitted c), (''admittedTokens'', AdmittedTokens c), (''rejected'', Rejected c),
      (''leaseCalls'', LeaseCalls c), (''leaseErrs'', LeaseErrs c)]"

definition StatsSnapshot :: "'a Limiter_scheme \<Rightarrow> (string \<rightharpoonup> (string \<times> int) list)" where
  "StatsSnapshot lm = map_option counters_map \<circ> counts lm"

section \<open>The prefetch watermark\<close>

lemma prefetchFraction_eq: "prefetchFraction = 3602879701896397 / 18014398509481984"
proof -
  have "ilog2 (1 / 5) = -3"
    by (rule ilog2_eqI) (simp_all add: power_int_def power_one_over)
  then have u: "ulp_exp (1 / 5) = -55" by (simp add: ulp_exp_def)
  have q: "(2::rat) powi (-55) = 1 / 36028797018963968" by (simp add: power_int_def power_one_over)
  have "\<lfloor>(36028797018963968::rat) / 5\<rfloor> = 7205759403792793" by (simp add: floor_eq_iff)
  then have "round_even (1 / 5 / (1 / 36028797018963968)) = 7205759403792794"
    by (simp add: round_even_def Let_def)
  then show ?thesis by (simp add: prefetchFraction_def rnd_def Let_def u q)
qed

text \<open>The float64 product, truncated, is a fifth of the grant.\<close>

lemma watermark_eq:
  assumes "0 \<le> k" and "k < 2 ^ 50"
  shows "watermark k = max 1 (k div 5)"
proof -
  let ?x = "of_int k * prefetchFraction" and ?j = "k div 5"
  have k: "float_of_int k = of_int k" using assms by (intro float_of_int_exact) simp
  have j: "0 \<le> ?j" "?j \<le> 2 ^ 48" using assms by simp_all
  have "5 * ?j \<le> k" and "k \<le> 5 * ?j + 4" by simp_all
  then have kr: "5 * of_int ?j \<le> (of_int k :: rat)" "(of_int k :: rat) \<le> 5 * of_int ?j + 4"
    by (metis of_int_le_iff of_int_mult of_int_numeral of_int_add)+
  have kb: "(of_int k :: rat) \<le> 2 ^ 50" "(0::rat) \<le> of_int k"
    using assms by (simp_all add: of_int_le_numeral_iff)
  have lo: "of_int ?j \<le> ?x" and hi: "?x \<le> of_int ?j + 9 / 10" and x0: "0 \<le> ?x"
    using kr kb unfolding prefetchFraction_eq by simp_all
  have "rnd (of_int ?j) = of_int ?j" using j by (intro rnd_of_int) simp
  then have rlo: "of_int ?j \<le> rnd ?x" using rnd_mono [OF lo] by simp
  have jr: "(of_int ?j :: rat) \<le> 2 ^ 48" using j(2) by (simp add: of_int_le_numeral_iff)
  have "rnd ?x \<le> ?x * (1 + 1 / 2 ^ 53) + tiny64" using x0 by (rule rnd_upper)
  also have "\<dots> \<le> ?x + 1 / 20"
  proof -
    have "?x \<le> 2 ^ 48 + 1" using hi jr by linarith
    then have "?x * (1 / 2 ^ 53) \<le> (2 ^ 48 + 1) * (1 / 2 ^ 53)"
      by (rule mult_right_mono) simp
    moreover have "(2 ^ 48 + 1) * (1 / 2 ^ 53) + 1 / 2 ^ 113 \<le> (1 / 20 :: rat)" by simp
    ultimately show ?thesis using tiny64_small unfolding distrib_left mult_1_right by linarith
  qed
  finally have rhi: "rnd ?x < of_int ?j + 1" using hi by simp
  have "\<lfloor>rnd ?x\<rfloor> = ?j" using rlo rhi by (simp add: floor_eq_iff)
  moreover have "int_of_float (rnd ?x) = \<lfloor>rnd ?x\<rfloor>"
    using rhi jr x0 by (intro int_of_float_floor rnd_nonneg) simp_all
  ultimately show ?thesis by (simp add: watermark_def fmul_def k Let_def max_def)
qed

section \<open>The critical sections of Check\<close>

lemma drop_expired_simps [simp]:
  "expiry (drop_expired now p) = expiry p"
  "lastGrant (drop_expired now p) = lastGrant p"
  "renewing (drop_expired now p) = renewing p"
  "renewDone (drop_expired now p) = renewDone p"
  "nextTry (drop_expired now p) = nextTry p"
  "backoff (drop_expired now p) = backoff p"
  "unknownUntil (drop_expired now p) = unknownUntil p"
  by (simp_all add: drop_expired_def)

lemma drop_expired_tokens:
  "tokens (drop_expired now p) = (if 0 < tokens p \<and> expiry p \<le> now then 0 else tokens p)"
  by (simp add: drop_expired_def not_less)

lemma check_locked_unknown:
  "now < unknownUntil p \<Longrightarrow> check_locked now cost ch p = (LUnknown, p)"
  by (simp add: check_locked_def)

lemma check_locked_frame:
  assumes "check_locked now cost ch p = (out, p')"
  shows "expiry p' = expiry p" and "lastGrant p' = lastGrant p" and "nextTry p' = nextTry p"
    and "backoff p' = backoff p" and "unknownUntil p' = unknownUntil p"
  using assms by (auto simp: check_locked_def Let_def split: if_splits)

lemma check_locked_LUnknown:
  "check_locked now cost ch p = (LUnknown, p') \<Longrightarrow> p' = p \<and> now < unknownUntil p"
  by (auto simp: check_locked_def Let_def split: if_splits)

lemma check_locked_admitted:
  assumes "check_locked now cost ch p = (LDecided True nr w, p')" and "1 \<le> cost"
  shows "cost \<le> tokens p" and "now < expiry p" and "tokens p' = tokens p - cost"
    and "unknownUntil p \<le> now" and "w = None"
  using assms by (auto simp: check_locked_def Let_def drop_expired_tokens split: if_splits)

lemma check_locked_rejected:
  assumes "check_locked now cost ch p = (LDecided False nr w, p')"
  shows "tokens p' < cost" and "tokens p' = tokens (drop_expired now p)"
    and "unknownUntil p \<le> now"
  using assms by (auto simp: check_locked_def Let_def split: if_splits)

lemma check_locked_renew:
  assumes "check_locked now cost ch p = (LDecided a nr w, p')"
  shows "nr \<Longrightarrow> \<not> renewing p \<and> nextTry p \<le> now \<and> renewing p' \<and> renewDone p' = Some ch"
    and "\<not> nr \<Longrightarrow> renewing p' = renewing p \<and> renewDone p' = renewDone p"
    and "nr \<Longrightarrow> tokens p' < cost \<or> lastGrant p = 0 \<or> tokens p' < watermark (lastGrant p)"
  using assms
  by (auto simp: check_locked_def Let_def shouldRenewLocked_def split: if_splits)

lemma check_locked_wait:
  assumes "check_locked now cost ch p = (LDecided a nr (Some d), p')"
  shows "\<not> a" and "renewing p'" and "renewDone p' = Some d" and "is_zero (nextTry p)"
    and "lastGrant p = 0 \<or> expiry p \<le> now"
  using assms by (auto simp: check_locked_def Let_def split: if_splits)

lemma wake_locked_frame:
  assumes "wake_locked now cost p = (out, p')"
  shows "expiry p' = expiry p" and "lastGrant p' = lastGrant p" and "nextTry p' = nextTry p"
    and "backoff p' = backoff p" and "unknownUntil p' = unknownUntil p"
    and "renewing p' = renewing p" and "renewDone p' = renewDone p"
  using assms by (auto simp: wake_locked_def split: if_splits)

lemma wake_locked_tokens:
  assumes "wake_locked now cost p = (out, p')"
  shows "out = Some True \<Longrightarrow> cost \<le> tokens p \<and> now < expiry p \<and> tokens p' = tokens p - cost"
    and "out \<noteq> Some True \<Longrightarrow> p' = p"
  using assms by (auto simp: wake_locked_def split: if_splits)

section \<open>The critical section of renew\<close>

lemma renew_locked_flags:
  assumes "renew_locked now r res p = (d, p')"
  shows "d = renewDone p" and "\<not> renewing p'" and "renewDone p' = None"
  using assms
  by (auto simp: renew_locked_def renew_result_def Let_def
      split: sum.splits lease_error.splits if_splits)

lemma renew_locked_grant:
  assumes "renew_locked now r (Inr g) p = (d, p')" and "g_Tokens g \<noteq> 0"
  shows "tokens p' = i64 (tokens p + g_Tokens g)" and "expiry p' = now + g_TTL g"
    and "lastGrant p' = g_Tokens g" and "nextTry p' = zero_time" and "backoff p' = 0"
    and "unknownUntil p' = unknownUntil p"
  using assms by (auto simp: renew_locked_def renew_result_def time_add_def)

lemma renew_locked_no_grant:
  assumes "renew_locked now r res p = (d, p')" and "\<And>g. res = Inr g \<Longrightarrow> g_Tokens g = 0"
  shows "lastGrant p' = lastGrant p" and "expiry p' = expiry p"
    and "tokens p' = (if res = Inl ErrUnknownTenant then 0 else tokens p)"
  using assms
  by (auto simp: renew_locked_def renew_result_def Let_def split: sum.splits lease_error.splits)

section \<open>The backoff schedule\<close>

lemma next_backoff_schedule:
  "next_backoff (min (backoffMin * 2 ^ n) backoffMax) = min (backoffMin * 2 ^ Suc n) backoffMax"
proof (cases "n < 3")
  case True
  then consider "n = 0" | "n = 1" | "n = 2" by linarith
  then show ?thesis by cases (simp_all add: next_backoff_def limiter_consts i64_def)
next
  case False
  then have "(2::int) ^ 3 \<le> 2 ^ n" by (intro power_increasing) auto
  then have "backoffMax \<le> backoffMin * 2 ^ n" "backoffMax \<le> backoffMin * 2 ^ Suc n"
    by (simp_all add: limiter_consts)
  then show ?thesis by (simp add: min_absorb2) (simp add: next_backoff_def limiter_consts i64_def)
qed

definition backoff_after :: "nat \<Rightarrow> duration" where
  "backoff_after n = (if n = 0 then 0 else min (backoffMin * 2 ^ (n - 1)) backoffMax)"

lemma next_backoff_after: "next_backoff (backoff_after n) = backoff_after (Suc n)"
proof (cases n)
  case 0
  then show ?thesis by (simp add: next_backoff_def backoff_after_def limiter_consts)
next
  case (Suc m)
  then show ?thesis using next_backoff_schedule [of m] by (simp add: backoff_after_def)
qed

lemma backoff_after_values:
  "0 < n \<Longrightarrow> backoff_after n \<in> {250000000, 500000000, 1000000000, 2000000000}"
proof (cases "n \<le> 3")
  case True
  assume "0 < n"
  with True consider "n = 1" | "n = 2" | "n = 3" by linarith
  then show ?thesis by cases (simp_all add: backoff_after_def limiter_consts)
next
  case False
  then have "(2::int) ^ 3 \<le> 2 ^ (n - 1)" by (intro power_increasing) auto
  then show ?thesis using False by (simp add: backoff_after_def limiter_consts)
qed

lemma jitter_bounds:
  assumes "0 \<le> r" and "r \<le> 1"
  shows "3 / 4 \<le> jitter r" and "jitter r \<le> 5 / 4"
proof -
  have g: "is_float64 (of_int j / 4)" if "\<bar>j\<bar> \<le> 2 ^ 53" for j
    using is_float64_grid [of j "-2"] that by (simp add: power_int_def field_simps)
  have f: "is_float64 (- 2 / 4)" "is_float64 (- 1 / 4)" "is_float64 (1 / 4)" "is_float64 (2 / 4)"
      "is_float64 (3 / 4)" "is_float64 (5 / 4)"
    using g [of "-2"] g [of "-1"] g [of 1] g [of 2] g [of 3] g [of 5] by simp_all
  let ?a = "rnd (r - 1 / 2)"
  have a: "- 2 / 4 \<le> ?a" "?a \<le> 2 / 4"
    by (rule rnd_ge [OF f(1)], use assms in simp, rule rnd_le [OF f(4)], use assms in simp)
  let ?b = "rnd (?a / 2)"
  have b: "- 1 / 4 \<le> ?b" "?b \<le> 1 / 4"
    by (rule rnd_ge [OF f(2)], use a in simp, rule rnd_le [OF f(3)], use a in simp)
  show "3 / 4 \<le> jitter r" "jitter r \<le> 5 / 4"
    unfolding jitter_def fadd_def fdiv_def fsub_def
    by (rule rnd_ge [OF f(5)], use b in simp, rule rnd_le [OF f(6)], use b in simp)
qed

lemma backoff_delay_bounds:
  assumes "b \<in> {250000000, 500000000, 1000000000, 2000000000}" and "0 \<le> r" and "r \<le> 1"
  shows "3 * b \<le> 4 * backoff_delay b r" and "4 * backoff_delay b r \<le> 5 * b"
proof -
  obtain q where q: "b = 4 * q" "0 < q" "q \<le> 2 ^ 30" using assms(1) by auto
  have fb: "float_of_int b = 4 * of_int q" using q by (simp add: float_of_int_exact)
  have i: "rnd (of_int (3 * q)) = of_int (3 * q)" "rnd (of_int (5 * q)) = of_int (5 * q)"
    using q by (intro rnd_of_int; simp)+
  let ?x = "4 * of_int q * jitter r"
  have "of_int (3 * q) \<le> ?x" "?x \<le> of_int (5 * q)"
    using jitter_bounds [OF assms(2,3)] q(2) by simp_all
  then have x: "of_int (3 * q) \<le> rnd ?x" "rnd ?x \<le> of_int (5 * q)"
    using rnd_mono i by metis+
  have "(0::rat) \<le> of_int (3 * q)" "(of_int (5 * q) :: rat) < 2 ^ 63"
  proof -
    have "5 * q < 2 ^ 63" using q(3) by simp
    then have "(of_int (5 * q) :: rat) < of_int (2 ^ 63)" by (simp only: of_int_less_iff)
    then show "(of_int (5 * q) :: rat) < 2 ^ 63" by simp
  qed (use q in simp)
  then have "backoff_delay b r = \<lfloor>rnd ?x\<rfloor>"
    unfolding backoff_delay_def fmul_def fb using x by (intro int_of_float_floor) linarith+
  moreover have "3 * q \<le> \<lfloor>rnd ?x\<rfloor>" using x(1) by (simp only: le_floor_iff)
  moreover have "\<lfloor>rnd ?x\<rfloor> \<le> 5 * q" 
  proof -
    have "of_int \<lfloor>rnd ?x\<rfloor> \<le> (of_int (5 * q) :: rat)" using of_int_floor_le x(2) by (rule order_trans)
    then show ?thesis by (simp only: of_int_le_iff)
  qed
  ultimately show "3 * b \<le> 4 * backoff_delay b r" "4 * backoff_delay b r \<le> 5 * b"
    using q(1) by simp_all
qed

text \<open>A run of failed renewals: the time, the random number and the message of each.\<close>

definition renew_failures :: "(time \<times> float64 \<times> string) list \<Rightarrow> pool \<Rightarrow> pool" where
  "renew_failures es p = foldl (\<lambda>p (now, r, msg). snd (renew_locked now r (Inl (ErrLease msg)) p)) p es"

lemma renew_failures_snoc:
  "renew_failures (es @ [(now, r, msg)]) p = snd (renew_locked now r (Inl (ErrLease msg)) (renew_failures es p))"
  by (simp add: renew_failures_def)

lemma renew_failure:
  "snd (renew_locked now r (Inl (ErrLease msg)) p) =
    p\<lparr>renewing := False, renewDone := None, backoff := next_backoff (backoff p),
      nextTry := now + backoff_delay (next_backoff (backoff p)) r\<rparr>"
  by (simp add: renew_locked_def renew_result_def Let_def time_add_def)

lemma renew_failures_backoff:
  "backoff p = 0 \<Longrightarrow> backoff (renew_failures es p) = backoff_after (length es) \<and>
    tokens (renew_failures es p) = tokens p \<and> expiry (renew_failures es p) = expiry p"
proof (induction es rule: rev_induct)
  case Nil
  then show ?case by (simp add: renew_failures_def backoff_after_def)
next
  case (snoc e es)
  obtain now r msg where e: "e = (now, r, msg)" by (cases e) auto
  show ?case using snoc by (simp add: e renew_failures_snoc renew_failure next_backoff_after)
qed

section \<open>A row of checks between two renewals\<close>

fun run_checks :: "(time \<times> int \<times> chan) list \<Rightarrow> pool \<Rightarrow> locked list \<times> pool" where
  "run_checks [] p = ([], p)"
| "run_checks ((now, cost, ch) # cs) p =
     (let (out, p) = check_locked now cost ch p; (outs, p) = run_checks cs p in (out # outs, p))"

fun starts_or_waits :: "locked \<Rightarrow> bool" where
  "starts_or_waits LUnknown = False"
| "starts_or_waits (LDecided a nr w) = (nr \<or> w \<noteq> None)"

fun admits :: "locked \<Rightarrow> bool" where
  "admits LUnknown = False"
| "admits (LDecided a nr w) = a"

text \<open>What is admitted depends on the tokens, their expiry and the negative cache only.\<close>

definition same_budget :: "pool \<Rightarrow> pool \<Rightarrow> bool" where
  "same_budget p q \<longleftrightarrow> tokens p = tokens q \<and> expiry p = expiry q \<and> unknownUntil p = unknownUntil q"

lemma check_locked_effect:
  assumes "check_locked now cost ch p = (out, p')"
  shows "admits out \<longleftrightarrow> \<not> now < unknownUntil p \<and> cost \<le> tokens (drop_expired now p)"
    and "tokens p' = (if now < unknownUntil p then tokens p
      else tokens (drop_expired now p) - (if cost \<le> tokens (drop_expired now p) then cost else 0))"
  using assms by (auto simp: check_locked_def Let_def split: if_splits)

lemma check_locked_budget:
  assumes "same_budget p q" and "check_locked now cost ch p = (out, p')" and "check_locked now cost ch q = (out', q')"
  shows "admits out = admits out'" and "same_budget p' q'"
proof -
  have d: "tokens (drop_expired now p) = tokens (drop_expired now q)" and u: "unknownUntil p = unknownUntil q"
    and t: "tokens p = tokens q" and e: "expiry p = expiry q"
    using assms(1) by (simp_all add: same_budget_def drop_expired_tokens)
  show "admits out = admits out'" by (simp only: check_locked_effect(1) [OF assms(2)] check_locked_effect(1) [OF assms(3)] d u)
  have "tokens p' = tokens q'" by (simp only: check_locked_effect(2) [OF assms(2)] check_locked_effect(2) [OF assms(3)] d u t)
  then show "same_budget p' q'"
    using check_locked_frame(1,5) [OF assms(2)] check_locked_frame(1,5) [OF assms(3)] u e by (simp add: same_budget_def)
qed

lemma run_checks_budget:
  "same_budget p q \<Longrightarrow> map admits (fst (run_checks cs p)) = map admits (fst (run_checks cs q)) \<and>
    same_budget (snd (run_checks cs p)) (snd (run_checks cs q))"
proof (induction cs arbitrary: p q)
  case (Cons c cs)
  obtain now cost ch where c: "c = (now, cost, ch)" by (metis prod_cases3)
  obtain out p' out' q' where s: "check_locked now cost ch p = (out, p')" "check_locked now cost ch q = (out', q')"
    by fastforce
  note b = check_locked_budget [OF Cons.prems s]
  show ?case using b(1) Cons.IH [OF b(2)] by (simp add: c s split_beta)
qed simp

lemma check_locked_paused:
  assumes "\<not> renewing p" and "now < nextTry p" and "check_locked now cost ch p = (out, p')"
  shows "\<not> starts_or_waits out" and "\<not> renewing p'" and "nextTry p' = nextTry p" and "lastGrant p' = lastGrant p"
    and "unknownUntil p' = unknownUntil p"
  using assms by (auto simp: check_locked_def shouldRenewLocked_def Let_def split: if_splits)

lemma run_checks_paused:
  "\<not> renewing p \<Longrightarrow> list_all (\<lambda>c. fst c < nextTry p) cs \<Longrightarrow> run_checks cs p = (outs, p') \<Longrightarrow>
    list_all (\<lambda>out. \<not> starts_or_waits out) outs \<and> \<not> renewing p' \<and> nextTry p' = nextTry p \<and> lastGrant p' = lastGrant p \<and>
    unknownUntil p' = unknownUntil p"
proof (induction cs arbitrary: p outs p')
  case (Cons c cs)
  obtain now cost ch where c: "c = (now, cost, ch)" by (metis prod_cases3)
  obtain out p1 where s: "check_locked now cost ch p = (out, p1)" by fastforce
  obtain outs' p2 where s': "run_checks cs p1 = (outs', p2)" by fastforce
  have "now < nextTry p" using Cons.prems(2) by (simp add: c)
  note h = check_locked_paused [OF Cons.prems(1) this s]
  have "list_all (\<lambda>c. fst c < nextTry p1) cs" using Cons.prems(2) h(3) by (simp add: c)
  from Cons.IH [OF h(2) this s'] show ?case using Cons.prems(3) h by (auto simp: c s s')
qed simp

text \<open>How long a renewal that brought no tokens puts off the next one, at least and at most; \<open>n\<close> failures
  came before it.\<close>

definition pause :: "nat \<Rightarrow> lease_result \<Rightarrow> duration \<times> duration" where
  "pause n res =
     (case res of
        Inr g \<Rightarrow> (max (200 * Millisecond) (g_RetryAfter g), max (200 * Millisecond) (g_RetryAfter g))
      | Inl _ \<Rightarrow> (let b = min (250 * Millisecond * 2 ^ n) (2 * Second) in (3 * b div 4, 5 * b div 4)))"

lemma renew_pause:
  assumes "renew_locked t0 r res p = (d, p1)" and "backoff p = backoff_after n" and "0 \<le> r" and "r \<le> 1"
    and "res = Inl (ErrLease msg) \<or> res = Inr g \<and> g_Tokens g = 0" and "pause n res = (lo, hi)"
  shows "t0 + lo \<le> nextTry p1" and "nextTry p1 \<le> t0 + hi" and "\<not> renewing p1" and "same_budget p1 p"
    and "lastGrant p1 = lastGrant p" 
proof -
  show "\<not> renewing p1" "lastGrant p1 = lastGrant p"
    using renew_locked_flags [OF assms(1)] renew_locked_no_grant [OF assms(1)] assms(5) by auto
  show "same_budget p1 p"
    using assms(1,5) by (auto simp: same_budget_def renew_locked_def renew_result_def Let_def split: sum.splits)
  have "t0 + lo \<le> nextTry p1 \<and> nextTry p1 \<le> t0 + hi"
  proof (cases res)
    case (Inl e)
    then have e: "res = Inl (ErrLease msg)" using assms(5) by simp
    define b where "b = backoff_after (Suc n)"
    have v: "b \<in> {250000000, 500000000, 1000000000, 2000000000}" unfolding b_def by (rule backoff_after_values) simp
    have "nextTry p1 = t0 + backoff_delay b r"
      using renew_failure [of t0 r msg p] assms(1,2) by (simp add: e b_def next_backoff_after)
    moreover have "lo = 3 * b div 4" "hi = 5 * b div 4"
      using assms(6) by (auto simp: e pause_def Let_def b_def backoff_after_def backoffMin_def backoffMax_def)
    ultimately show ?thesis using backoff_delay_bounds [OF v assms(3,4)] v by auto
  next
    case (Inr g')
    then show ?thesis
      using assms(1,5,6) by (auto simp: renew_locked_def renew_result_def pause_def time_add_def minRetryAfter_def Let_def max_def)
  qed
  then show "t0 + lo \<le> nextTry p1" "nextTry p1 \<le> t0 + hi" by auto
qed

section \<open>Properties\<close>

lemmas pool_exec = zero_pool_def check_locked_def wake_locked_def drop_expired_def shouldRenewLocked_def
  is_zero_def zero_time_def renew_locked_def renew_result_def time_add_def Let_def limiter_consts

text \<open>C16. The prefetch watermark, computed in float64 from the constant 0.2 (which float64 cannot
  represent), is exactly a fifth of the last grant, rounded down, and at least one token.\<close>

theorem watermark_exact:
  assumes "0 \<le> k" and "k < 2 ^ 50"
  shows "watermark k = max 1 (k div 5)"
  by (rule watermark_eq [OF assms])

theorem watermark_exact_witness: "watermark 100 = 20 \<and> watermark 3 = 1"
  using watermark_exact [of 100] watermark_exact [of 3] by simp

text \<open>C11. Admission is all-or-nothing and sound: a request is admitted exactly when its tenant is not
  negative-cached and an unexpired lease holds its whole cost, and then exactly the cost is taken. A
  request that is not admitted takes nothing; tokens past their expiry are dropped. A negative-cached
  tenant leaves the pool alone.\<close>

theorem check_admission:
  assumes "1 \<le> cost" and "check_locked now cost ch p = (out, p')"
  shows "(out = LUnknown \<longleftrightarrow> now < unknownUntil p) \<and> (out = LUnknown \<longrightarrow> p' = p) \<and>
    ((\<exists>nr w. out = LDecided True nr w) \<longleftrightarrow>
       unknownUntil p \<le> now \<and> cost \<le> tokens p \<and> now < expiry p) \<and>
    (\<forall>nr w. out = LDecided True nr w \<longrightarrow> tokens p' = tokens p - cost \<and> w = None) \<and>
    (\<forall>nr w. out = LDecided False nr w \<longrightarrow>
       tokens p' = (if 0 < tokens p \<and> expiry p \<le> now then 0 else tokens p))"
  using assms by (auto simp: check_locked_def Let_def drop_expired_def split: if_splits)

theorem check_admission_witness:
  "\<exists>nr w p'. check_locked 5 3 0 (zero_pool\<lparr>tokens := 4, expiry := 9, lastGrant := 10\<rparr>) = (LDecided True nr w, p') \<and>
     tokens p' = 4 - 3"
proof -
  let ?p = "zero_pool\<lparr>tokens := 4, expiry := 9, lastGrant := 10\<rparr>"
  obtain out p' where c: "check_locked 5 3 0 ?p = (out, p')" by fastforce
  show ?thesis using check_admission [OF _ c] c by (auto simp: zero_pool_def zero_time_def)
qed

text \<open>C12. When a check starts a renewal, and when it waits for one. It starts one only if none is in
  flight for the pool and no pacing or backoff is pending, and then exactly if the request was
  refused, the pool was never filled, or what is left is below the watermark. It waits only if it was
  refused with a renewal in flight, no pacing or backoff was ever set since the last grant, and the pool
  never had a lease or the lease expired.\<close>

theorem check_renewal:
  assumes "check_locked now cost ch p = (LDecided admitted needRenew wait, p')"
    and "0 \<le> lastGrant p" and "lastGrant p < 2 ^ 50"
  shows "(needRenew \<longleftrightarrow> \<not> renewing p \<and> nextTry p \<le> now \<and>
       (\<not> admitted \<or> lastGrant p = 0 \<or> tokens p' < max 1 (lastGrant p div 5))) \<and>
    (needRenew \<longrightarrow> renewing p' \<and> renewDone p' = Some ch) \<and>
    (\<not> needRenew \<longrightarrow> renewing p' = renewing p \<and> renewDone p' = renewDone p) \<and>
    wait = (if \<not> admitted \<and> renewing p' \<and> nextTry p = zero_time \<and> (lastGrant p = 0 \<or> expiry p \<le> now)
            then renewDone p' else None)"
  using assms watermark_eq [OF assms(2,3)]
  by (auto simp: check_locked_def Let_def shouldRenewLocked_def is_zero_def split: if_splits)

theorem check_renewal_witness:
  "\<exists>p'. check_locked 5 1 7 zero_pool = (LDecided False True (Some 7), p') \<and> renewing p' \<and>
     (\<exists>q'. check_locked 5 1 8 p' = (LDecided False False (Some 7), q'))"
proof -
  let ?p = "zero_pool\<lparr>renewing := True, renewDone := Some 7\<rparr>"
  have c: "check_locked 5 1 7 zero_pool = (LDecided False True (Some 7), ?p)" by (simp add: pool_exec)
  obtain q' where d: "check_locked 5 1 8 ?p = (LDecided False False (Some 7), q')" by (simp add: pool_exec)
  show ?thesis using check_renewal [OF c] c d by (auto simp: zero_pool_def)
qed

text \<open>C13. How a renewal that brings no tokens paces the lease calls. After an ordinary error, the \<open>n + 1\<close>st in
  a row, the next call is put off by the backoff (250 ms doubled \<open>n\<close> times, at most 2 s) give or take a
  quarter of it; after a zero grant by the coordinator's hint, but at least 200 ms. Whatever checks come before that
  time, none starts a lease call and none waits for one, and exactly the same of them are admitted as if the call had never
  been made: the tokens held stay usable. The first check after that time starts a call exactly if it is
  refused, the pool was never filled, or what is left is below the watermark.\<close>

theorem lease_calls_paced:
  assumes "renew_locked t0 r res p = (d, p1)" and "backoff p = backoff_after n" and "0 \<le> r" and "r \<le> 1"
    and "res = Inl (ErrLease msg) \<or> res = Inr g \<and> g_Tokens g = 0" and "pause n res = (lo, hi)"
    and early: "list_all (\<lambda>c. fst c < t0 + lo) cs" and run: "run_checks cs p1 = (outs, p2)"
  shows "list_all (\<lambda>out. \<not> starts_or_waits out) outs \<and>
    map admits outs = map admits (fst (run_checks cs p)) \<and>
    (t0 + hi \<le> now \<longrightarrow> unknownUntil p \<le> now \<longrightarrow> 0 \<le> lastGrant p \<longrightarrow> lastGrant p < 2 ^ 50 \<longrightarrow>
      (\<exists>a nr w p3. check_locked now cost ch p2 = (LDecided a nr w, p3) \<and>
        (nr \<longleftrightarrow> \<not> a \<or> lastGrant p = 0 \<or> tokens p3 < max 1 (lastGrant p div 5))))"
proof -
  note h = renew_pause [OF assms(1-6)]
  have "list_all (\<lambda>c. fst c < nextTry p1) cs" using early h(1) by (auto elim!: list.pred_mono_strong)
  note q = run_checks_paused [OF h(3) this run]
  have adm: "map admits outs = map admits (fst (run_checks cs p))" using run_checks_budget [OF h(4), of cs] run by simp
  have late: "\<exists>a nr w p3. check_locked now cost ch p2 = (LDecided a nr w, p3) \<and>
        (nr \<longleftrightarrow> \<not> a \<or> lastGrant p = 0 \<or> tokens p3 < max 1 (lastGrant p div 5))"
    if "t0 + hi \<le> now" "unknownUntil p \<le> now" "0 \<le> lastGrant p" "lastGrant p < 2 ^ 50"
  proof -
    obtain out p3 where c: "check_locked now cost ch p2 = (out, p3)" by fastforce
    have u: "unknownUntil p2 \<le> now" and l: "lastGrant p2 = lastGrant p" and n: "nextTry p2 \<le> now"
      using q h that(1,2) by (auto simp: same_budget_def)
    then obtain a nr w where o: "out = LDecided a nr w"
      using c check_locked_LUnknown [of now cost ch p2 p3] by (cases out) auto
    have "nr \<longleftrightarrow> \<not> a \<or> lastGrant p = 0 \<or> tokens p3 < watermark (lastGrant p)"
      using c n q l unfolding o by (auto simp: check_locked_def Let_def shouldRenewLocked_def split: if_splits)
    then show ?thesis using c o watermark_eq [OF that(3,4)] by auto
  qed
  show ?thesis using q adm late by auto
qed

theorem lease_calls_paced_witness:
  "\<exists>d p1 outs p2. renew_locked 100 (1 / 2) (Inl (ErrLease ''timeout'')) (zero_pool\<lparr>tokens := 3, expiry := 900, lastGrant := 10\<rparr>) = (d, p1) \<and>
     run_checks [(200, 2, 0), (300, 2, 1)] p1 = (outs, p2) \<and> map admits outs = [True, False] \<and>
     list_all (\<lambda>out. \<not> starts_or_waits out) outs \<and>
     (\<exists>a w p3. check_locked 312500100 1 2 p2 = (LDecided a True w, p3))"
proof -
  let ?p = "zero_pool\<lparr>tokens := 3, expiry := 900, lastGrant := 10\<rparr>" and ?cs = "[(200, 2, 0), (300, 2, 1 :: nat)]"
  obtain d p1 where r: "renew_locked 100 (1 / 2) (Inl (ErrLease ''timeout'')) ?p = (d, p1)" by fastforce
  obtain outs p2 where c: "run_checks ?cs p1 = (outs, p2)" by fastforce
  have b: "backoff ?p = backoff_after 0" by (simp add: zero_pool_def backoff_after_def)
  have pz: "pause 0 (Inl (ErrLease ''timeout'')) = (187500000, 312500000)" by (simp add: pause_def limiter_consts)
  have sp: "map admits (fst (run_checks ?cs ?p)) = [True, False]" by (simp add: pool_exec)
  note t = lease_calls_paced [OF r b _ _ _ pz _ c, of "''timeout''" _ 312500100 1 2]
  have quiet: "list_all (\<lambda>out. \<not> starts_or_waits out) outs" and adm: "map admits outs = [True, False]"
    using t sp by simp_all
  obtain a nr w p3 where k: "check_locked 312500100 1 2 p2 = (LDecided a nr w, p3)"
      "nr \<longleftrightarrow> \<not> a \<or> lastGrant ?p = 0 \<or> tokens p3 < max 1 (lastGrant ?p div 5)"
    using t by (auto simp: zero_pool_def zero_time_def)
  have "same_budget p1 ?p" by (rule renew_pause(4) [OF r b _ _ _ pz, of "''timeout''"]) simp_all
  then have "same_budget p2 (snd (run_checks ?cs ?p))" using run_checks_budget [of p1 ?p ?cs] c by simp
  then have "expiry p2 = 900" by (simp add: same_budget_def pool_exec)
  then have "\<not> a" using check_locked_admitted(2) [of 312500100 1 2 p2 nr w p3] k(1) by (cases a) auto
  then have nr using k(2) by (simp add: zero_pool_def)
  then show ?thesis using r c quiet adm k(1) by auto
qed
text \<open>C15. The negative cache: after the coordinator answered that it does not know the tenant, every
  check of the next ten seconds returns unknown and starts no lease call.\<close>

theorem negative_cache:
  assumes "renew_locked t0 r (Inl ErrUnknownTenant) p = (d, p')" and "now < t0 + 10000000000"
  shows "check_locked now cost ch p' = (LUnknown, p') \<and> wake_locked now cost p' = (None, p')"
  using assms
  by (auto simp: renew_locked_def renew_result_def check_locked_def wake_locked_def time_add_def limiter_consts)

theorem negative_cache_witness:
  "\<exists>d p'. renew_locked 100 0 (Inl ErrUnknownTenant) zero_pool = (d, p') \<and>
     check_locked 10000000099 1 0 p' = (LUnknown, p')"
proof -
  obtain d p' where c: "renew_locked 100 0 (Inl ErrUnknownTenant) zero_pool = (d, p')" by fastforce
  show ?thesis using negative_cache [OF c, of 10000000099 1 0] c by auto
qed

text \<open>C14. Exponential backoff: after \<open>n\<close> failures in a row the backoff is 250 ms doubled
  \<open>n - 1\<close> times, capped at 2 s; the next call is put off by it with a jitter of at most a
  quarter either way (in float64, with truncation), and the tokens held stay usable.\<close>

theorem backoff_schedule:
  assumes "backoff p = 0" and "0 \<le> r" and "r \<le> 1"
    and b_def: "b = min (250 * Millisecond * 2 ^ length es) (2 * Second)"
  shows "backoff (renew_failures (es @ [(now, r, msg)]) p) = b \<and>
    3 * b \<le> 4 * (nextTry (renew_failures (es @ [(now, r, msg)]) p) - now) \<and>
    4 * (nextTry (renew_failures (es @ [(now, r, msg)]) p) - now) \<le> 5 * b \<and>
    tokens (renew_failures (es @ [(now, r, msg)]) p) = tokens p"
proof -
  have b: "b = backoff_after (Suc (length es))"
    by (simp add: b_def backoff_after_def backoffMin_def backoffMax_def)
  have "b \<in> {250000000, 500000000, 1000000000, 2000000000}"
    unfolding b by (rule backoff_after_values) simp
  note d = backoff_delay_bounds [OF this assms(2,3)]
  have e: "backoff (renew_failures es p) = backoff_after (length es)"
    using renew_failures_backoff [OF assms(1)] by simp
  show ?thesis
    using d renew_failures_backoff [OF assms(1), of "es @ [(now, r, msg)]"]
    by (simp add: renew_failures_snoc renew_failure e next_backoff_after b)
qed

theorem backoff_schedule_witness:
  "backoff (renew_failures ([(0, 0, ''x''), (1, 1 / 2, ''y''), (2, 1, ''z'')] @ [(5, 0, ''u'')]) zero_pool) = 2000000000"
  using backoff_schedule [of zero_pool 0 _ "[(0, 0, ''x''), (1, 1 / 2, ''y''), (2, 1, ''z'')]" 5 "''u''", OF _ _ _ refl]
  by (simp add: zero_pool_def limiter_consts)

text \<open>C28. A grant revives what is left of an expired lease: the leftover tokens, which any check at
  that time would have dropped, are added to and get the new expiry, and can all be spent.\<close>

theorem grant_revives_expired:
  assumes "0 < tokens p" and "expiry p \<le> now" and "unknownUntil p \<le> now"
    and "0 < g_Tokens g" and "0 < g_TTL g" and "tokens p + g_Tokens g < 2 ^ 63"
    and "renew_locked now r (Inr g) p = (d, p')"
  shows "tokens (snd (check_locked now 1 ch p)) = 0 \<and>
    (\<exists>nr p''. check_locked now (tokens p + g_Tokens g) ch p' = (LDecided True nr None, p''))"
proof -
  have "i64 (tokens p + g_Tokens g) = tokens p + g_Tokens g"
    using assms by (intro i64_id in_i64_nonneg) auto
  then have "tokens p' = tokens p + g_Tokens g" "expiry p' = now + g_TTL g" "unknownUntil p' = unknownUntil p"
    using renew_locked_grant [OF assms(7)] assms(4) by auto
  then show ?thesis using assms by (auto simp: check_locked_def Let_def drop_expired_def)
qed

theorem grant_revives_expired_witness:
  "\<exists>nr p' p''. renew_locked 20 0 (Inr \<lparr>g_Tokens = 5, g_TTL = 100, g_RetryAfter = 0\<rparr>)
       (zero_pool\<lparr>tokens := 3, expiry := 10, lastGrant := 5\<rparr>) = (None, p') \<and>
     check_locked 20 (3 + 5) 0 p' = (LDecided True nr None, p'')"
proof -
  let ?p = "zero_pool\<lparr>tokens := 3, expiry := 10, lastGrant := 5\<rparr>"
  obtain d p' where c: "renew_locked 20 0 (Inr \<lparr>g_Tokens = 5, g_TTL = 100, g_RetryAfter = 0\<rparr>) ?p = (d, p')"
    by fastforce
  have "d = None" using c by (simp add: renew_locked_def zero_pool_def)
  then show ?thesis
    using grant_revives_expired [OF _ _ _ _ _ _ c, of 0] c by (auto simp: zero_pool_def zero_time_def)
qed

end
