(* ===== verification/Limiter_Steps.thy ===== *)
theory Limiter_Steps
  imports Limiter
begin

text \<open>
  The concurrent behaviour of \<open>worker.Limiter\<close>. A goroutine is a thread whose program
  counter stands between two atomic parts of \<open>Check\<close> or \<open>renew\<close>; the run-time state
  is the limiter with the list of threads, the closed channels and the clock. An event names the
  thread that moves and what its environment supplies: the clock reading, the outcome of the lease
  call, the random number. Every interleaving of the critical sections is a sequence of events.

  \<open>g_admitted\<close> and \<open>g_received\<close> are history variables: the tokens admitted, and the
  tokens of lease grants stored, per tenant.

  Closing a closed channel panics; \<open>Panic\<close> is the value of such a step.
\<close>

section \<open>Definitions\<close>

datatype thread =
    CheckEntry string int time
  | CheckWaiting string int chan time
  | CheckWoken string int time
  | CheckCount string int bool
  | CheckDone Decision
  | RenewStart string
  | RenewCall string
  | RenewReturn string lease_result time float64
  | RenewDone

record lstate = Limiter +
  closed_chans :: "chan set"
  next_chan :: chan
  threads :: "thread list"
  clock :: time
  g_admitted :: "string \<Rightarrow> int"
  g_received :: "string \<Rightarrow> int"

definition linit :: "time \<Rightarrow> lstate" where
  "linit now =
     \<lparr>pools = pools NewLimiter, counts = counts NewLimiter, closed_chans = {}, next_chan = 0,
      threads = [], clock = now, g_admitted = (\<lambda>_. 0), g_received = (\<lambda>_. 0)\<rparr>"

datatype event =
    Call string int time
  | Lock nat
  | Wake nat time
  | Timeout nat time
  | Relock nat
  | Count nat
  | LeaseStart nat
  | LeaseReturn nat lease_result time float64
  | RenewLock nat

datatype blocked = NotEnabled | Panic

definition thread_at :: "lstate \<Rightarrow> nat \<Rightarrow> thread option" where
  "thread_at s i = (if i < length (threads s) then Some (threads s ! i) else None)"

definition goto :: "nat \<Rightarrow> thread \<Rightarrow> lstate \<Rightarrow> lstate" where
  "goto i th s = s\<lparr>threads := (threads s)[i := th]\<rparr>"

definition spawn :: "thread \<Rightarrow> lstate \<Rightarrow> lstate" where
  "spawn th s = s\<lparr>threads := threads s @ [th]\<rparr>"

definition set_pool :: "string \<Rightarrow> pool \<Rightarrow> lstate \<Rightarrow> lstate" where
  "set_pool t p s = s\<lparr>pools := (pools s)(t \<mapsto> p)\<rparr>"

definition admit_tokens :: "string \<Rightarrow> int \<Rightarrow> lstate \<Rightarrow> lstate" where
  "admit_tokens t c s = s\<lparr>g_admitted := (g_admitted s)(t := g_admitted s t + c)\<rparr>"

definition grant_of :: "lease_result \<Rightarrow> int" where
  "grant_of res = (case res of Inr g \<Rightarrow> g_Tokens g | Inl _ \<Rightarrow> 0)"

text \<open>\<open>Check\<close>: the call reads the clock (line 125) after looking its pool up.\<close>

definition step_call :: "string \<Rightarrow> int \<Rightarrow> time \<Rightarrow> lstate \<Rightarrow> blocked + lstate" where
  "step_call t cost now s =
     (if now < clock s then Inl NotEnabled
      else Inr (spawn (CheckEntry t (norm_cost cost) now) ((snd (get_pool t s))\<lparr>clock := now\<rparr>)))"

text \<open>The first critical section; \<open>go lm.renew\<close> follows it, then the \<open>select\<close> or the counters.\<close>

definition step_lock :: "nat \<Rightarrow> lstate \<Rightarrow> blocked + lstate" where
  "step_lock i s =
     (case thread_at s i of
        Some (CheckEntry t cost now) \<Rightarrow>
          (case pools s t of
             None \<Rightarrow> Inl NotEnabled
           | Some p \<Rightarrow>
               (case check_locked now cost (next_chan s) p of
                  (LUnknown, p') \<Rightarrow> Inr (goto i (CheckDone Unknown) (set_pool t p' s))
                | (LDecided admitted needRenew wait, p') \<Rightarrow>
                    (let s = set_pool t p' s;
                         s = (if admitted then admit_tokens t cost s else s);
                         s = goto i (case wait of
                                       Some ch \<Rightarrow> CheckWaiting t cost ch now
                                     | None \<Rightarrow> CheckCount t cost admitted) s in
                     Inr (if needRenew then spawn (RenewStart t) (s\<lparr>next_chan := Suc (next_chan s)\<rparr>)
                          else s))))
      | _ \<Rightarrow> Inl NotEnabled)"

text \<open>The \<open>select\<close> of lines 161 to 175: the channel is closed, or the timer has fired.\<close>

definition step_wake :: "nat \<Rightarrow> time \<Rightarrow> lstate \<Rightarrow> blocked + lstate" where
  "step_wake i now s =
     (case thread_at s i of
        Some (CheckWaiting t cost ch since) \<Rightarrow>
          if ch \<in> closed_chans s \<and> clock s \<le> now then Inr (goto i (CheckWoken t cost now) (s\<lparr>clock := now\<rparr>))
          else Inl NotEnabled
      | _ \<Rightarrow> Inl NotEnabled)"

definition step_timeout :: "nat \<Rightarrow> time \<Rightarrow> lstate \<Rightarrow> blocked + lstate" where
  "step_timeout i now s =
     (case thread_at s i of
        Some (CheckWaiting t cost ch since) \<Rightarrow>
          if time_add since waitForLease \<le> now \<and> clock s \<le> now
          then Inr (goto i (CheckCount t cost False) (s\<lparr>clock := now\<rparr>))
          else Inl NotEnabled
      | _ \<Rightarrow> Inl NotEnabled)"

definition step_relock :: "nat \<Rightarrow> lstate \<Rightarrow> blocked + lstate" where
  "step_relock i s =
     (case thread_at s i of
        Some (CheckWoken t cost now) \<Rightarrow>
          (case pools s t of
             None \<Rightarrow> Inl NotEnabled
           | Some p \<Rightarrow>
               (case wake_locked now cost p of
                  (None, p') \<Rightarrow> Inr (goto i (CheckDone Unknown) (set_pool t p' s))
                | (Some admitted, p') \<Rightarrow>
                    (let s = set_pool t p' s;
                         s = (if admitted then admit_tokens t cost s else s) in
                     Inr (goto i (CheckCount t cost admitted) s))))
      | _ \<Rightarrow> Inl NotEnabled)"

definition step_count :: "nat \<Rightarrow> lstate \<Rightarrow> blocked + lstate" where
  "step_count i s =
     (case thread_at s i of
        Some (CheckCount t cost admitted) \<Rightarrow>
          Inr (goto i (CheckDone (if admitted then Admit else Reject))
                (update_counters t (if admitted then count_admit cost else count_reject) s))
      | _ \<Rightarrow> Inl NotEnabled)"

text \<open>\<open>renew\<close>: count the call and make it; it returns at some later time; store the result.\<close>

definition step_lease_start :: "nat \<Rightarrow> lstate \<Rightarrow> blocked + lstate" where
  "step_lease_start i s =
     (case thread_at s i of
        Some (RenewStart t) \<Rightarrow> Inr (goto i (RenewCall t) (update_counters t count_lease_call s))
      | _ \<Rightarrow> Inl NotEnabled)"

definition step_lease_return :: "nat \<Rightarrow> lease_result \<Rightarrow> time \<Rightarrow> float64 \<Rightarrow> lstate \<Rightarrow> blocked + lstate" where
  "step_lease_return i res now r s =
     (case thread_at s i of
        Some (RenewCall t) \<Rightarrow>
          if clock s \<le> now then Inr (goto i (RenewReturn t res now r) (s\<lparr>clock := now\<rparr>))
          else Inl NotEnabled
      | _ \<Rightarrow> Inl NotEnabled)"

definition step_renew_lock :: "nat \<Rightarrow> lstate \<Rightarrow> blocked + lstate" where
  "step_renew_lock i s =
     (case thread_at s i of
        Some (RenewReturn t res now r) \<Rightarrow>
          (case pools s t of
             None \<Rightarrow> Inl NotEnabled
           | Some p \<Rightarrow>
               (let (d, p') = renew_locked now r res p in
                if \<exists>ch \<in> set_option d. ch \<in> closed_chans s then Inl Panic
                else
                  (let s = set_pool t p' s;
                       s = s\<lparr>closed_chans := set_option d \<union> closed_chans s,
                             g_received := (g_received s)(t := g_received s t + grant_of res)\<rparr>;
                       s = (if is_lease_err res then update_counters t count_lease_err s else s) in
                   Inr (goto i RenewDone s))))
      | _ \<Rightarrow> Inl NotEnabled)"

fun lstep :: "event \<Rightarrow> lstate \<Rightarrow> blocked + lstate" where
  "lstep (Call t cost now) s = step_call t cost now s"
| "lstep (Lock i) s = step_lock i s"
| "lstep (Wake i now) s = step_wake i now s"
| "lstep (Timeout i now) s = step_timeout i now s"
| "lstep (Relock i) s = step_relock i s"
| "lstep (Count i) s = step_count i s"
| "lstep (LeaseStart i) s = step_lease_start i s"
| "lstep (LeaseReturn i res now r) s = step_lease_return i res now r s"
| "lstep (RenewLock i) s = step_renew_lock i s"

fun lrun :: "event list \<Rightarrow> lstate \<Rightarrow> blocked + lstate" where
  "lrun [] s = Inr s"
| "lrun (e # es) s = (case lstep e s of Inl b \<Rightarrow> Inl b | Inr s' \<Rightarrow> lrun es s')"

text \<open>What the environment may do: requests cost at most \<open>C\<close>, and a lease call for a tenant
  returns a result the leaser can return for it.\<close>

definition event_ok :: "(string \<Rightarrow> lease_result \<Rightarrow> bool) \<Rightarrow> int \<Rightarrow> lstate \<Rightarrow> event \<Rightarrow> bool" where
  "event_ok leaser C s ev =
     (case ev of
        Call t cost now \<Rightarrow> cost \<le> C
      | LeaseReturn i res now r \<Rightarrow>
          (case thread_at s i of Some (RenewCall t) \<Rightarrow> leaser t res | _ \<Rightarrow> True)
      | _ \<Rightarrow> True)"

inductive lreach :: "(string \<Rightarrow> lease_result \<Rightarrow> bool) \<Rightarrow> int \<Rightarrow> lstate \<Rightarrow> bool"
  for leaser :: "string \<Rightarrow> lease_result \<Rightarrow> bool" and C :: int where
  init: "lreach leaser C (linit now)"
| step: "lreach leaser C s \<Longrightarrow> event_ok leaser C s ev \<Longrightarrow> lstep ev s = Inr s' \<Longrightarrow> lreach leaser C s'"

lemmas step_defs = step_call_def step_lock_def step_wake_def step_timeout_def step_relock_def
  step_count_def step_lease_start_def step_lease_return_def step_renew_lock_def

lemmas state_defs = goto_def spawn_def set_pool_def admit_tokens_def

lemma goto_simps [simp]:
  "pools (goto i th s) = pools s" "counts (goto i th s) = counts s"
  "closed_chans (goto i th s) = closed_chans s" "next_chan (goto i th s) = next_chan s"
  "threads (goto i th s) = (threads s)[i := th]" "clock (goto i th s) = clock s"
  "g_admitted (goto i th s) = g_admitted s" "g_received (goto i th s) = g_received s"
  by (simp_all add: goto_def)

lemma spawn_simps [simp]:
  "pools (spawn th s) = pools s" "counts (spawn th s) = counts s"
  "closed_chans (spawn th s) = closed_chans s" "next_chan (spawn th s) = next_chan s"
  "threads (spawn th s) = threads s @ [th]" "clock (spawn th s) = clock s"
  "g_admitted (spawn th s) = g_admitted s" "g_received (spawn th s) = g_received s"
  by (simp_all add: spawn_def)

lemma set_pool_simps [simp]:
  "pools (set_pool t p s) = (pools s)(t \<mapsto> p)" "counts (set_pool t p s) = counts s"
  "closed_chans (set_pool t p s) = closed_chans s" "next_chan (set_pool t p s) = next_chan s"
  "threads (set_pool t p s) = threads s" "clock (set_pool t p s) = clock s"
  "g_admitted (set_pool t p s) = g_admitted s" "g_received (set_pool t p s) = g_received s"
  by (simp_all add: set_pool_def)

lemma admit_tokens_simps [simp]:
  "pools (admit_tokens t c s) = pools s" "counts (admit_tokens t c s) = counts s"
  "closed_chans (admit_tokens t c s) = closed_chans s" "next_chan (admit_tokens t c s) = next_chan s"
  "threads (admit_tokens t c s) = threads s" "clock (admit_tokens t c s) = clock s"
  "g_admitted (admit_tokens t c s) = (g_admitted s)(t := g_admitted s t + c)"
  "g_received (admit_tokens t c s) = g_received s"
  by (simp_all add: admit_tokens_def)

lemma update_counters_simps [simp]:
  fixes s :: lstate
  shows "pools (update_counters t f s) = pools s"
  "closed_chans (update_counters t f s) = closed_chans s"
  "next_chan (update_counters t f s) = next_chan s"
  "threads (update_counters t f s) = threads s" "clock (update_counters t f s) = clock s"
  "g_admitted (update_counters t f s) = g_admitted s"
  "g_received (update_counters t f s) = g_received s"
  by (simp_all add: update_counters_def get_counters_def split: option.splits)

section \<open>Observations on a state\<close>

fun renews :: "string \<Rightarrow> thread \<Rightarrow> bool" where
  "renews t (RenewStart u) = (u = t)"
| "renews t (RenewCall u) = (u = t)"
| "renews t (RenewReturn u _ _ _) = (u = t)"
| "renews t _ = False"

definition in_flight :: "string \<Rightarrow> lstate \<Rightarrow> nat" where
  "in_flight t s = length (filter (renews t) (threads s))"

text \<open>What a pool may hold when a renewal starts, and hence the bound on what it ever holds:
  less than the dearest request, or less than the watermark of the largest lease.\<close>

definition low_mark :: "int \<Rightarrow> int \<Rightarrow> int" where
  "low_mark C L = max (C - 1) (max 1 (L div 5) - 1)"

definition result_ok :: "int \<Rightarrow> lease_result \<Rightarrow> bool" where
  "result_ok L res \<longleftrightarrow> 0 \<le> grant_of res \<and> grant_of res \<le> L"

definition pool_inv :: "int \<Rightarrow> int \<Rightarrow> lstate \<Rightarrow> string \<Rightarrow> pool \<Rightarrow> bool" where
  "pool_inv C L s t p \<longleftrightarrow>
     0 \<le> tokens p \<and> tokens p \<le> low_mark C L + L \<and> (renewing p \<longrightarrow> tokens p \<le> low_mark C L) \<and>
     0 \<le> lastGrant p \<and> lastGrant p \<le> L \<and> (lastGrant p = 0 \<longrightarrow> tokens p = 0) \<and>
     in_flight t s = (if renewing p then 1 else 0) \<and>
     (renewing p \<longleftrightarrow> renewDone p \<noteq> None) \<and>
     (\<forall>ch. renewDone p = Some ch \<longrightarrow> ch < next_chan s \<and> ch \<notin> closed_chans s) \<and>
     g_admitted s t + tokens p \<le> g_received s t"

fun thread_inv :: "int \<Rightarrow> int \<Rightarrow> lstate \<Rightarrow> thread \<Rightarrow> bool" where
  "thread_inv C L s (CheckEntry t c now) \<longleftrightarrow> t \<in> dom (pools s) \<and> 1 \<le> c \<and> c \<le> C"
| "thread_inv C L s (CheckWaiting t c ch since) \<longleftrightarrow> 1 \<le> c \<and> c \<le> C \<and> ch < next_chan s \<and>
     (\<exists>p. pools s t = Some p \<and> (ch \<in> closed_chans s \<or> renewDone p = Some ch))"
| "thread_inv C L s (CheckWoken t c now) \<longleftrightarrow> t \<in> dom (pools s) \<and> 1 \<le> c \<and> c \<le> C"
| "thread_inv C L s (CheckCount t c a) \<longleftrightarrow> t \<in> dom (pools s) \<and> 1 \<le> c"
| "thread_inv C L s (CheckDone d) \<longleftrightarrow> True"
| "thread_inv C L s (RenewStart t) \<longleftrightarrow> t \<in> dom (pools s)"
| "thread_inv C L s (RenewCall t) \<longleftrightarrow> t \<in> dom (pools s)"
| "thread_inv C L s (RenewReturn t res now r) \<longleftrightarrow> t \<in> dom (pools s) \<and> result_ok L res"
| "thread_inv C L s RenewDone \<longleftrightarrow> True"

definition linv :: "int \<Rightarrow> int \<Rightarrow> lstate \<Rightarrow> bool" where
  "linv C L s \<longleftrightarrow>
     (\<forall>t p. pools s t = Some p \<longrightarrow> pool_inv C L s t p) \<and>
     (\<forall>t. pools s t = None \<longrightarrow> in_flight t s = 0 \<and> g_admitted s t = 0 \<and> g_received s t = 0) \<and>
     (\<forall>t u p q ch. pools s t = Some p \<longrightarrow> pools s u = Some q \<longrightarrow>
        renewDone p = Some ch \<longrightarrow> renewDone q = Some ch \<longrightarrow> t = u) \<and>
     closed_chans s \<subseteq> {..<next_chan s} \<and>
     (\<forall>th \<in> set (threads s). thread_inv C L s th)"

lemma linv_init: "linv C L (linit now)"
  by (simp add: linv_def linit_def NewLimiter_def in_flight_def)

lemma linv_pool: "linv C L s \<Longrightarrow> pools s t = Some p \<Longrightarrow> pool_inv C L s t p"
  by (simp add: linv_def)

lemma linv_thread: "linv C L s \<Longrightarrow> thread_at s i = Some th \<Longrightarrow> thread_inv C L s th"
  by (auto simp: linv_def thread_at_def split: if_splits)

lemma filter_length_update:
  assumes "i < length xs"
  shows "length (filter P (xs[i := y])) + (if P (xs ! i) then 1 else 0) =
    length (filter P xs) + (if P y then 1 else 0)"
  using assms
proof (induction xs arbitrary: i)
  case Nil
  then show ?case by simp
next
  case (Cons x xs)
  then show ?case by (cases i) auto
qed

text \<open>The shape of every step but a call: one pool and one thread change, a channel may be opened
  or that pool's channel closed, and one renewal thread may be added.\<close>

lemma linv_update:
  assumes inv: "linv C L s" and p: "pools s t = Some p" and th: "thread_at s i = Some th"
    and fields: "pools s' = (pools s)(t \<mapsto> p')" "threads s' = (threads s)[i := th'] @ new"
    and oth: "\<And>u. u \<noteq> t \<Longrightarrow> g_admitted s' u = g_admitted s u \<and> g_received s' u = g_received s u"
    and rn: "\<And>u x. u \<noteq> t \<Longrightarrow> x \<in> {th, th'} \<union> set new \<Longrightarrow> \<not> renews u x"
    and pi: "pool_inv C L s' t p'"
    and ch: "closed_chans s \<subseteq> closed_chans s'" "closed_chans s' \<subseteq> closed_chans s \<union> set_option (renewDone p)"
      "next_chan s \<le> next_chan s'"
    and rd: "renewDone p' = None \<or> renewDone p' = renewDone p \<or> renewDone p' = Some (next_chan s)"
    and wt: "\<And>c. renewDone p = Some c \<Longrightarrow> c \<in> closed_chans s' \<or> renewDone p' = Some c"
    and nt: "\<And>x. x \<in> {th'} \<union> set new \<Longrightarrow> thread_inv C L s' x"
  shows "linv C L s'"
proof -
  have i: "i < length (threads s)" "threads s ! i = th"
    using th by (auto simp: thread_at_def split: if_splits)
  have pin: "pool_inv C L s t p" using inv p by (rule linv_pool)
  have fl: "in_flight u s' = in_flight u s" if "u \<noteq> t" for u
    using filter_length_update [OF i(1), of "renews u" th'] rn [OF that] i(2)
    by (auto simp: in_flight_def fields filter_empty_conv)
  have other_chan: "q_ch \<notin> set_option (renewDone p)" "q_ch < next_chan s" "q_ch \<notin> closed_chans s"
    if "u \<noteq> t" "pools s u = Some q" "renewDone q = Some q_ch" for u q q_ch
  proof -
    show "q_ch \<notin> set_option (renewDone p)"
      using inv that p unfolding linv_def by (metis elem_set)
    show "q_ch < next_chan s" "q_ch \<notin> closed_chans s"
      using linv_pool [OF inv that(2)] that(3) by (auto simp: pool_inv_def)
  qed
  have pools': "pool_inv C L s' u q" if u: "pools s' u = Some q" for u q
  proof (cases "u = t")
    case True
    then show ?thesis using pi u by (simp add: fields)
  next
    case False
    then have q: "pools s u = Some q" using u by (simp add: fields)
    have "pool_inv C L s u q" using inv q by (rule linv_pool)
    then show ?thesis
      using False fl [OF False] oth [OF False] ch other_chan [OF False q]
      unfolding pool_inv_def by auto
  qed
  moreover have "in_flight u s' = 0 \<and> g_admitted s' u = 0 \<and> g_received s' u = 0"
    if "pools s' u = None" for u
  proof -
    have "u \<noteq> t" using that by (auto simp: fields)
    then show ?thesis using that inv fl oth by (simp add: linv_def fields)
  qed
  moreover have "u = v" if "pools s' u = Some q" "pools s' v = Some q'" "renewDone q = Some c"
      "renewDone q' = Some c" for u v q q' c
  proof -
    have k: "v = t" if "v \<noteq> u" "pools s' v = Some x" "pools s' u = Some y"
      "renewDone x = Some c" "renewDone y = Some c" "u = t" for u v x y
    proof -
      have x: "pools s v = Some x" and y: "y = p'" using that by (auto simp: fields)
      have "v \<noteq> t" using that by simp
      from other_chan [OF this x that(4)] rd y that(5) show ?thesis by auto
    qed
    show ?thesis
    proof (rule ccontr)
      assume ne: "u \<noteq> v"
      consider "u = t" | "v = t" | "u \<noteq> t" "v \<noteq> t" by blast
      then show False
      proof cases
        case 1
        then show False using k [of v u q' q] that ne by auto
      next
        case 2
        then show False using k [of u v q q'] that ne by auto
      next
        case 3
        then have "pools s u = Some q" "pools s v = Some q'" using that by (auto simp: fields)
        then show False using inv that ne unfolding linv_def by blast
      qed
    qed
  qed
  moreover have "closed_chans s' \<subseteq> {..<next_chan s'}"
    using inv ch pin unfolding linv_def pool_inv_def by (fastforce simp: subset_iff)
  moreover have "thread_inv C L s' x" if x: "x \<in> set (threads s')" for x
  proof -
    have "x \<in> {th'} \<union> set new \<or> x \<in> set (threads s)"
      using x set_update_subset_insert [of "threads s" i th'] by (auto simp: fields)
    then show ?thesis
    proof
      assume "x \<in> set (threads s)"
      then have "thread_inv C L s x" using inv by (simp add: linv_def)
      then show ?thesis
        using ch(1,3) p wt by (cases x) (auto simp: fields intro: less_le_trans)
    qed (rule nt)
  qed
  ultimately show ?thesis unfolding linv_def by blast
qed

section \<open>Every step keeps the invariant\<close>

text \<open>Sizes for which the float64 watermark is exact and no pool can overflow.\<close>

definition sizes_ok :: "int \<Rightarrow> int \<Rightarrow> bool" where
  "sizes_ok C L \<longleftrightarrow> 0 \<le> L \<and> L < 2 ^ 50 \<and> 1 \<le> C \<and> C < 2 ^ 50"

lemma low_mark_bounds: "sizes_ok C L \<Longrightarrow> 0 \<le> low_mark C L" "sizes_ok C L \<Longrightarrow> low_mark C L + L < 2 ^ 62"
  by (auto simp: low_mark_def sizes_ok_def)

lemma watermark_low:
  "sizes_ok C L \<Longrightarrow> 0 \<le> g \<Longrightarrow> g \<le> L \<Longrightarrow> watermark g \<le> low_mark C L + 1"
  unfolding sizes_ok_def using watermark_eq [of g] zdiv_mono1 [of g L 5] by (auto simp: low_mark_def)

lemma call_inv:
  assumes sz: "sizes_ok C L" and inv: "linv C L s" and c: "cost \<le> C" and st: "step_call t cost now s = Inr s'"
  shows "linv C L s'"
proof -
  have s': "s' = spawn (CheckEntry t (norm_cost cost) now) ((snd (get_pool t s))\<lparr>clock := now\<rparr>)"
    using st by (auto simp: step_call_def split: if_splits)
  have f: "threads s' = threads s @ [CheckEntry t (norm_cost cost) now]"
      "closed_chans s' = closed_chans s" "next_chan s' = next_chan s"
      "g_admitted s' = g_admitted s" "g_received s' = g_received s"
      "pools s' = (case pools s t of Some p \<Rightarrow> pools s | None \<Rightarrow> (pools s)(t \<mapsto> zero_pool))"
    by (auto simp: s' spawn_def get_pool_def split: option.splits)
  have fl: "in_flight u s' = in_flight u s" for u by (simp add: in_flight_def f)
  have z: "pool_inv C L s' t zero_pool" if "pools s t = None"
  proof -
    have "in_flight t s = 0 \<and> g_admitted s t = 0 \<and> g_received s t = 0"
      using inv that by (simp add: linv_def)
    then show ?thesis
      using sz low_mark_bounds [OF sz] fl by (simp add: pool_inv_def zero_pool_def f sizes_ok_def)
  qed
  have keep: "pool_inv C L s' u p" if "pools s u = Some p" for u p
    using linv_pool [OF inv that] fl by (simp add: pool_inv_def f)
  have nc: "1 \<le> norm_cost cost" "norm_cost cost \<le> C"
    using c sz by (auto simp: norm_cost_def sizes_ok_def)
  have thr: "thread_inv C L s' x" if "thread_inv C L s x" for x
    using that by (cases x) (auto simp: f split: option.splits)
  have uniq: "\<forall>t u p q ch. pools s' t = Some p \<longrightarrow> pools s' u = Some q \<longrightarrow>
      renewDone p = Some ch \<longrightarrow> renewDone q = Some ch \<longrightarrow> t = u"
  proof (cases "pools s t")
    case None
    have "renewDone zero_pool = None" by (simp add: zero_pool_def)
    then show ?thesis using inv None unfolding linv_def f by (auto split: if_splits)
  next
    case (Some p)
    then show ?thesis using inv unfolding linv_def f by simp
  qed
  show ?thesis
    unfolding linv_def
  proof (intro conjI uniq)
    show "\<forall>t p. pools s' t = Some p \<longrightarrow> pool_inv C L s' t p"
      using z keep by (auto simp: f split: option.splits if_splits)
    show "\<forall>t. pools s' t = None \<longrightarrow> in_flight t s' = 0 \<and> g_admitted s' t = 0 \<and> g_received s' t = 0"
      using inv fl by (auto simp: linv_def f split: option.splits if_splits)
    show "closed_chans s' \<subseteq> {..<next_chan s'}" using inv by (simp add: linv_def f)
    show "\<forall>th\<in>set (threads s'). thread_inv C L s' th"
      using inv thr nc by (auto simp: linv_def f split: option.splits)
  qed
qed

lemma lock_inv:
  assumes sz: "sizes_ok C L" and inv: "linv C L s" and st: "step_lock i s = Inr s'"
  shows "linv C L s'"
proof -
  obtain t c now p out p' where th: "thread_at s i = Some (CheckEntry t c now)"
    and p: "pools s t = Some p" and ck: "check_locked now c (next_chan s) p = (out, p')"
    using st by (auto simp: step_lock_def split: option.splits thread.splits prod.splits)
  have c: "1 \<le> c" "c \<le> C" using linv_thread [OF inv th] by auto
  have i: "i < length (threads s)" "threads s ! i = CheckEntry t c now"
    using th by (auto simp: thread_at_def split: if_splits)
  have pin: "pool_inv C L s t p" by (rule linv_pool [OF inv p])
  note fr = check_locked_frame [OF ck]
  show ?thesis
  proof (cases out)
    case LUnknown
    then have s': "s' = goto i (CheckDone Unknown) (set_pool t p' s)"
      using st th p ck by (simp add: step_lock_def)
    have "p' = p" using check_locked_LUnknown ck LUnknown by auto
    then have "pool_inv C L s' t p'"
      using pin filter_length_update [OF i(1), of "renews t" "CheckDone Unknown"] i(2)
      by (simp add: pool_inv_def s' state_defs in_flight_def)
    then show ?thesis
      by (intro linv_update [OF inv p th, of s' p' "CheckDone Unknown" "[]"])
        (auto simp: s' state_defs \<open>p' = p\<close>)
  next
    case (LDecided a nr w)
    define th' where "th' = (case w of Some ch \<Rightarrow> CheckWaiting t c ch now | None \<Rightarrow> CheckCount t c a)"
    note ck' = ck [unfolded LDecided]
    define s1 where "s1 = goto i th' (if a then admit_tokens t c (set_pool t p' s) else set_pool t p' s)"
    have s': "s' = (if nr then spawn (RenewStart t) (s1\<lparr>next_chan := Suc (next_chan s1)\<rparr>) else s1)"
      using st by (cases w; cases a; cases nr; auto simp: step_lock_def th p ck' Let_def th'_def s1_def)
    have f: "pools s' = (pools s)(t \<mapsto> p')"
        "threads s' = (threads s)[i := th'] @ (if nr then [RenewStart t] else [])"
        "closed_chans s' = closed_chans s"
        "next_chan s' = (if nr then Suc (next_chan s) else next_chan s)"
        "g_received s' = g_received s"
        "g_admitted s' = (g_admitted s)(t := g_admitted s t + (if a then c else 0))"
      unfolding s' s1_def by (cases a; cases nr; simp)+
    have rth': "\<not> renews u th'" for u by (simp add: th'_def split: option.splits)
    have fl: "in_flight t s' = in_flight t s + (if nr then 1 else 0)"
      using filter_length_update [OF i(1), of "renews t" th'] i(2) rth'
      by (simp add: in_flight_def f)
    note rn = check_locked_renew [OF ck']
    have tok: "0 \<le> tokens p'" "tokens p' \<le> tokens p" "tokens p' + (if a then c else 0) \<le> tokens p"
      using check_locked_admitted [of now c "next_chan s" p nr w p']
        check_locked_rejected [of now c "next_chan s" p nr w p'] ck' c pin
      by (cases a; auto simp: pool_inv_def drop_expired_tokens split: if_splits)+
    have low: "tokens p' \<le> low_mark C L" if nr
    proof -
      have "tokens p' < c \<or> lastGrant p = 0 \<or> tokens p' < watermark (lastGrant p)"
        using rn(3) that by blast
      moreover have "C - 1 \<le> low_mark C L" by (simp add: low_mark_def)
      moreover have "watermark (lastGrant p) \<le> low_mark C L + 1"
        using pin by (intro watermark_low [OF sz]) (simp_all add: pool_inv_def)
      moreover have "lastGrant p = 0 \<Longrightarrow> tokens p = 0" using pin by (simp add: pool_inv_def)
      ultimately show ?thesis using c(2) tok(2) low_mark_bounds(1) [OF sz] by linarith
    qed
    have "next_chan s \<notin> closed_chans s" using inv by (auto simp: linv_def)
    then have pi: "pool_inv C L s' t p'"
      using pin tok low rn(1,2) fr fl f unfolding pool_inv_def by (cases nr) (auto simp: f)
    have wt: "d < next_chan s' \<and> renewDone p' = Some d" if "w = Some d" for d
      using check_locked_wait(3) [of now c "next_chan s" p a nr d p'] ck' pi that
      by (auto simp: pool_inv_def)
    show ?thesis
    proof (rule linv_update [OF inv p th f(1,2)])
      show "thread_inv C L s' x" if "x \<in> {th'} \<union> set (if nr then [RenewStart t] else [])" for x
        using that c wt by (auto simp: th'_def f split: option.splits if_splits)
      show "renewDone p' = None \<or> renewDone p' = renewDone p \<or> renewDone p' = Some (next_chan s)"
        using rn by (cases nr) auto
      show "d \<in> closed_chans s' \<or> renewDone p' = Some d" if "renewDone p = Some d" for d
        using that rn pin by (cases nr) (auto simp: pool_inv_def)
    qed (use pi rth' in \<open>auto simp: f\<close>)
  qed
qed

text \<open>A thread moves on and its pool stays as it is.\<close>

lemma move_inv:
  assumes inv: "linv C L s" and th: "thread_at s i = Some th"
    and t: "t \<in> dom (pools s)" and rn: "\<And>u. renews u th' = renews u th" "\<And>u. renews u th \<Longrightarrow> u = t"
    and ti: "thread_inv C L s th'"
    and f: "pools s' = pools s" "threads s' = (threads s)[i := th']"
      "closed_chans s' = closed_chans s" "next_chan s' = next_chan s"
      "g_admitted s' = g_admitted s" "g_received s' = g_received s"
  shows "linv C L s'"
proof -
  obtain p where p: "pools s t = Some p" using t by blast
  have i: "i < length (threads s)" "threads s ! i = th"
    using th by (auto simp: thread_at_def split: if_splits)
  have fl: "in_flight t s' = in_flight t s"
    using filter_length_update [OF i(1), of "renews t" th'] i(2) rn(1)
    by (simp add: in_flight_def f split: if_splits)
  have pi: "pool_inv C L s' t p"
    using linv_pool [OF inv p] fl by (simp add: pool_inv_def f)
  have ti': "thread_inv C L s' th'" using ti by (cases th') (simp_all add: f)
  show ?thesis
  proof (rule linv_update [OF inv p th, of s' p th' "[]"])
    show "\<not> renews u x" if "u \<noteq> t" "x \<in> {th, th'} \<union> set []" for u x
      using that rn by auto
  qed (use pi ti' p f in auto)
qed

lemma relock_inv:
  assumes inv: "linv C L s" and st: "step_relock i s = Inr s'"
  shows "linv C L s'"
proof -
  obtain t c now p out p' where th: "thread_at s i = Some (CheckWoken t c now)"
    and p: "pools s t = Some p" and wk: "wake_locked now c p = (out, p')"
    using st by (auto simp: step_relock_def split: option.splits thread.splits prod.splits)
  have c: "1 \<le> c" using linv_thread [OF inv th] by auto
  have i: "i < length (threads s)" "threads s ! i = CheckWoken t c now"
    using th by (auto simp: thread_at_def split: if_splits)
  have pin: "pool_inv C L s t p" by (rule linv_pool [OF inv p])
  define th' where "th' = (case out of None \<Rightarrow> CheckDone Unknown | Some a \<Rightarrow> CheckCount t c a)"
  define s1 where "s1 = (if out = Some True then admit_tokens t c (set_pool t p' s) else set_pool t p' s)"
  have s': "s' = goto i th' s1"
    using st by (cases out) (auto simp: step_relock_def th p wk Let_def th'_def s1_def)
  have f: "pools s' = (pools s)(t \<mapsto> p')" "threads s' = (threads s)[i := th'] @ []"
      "closed_chans s' = closed_chans s" "next_chan s' = next_chan s" "g_received s' = g_received s"
      "g_admitted s' = (g_admitted s)(t := g_admitted s t + (if out = Some True then c else 0))"
    by (simp_all add: s' s1_def)
  have rth': "\<not> renews u th'" for u by (simp add: th'_def split: option.splits)
  have fl: "in_flight t s' = in_flight t s"
    using filter_length_update [OF i(1), of "renews t" th'] i(2) rth'
    by (simp add: in_flight_def f)
  have pi: "pool_inv C L s' t p'"
    using pin fl wake_locked_frame [OF wk] wake_locked_tokens [OF wk] c
    unfolding pool_inv_def f by (cases "out = Some True") auto
  show ?thesis
    by (rule linv_update [OF inv p th f(1,2)])
      (use pi rth' c f wake_locked_frame(7) [OF wk] in
        \<open>auto simp: th'_def split: option.splits\<close>)
qed

lemma renew_lock_inv:
  assumes sz: "sizes_ok C L" and inv: "linv C L s" and st: "step_renew_lock i s = Inr s'"
  shows "linv C L s'"
proof -
  obtain t res now r p d p' where th: "thread_at s i = Some (RenewReturn t res now r)"
    and p: "pools s t = Some p" and rl: "renew_locked now r res p = (d, p')"
    and cl: "\<not> (\<exists>ch \<in> set_option d. ch \<in> closed_chans s)"
    using st by (auto simp: step_renew_lock_def split: option.splits thread.splits prod.splits if_splits)
  have f: "pools s' = (pools s)(t \<mapsto> p')" "threads s' = (threads s)[i := RenewDone] @ []"
      "closed_chans s' = set_option d \<union> closed_chans s" "next_chan s' = next_chan s"
      "g_admitted s' = g_admitted s"
      "g_received s' = (g_received s)(t := g_received s t + grant_of res)"
    using st th p rl cl by (auto simp: step_renew_lock_def Let_def split: if_splits)
  have ro: "0 \<le> grant_of res" "grant_of res \<le> L"
    using linv_thread [OF inv th] by (auto simp: result_ok_def)
  have i: "i < length (threads s)" "threads s ! i = RenewReturn t res now r"
    using th by (auto simp: thread_at_def split: if_splits)
  have pin: "pool_inv C L s t p" by (rule linv_pool [OF inv p])
  have fl: "in_flight t s' + 1 = in_flight t s"
    using filter_length_update [OF i(1), of "renews t" RenewDone] i(2)
    by (simp add: in_flight_def f)
  then have ren: "renewing p" and fl0: "in_flight t s' = 0"
    using pin by (auto simp: pool_inv_def split: if_splits)
  note fl' = renew_locked_flags [OF rl]
  have low: "tokens p \<le> low_mark C L" using ren pin by (simp add: pool_inv_def)
  have tok: "0 \<le> tokens p'" "tokens p' \<le> tokens p + grant_of res" "0 \<le> lastGrant p'"
      "lastGrant p' \<le> L" "lastGrant p' = 0 \<longrightarrow> tokens p' = 0"
  proof -
    consider g where "res = Inr g" "g_Tokens g \<noteq> 0" | "\<And>g. res = Inr g \<Longrightarrow> g_Tokens g = 0"
      by (cases res) auto
    then have "0 \<le> tokens p' \<and> tokens p' \<le> tokens p + grant_of res \<and> 0 \<le> lastGrant p' \<and>
        lastGrant p' \<le> L \<and> (lastGrant p' = 0 \<longrightarrow> tokens p' = 0)"
    proof cases
      case (1 g)
      have "in_i64 (tokens p + g_Tokens g)"
        using low ro low_mark_bounds [OF sz] pin 1 by (intro in_i64_nonneg) (auto simp: pool_inv_def grant_of_def)
      then show ?thesis
        using renew_locked_grant [OF rl [unfolded 1(1)] 1(2)] 1 ro pin
        by (auto simp: i64_id grant_of_def pool_inv_def)
    next
      case 2
      then show ?thesis
        using renew_locked_no_grant [OF rl 2] ro pin by (auto simp: pool_inv_def)
    qed
    then show "0 \<le> tokens p'" "tokens p' \<le> tokens p + grant_of res" "0 \<le> lastGrant p'"
      "lastGrant p' \<le> L" "lastGrant p' = 0 \<longrightarrow> tokens p' = 0" by auto
  qed
  have pi: "pool_inv C L s' t p'"
    using pin tok low ro fl0 fl' unfolding pool_inv_def f by auto
  show ?thesis
    by (rule linv_update [OF inv p th f(1,2)]) (use pi fl' f in auto)
qed

text \<open>No channel is closed twice.\<close>

lemma no_panic:
  assumes "linv C L s"
  shows "lstep e s \<noteq> Inl Panic"
proof (cases e)
  case (RenewLock i)
  have "\<not> (\<exists>ch \<in> set_option (renewDone p). ch \<in> closed_chans s)" if "pools s t = Some p" for t p
    using linv_pool [OF assms that] by (auto simp: pool_inv_def)
  then show ?thesis
    using RenewLock renew_locked_flags(1)
    by (auto simp: step_renew_lock_def Let_def split: option.splits thread.splits prod.splits)
qed (auto simp: step_defs Let_def split: option.splits thread.splits prod.splits locked.splits)

section \<open>The contract with the leaser\<close>

text \<open>
  \<open>Leaser\<close> is the interface the limiter is built on. What it relies on: a grant is between
  zero and the lease size. Everything below holds for any leaser that keeps this contract.
\<close>

locale lease_contract =
  fixes leaser :: "string \<Rightarrow> lease_result \<Rightarrow> bool"
    and L :: int
  assumes grant_bounds: "leaser t res \<Longrightarrow> result_ok L res"
begin

lemma step_inv:
  assumes sz: "sizes_ok C L" and inv: "linv C L s" and ev: "event_ok leaser C s e" and st: "lstep e s = Inr s'"
  shows "linv C L s'"
proof (cases e)
  case (Call t cost now)
  then show ?thesis using call_inv [OF sz inv] ev st by (simp add: event_ok_def)
next
  case (Lock i)
  then show ?thesis using lock_inv [OF sz inv] st by simp
next
  case (Wake i now)
  then obtain t c ch since where th: "thread_at s i = Some (CheckWaiting t c ch since)"
    and s': "s' = goto i (CheckWoken t c now) (s\<lparr>clock := now\<rparr>)"
    using st by (auto simp: step_wake_def split: option.splits thread.splits if_splits)
  show ?thesis
    by (rule move_inv [OF inv th, of t "CheckWoken t c now"])
      (use linv_thread [OF inv th] in \<open>auto simp: s'\<close>)
next
  case (Timeout i now)
  then obtain t c ch since where th: "thread_at s i = Some (CheckWaiting t c ch since)"
    and s': "s' = goto i (CheckCount t c False) (s\<lparr>clock := now\<rparr>)"
    using st by (auto simp: step_timeout_def split: option.splits thread.splits if_splits)
  show ?thesis
    by (rule move_inv [OF inv th, of t "CheckCount t c False"])
      (use linv_thread [OF inv th] in \<open>auto simp: s'\<close>)
next
  case (Relock i)
  then show ?thesis using relock_inv [OF inv] st by simp
next
  case (Count i)
  then obtain t c a where th: "thread_at s i = Some (CheckCount t c a)"
    and s': "s' = goto i (CheckDone (if a then Admit else Reject))
      (update_counters t (if a then count_admit c else count_reject) s)"
    using st by (auto simp: step_count_def split: option.splits thread.splits)
  show ?thesis
    by (rule move_inv [OF inv th, of t "CheckDone (if a then Admit else Reject)"])
      (use linv_thread [OF inv th] in \<open>auto simp: s'\<close>)
next
  case (LeaseStart i)
  then obtain t where th: "thread_at s i = Some (RenewStart t)"
    and s': "s' = goto i (RenewCall t) (update_counters t count_lease_call s)"
    using st by (auto simp: step_lease_start_def split: option.splits thread.splits)
  show ?thesis
    by (rule move_inv [OF inv th, of t "RenewCall t"])
      (use linv_thread [OF inv th] in \<open>auto simp: s'\<close>)
next
  case (LeaseReturn i res now r)
  then obtain t where th: "thread_at s i = Some (RenewCall t)"
    and s': "s' = goto i (RenewReturn t res now r) (s\<lparr>clock := now\<rparr>)"
    using st by (auto simp: step_lease_return_def split: option.splits thread.splits if_splits)
  have "result_ok L res" using ev th LeaseReturn grant_bounds by (simp add: event_ok_def)
  then show ?thesis
    by (intro move_inv [OF inv th, of t "RenewReturn t res now r"])
      (use linv_thread [OF inv th] in \<open>auto simp: s'\<close>)
next
  case (RenewLock i)
  then show ?thesis using renew_lock_inv [OF sz inv] st by simp
qed

lemma reach_inv: "lreach leaser C s \<Longrightarrow> sizes_ok C L \<Longrightarrow> linv C L s"
  by (induction rule: lreach.induct) (auto intro: linv_init step_inv)

lemma reach_pool:
  assumes "lreach leaser C s" and "sizes_ok C L" and "pools s t = Some p"
  shows "pool_inv C L s t p"
  using linv_pool [OF reach_inv [OF assms(1,2)] assms(3)] .

lemma reach_no_panic: "lreach leaser C s \<Longrightarrow> sizes_ok C L \<Longrightarrow> lstep e s \<noteq> Inl Panic"
  using no_panic reach_inv by blast

text \<open>What was admitted never exceeds what was leased.\<close>

lemma reach_conservation:
  assumes "lreach leaser C s" and "sizes_ok C L"
  shows "g_admitted s t \<le> g_received s t"
proof (cases "pools s t")
  case None
  then show ?thesis using reach_inv [OF assms] by (simp add: linv_def)
next
  case (Some p)
  then show ?thesis using reach_pool [OF assms Some] by (simp add: pool_inv_def)
qed

text \<open>No wake-up is lost: a request that waits has its channel closed, or the renewal that will
  close it is still running.\<close>

lemma reach_waiting:
  assumes r: "lreach leaser C s" and sz: "sizes_ok C L"
    and th: "thread_at s i = Some (CheckWaiting t c ch since)"
  shows "ch \<in> closed_chans s \<or> in_flight t s = 1"
proof -
  obtain p where p: "pools s t = Some p" and d: "ch \<in> closed_chans s \<or> renewDone p = Some ch"
    using linv_thread [OF reach_inv [OF r sz] th] by auto
  show ?thesis using d reach_pool [OF r sz p] by (auto simp: pool_inv_def)
qed

end

end
