(* ===== verification/Limiter_Progress.thy ===== *)
theory Limiter_Progress
  imports Limiter_Steps
begin

text \<open>
  Two more facts on the runs of a limiter: a check can always be completed by steps of its own
  thread, whatever the other threads and the coordinator do (\<open>check_finishes\<close>), and the counter
  of admitted tokens is what was admitted less what is still to be counted (\<open>count_inv_reach\<close>).
\<close>

section \<open>A check always returns\<close>

fun is_check :: "thread \<Rightarrow> bool" where
  "is_check (CheckEntry t c now) = True"
| "is_check (CheckWaiting t c ch since) = True"
| "is_check (CheckWoken t c now) = True"
| "is_check (CheckCount t c a) = True"
| "is_check (CheckDone d) = True"
| "is_check _ = False"

text \<open>Some sequence of at most \<open>n\<close> steps, all of them of thread \<open>i\<close>, ends its check.\<close>

fun moves :: "nat \<Rightarrow> event \<Rightarrow> bool" where
  "moves i (Lock j) = (j = i)"
| "moves i (Wake j now) = (j = i)"
| "moves i (Timeout j now) = (j = i)"
| "moves i (Relock j) = (j = i)"
| "moves i (Count j) = (j = i)"
| "moves i _ = False"

definition finishes :: "nat \<Rightarrow> nat \<Rightarrow> lstate \<Rightarrow> bool" where
  "finishes n i s \<longleftrightarrow>
     (\<exists>evs s' d. length evs \<le> n \<and> list_all (moves i) evs \<and> lrun evs s = Inr s' \<and>
        thread_at s' i = Some (CheckDone d))"

lemma finishes_done: "thread_at s i = Some (CheckDone d) \<Longrightarrow> finishes n i s"
  unfolding finishes_def by (rule exI [of _ "[]"]) simp

lemma finishes_step:
  assumes "lstep e s = Inr s'" and "moves i e" and "finishes n i s'"
  shows "finishes (Suc n) i s"
proof -
  obtain evs s'' d where "length evs \<le> n" "list_all (moves i) evs" "lrun evs s' = Inr s''"
      "thread_at s'' i = Some (CheckDone d)"
    using assms(3) unfolding finishes_def by blast
  then show ?thesis
    unfolding finishes_def using assms(1,2) by (intro exI [of _ "e # evs"] exI [of _ s''] exI [of _ d]) simp
qed

lemma finishes_mono: "finishes m i s \<Longrightarrow> m \<le> n \<Longrightarrow> finishes n i s"
  unfolding finishes_def by (meson le_trans)

lemma thread_at_length: "thread_at s i = Some th \<Longrightarrow> i < length (threads s)"
  by (simp add: thread_at_def split: if_splits)

lemma thread_at_goto [simp]: "i < length (threads s) \<Longrightarrow> thread_at (goto i th s) i = Some th"
  by (simp add: thread_at_def)

lemma thread_at_spawn [simp]: "i < length (threads s) \<Longrightarrow> thread_at (spawn th s) i = thread_at s i"
  by (simp add: thread_at_def nth_append)

lemma thread_at_next_chan [simp]: "thread_at (s\<lparr>next_chan := n\<rparr>) i = thread_at s i"
  by (simp add: thread_at_def)

lemma finishes_count:
  assumes "thread_at s i = Some (CheckCount t c a)"
  shows "finishes 1 i s"
proof -
  let ?s = "goto i (CheckDone (if a then Admit else Reject))
    (update_counters t (if a then count_admit c else count_reject) s)"
  have "lstep (Count i) s = Inr ?s" using assms by (simp add: step_count_def)
  moreover have "finishes 0 i ?s"
    by (rule finishes_done) (use thread_at_length [OF assms] in simp)
  ultimately show ?thesis using finishes_step [of "Count i" s ?s i 0] by simp
qed

lemma finishes_waiting:
  assumes "thread_at s i = Some (CheckWaiting t c ch since)"
  shows "finishes 2 i s"
proof -
  let ?now = "max (clock s) (since + waitForLease)"
  let ?s = "goto i (CheckCount t c False) (s\<lparr>clock := ?now\<rparr>)"
  have "lstep (Timeout i ?now) s = Inr ?s" using assms by (simp add: step_timeout_def time_add_def)
  moreover have "finishes 1 i ?s"
    by (rule finishes_count [of _ _ t c False]) (use thread_at_length [OF assms] in simp)
  ultimately show ?thesis using finishes_step [of "Timeout i ?now" s ?s i 1] by (simp add: numeral_2_eq_2)
qed

lemma finishes_woken:
  assumes "linv C L s" and th: "thread_at s i = Some (CheckWoken t c now)"
  shows "finishes 2 i s"
proof -
  obtain p where p: "pools s t = Some p" using linv_thread [OF assms] by auto
  obtain out p' where w: "wake_locked now c p = (out, p')" by fastforce
  have len: "i < length (threads s)" using th by (simp add: thread_at_def split: if_splits)
  obtain s' where s': "lstep (Relock i) s = Inr s'"
    and t': "thread_at s' i = Some (case out of None \<Rightarrow> CheckDone Unknown | Some a \<Rightarrow> CheckCount t c a)"
    using len by (cases out) (auto simp: step_relock_def th p w Let_def)
  have "finishes 1 i s'"
    using t' finishes_done finishes_count by (cases out) auto
  then show ?thesis using finishes_step [OF s', of i 1] by (simp add: numeral_2_eq_2)
qed

lemma finishes_entry:
  assumes "linv C L s" and th: "thread_at s i = Some (CheckEntry t c now)"
  shows "finishes 3 i s"
proof -
  obtain p where p: "pools s t = Some p" using linv_thread [OF assms] by auto
  obtain out p' where k: "check_locked now c (next_chan s) p = (out, p')" by fastforce
  have len: "i < length (threads s)" using th by (simp add: thread_at_def split: if_splits)
  obtain s' th' where s': "lstep (Lock i) s = Inr s'" and t': "thread_at s' i = Some th'"
    and c: "(\<exists>d. th' = CheckDone d) \<or> (\<exists>a. th' = CheckCount t c a) \<or> (\<exists>ch. th' = CheckWaiting t c ch now)"
  proof (cases out)
    case LUnknown
    then show thesis
      using that [of "goto i (CheckDone Unknown) (set_pool t p' s)" "CheckDone Unknown"] len
      by (simp add: step_lock_def th p k)
  next
    case (LDecided a nr w)
    let ?th = "case w of Some ch \<Rightarrow> CheckWaiting t c ch now | None \<Rightarrow> CheckCount t c a"
    obtain s' where "lstep (Lock i) s = Inr s'" "thread_at s' i = Some ?th"
      using len by (auto simp: step_lock_def th p k LDecided Let_def)
    then show thesis by (rule that) (auto split: option.splits)
  qed
  have "finishes 2 i s'"
    using c t' finishes_done finishes_count finishes_waiting finishes_mono [of 1 i s' 2] by auto
  then show ?thesis using finishes_step [OF s', of i 2] by (simp add: numeral_3_eq_3)
qed

lemma check_finishes:
  assumes "linv C L s" and "thread_at s i = Some th" and "is_check th"
  shows "finishes 3 i s"
proof -
  consider d where "th = CheckDone d" | t c a where "th = CheckCount t c a"
    | t c ch since where "th = CheckWaiting t c ch since" | t c now where "th = CheckWoken t c now"
    | t c now where "th = CheckEntry t c now"
    using assms(3) by (cases th) auto
  then show ?thesis
    using assms(2) finishes_done [of s i] finishes_mono [of 1 i s 3] finishes_mono [of 2 i s 3]
      finishes_count [of s i] finishes_waiting [of s i] finishes_woken [OF assms(1), of i]
      finishes_entry [OF assms(1), of i]
    by cases auto
qed

section \<open>The counters\<close>

fun pending_cost :: "string \<Rightarrow> thread \<Rightarrow> int" where
  "pending_cost t (CheckCount u c a) = (if u = t \<and> a then c else 0)"
| "pending_cost t _ = 0"

text \<open>Tokens of requests that were admitted and not counted yet.\<close>

definition pending :: "string \<Rightarrow> lstate \<Rightarrow> int" where
  "pending t s = sum_list (map (pending_cost t) (threads s))"

definition admitted_count :: "string \<Rightarrow> lstate \<Rightarrow> int" where
  "admitted_count t s = (case counts s t of None \<Rightarrow> 0 | Some c \<Rightarrow> AdmittedTokens c)"

definition count_inv :: "lstate \<Rightarrow> bool" where
  "count_inv s \<longleftrightarrow> (\<forall>t. admitted_count t s = i64 (g_admitted s t - pending t s))"

lemma admitted_count_simps [simp]:
  "admitted_count t (goto i th s) = admitted_count t s"
  "admitted_count t (spawn th s) = admitted_count t s"
  "admitted_count t (set_pool u p s) = admitted_count t s"
  "admitted_count t (admit_tokens u c s) = admitted_count t s"
  "admitted_count t (s\<lparr>clock := now\<rparr>) = admitted_count t s"
  "admitted_count t (s\<lparr>pools := m\<rparr>) = admitted_count t s"
  "admitted_count t (s\<lparr>next_chan := n\<rparr>) = admitted_count t s"
  "admitted_count t (s\<lparr>closed_chans := cs, g_received := g\<rparr>) = admitted_count t s"
  by (simp_all add: admitted_count_def)

lemma admitted_count_update:
  "admitted_count t (update_counters u f s) =
    (if u = t then AdmittedTokens (f (case counts s u of None \<Rightarrow> zero_counters | Some c \<Rightarrow> c)) else admitted_count t s)"
  by (simp add: admitted_count_def update_counters_def get_counters_def split: option.splits)

lemma admitted_count_lease [simp]:
  "admitted_count t (update_counters u count_lease_call s) = admitted_count t s"
  "admitted_count t (update_counters u count_lease_err s) = admitted_count t s"
  unfolding admitted_count_update
  by (auto simp: count_lease_call_def count_lease_err_def admitted_count_def zero_counters_def
      split: option.splits)

lemma pending_goto:
  "thread_at s i = Some th \<Longrightarrow> threads s' = threads s \<Longrightarrow>
    pending t (goto i th' s') = pending t s - pending_cost t th + pending_cost t th'"
  by (auto simp: pending_def thread_at_def sum_list_map_update split: if_splits)

lemma pending_spawn [simp]: "pending t (spawn th s) = pending t s + pending_cost t th"
  by (simp add: pending_def)

lemma pending_upd [simp]: "pending t (s\<lparr>pools := m\<rparr>) = pending t s"
  "pending t (s\<lparr>next_chan := n\<rparr>) = pending t s" "pending t (s\<lparr>clock := now\<rparr>) = pending t s"
  by (simp_all add: pending_def)

lemma i64_0: "i64 0 = 0"
  by (simp add: i64_def)

lemma count_inv_init: "count_inv (linit now)"
  by (simp add: count_inv_def linit_def admitted_count_def pending_def NewLimiter_def i64_0)

lemma check_locked_no_wait: "check_locked now c ch p = (LDecided True nr w, p') \<Longrightarrow> w = None"
  by (auto simp: check_locked_def Let_def split: if_splits)

lemma count_inv_lock:
  assumes "count_inv s" and st: "step_lock i s = Inr s'"
  shows "count_inv s'"
proof -
  obtain t c now p out p' where th: "thread_at s i = Some (CheckEntry t c now)"
    and p: "pools s t = Some p" and ck: "check_locked now c (next_chan s) p = (out, p')"
    using st by (auto simp: step_lock_def split: option.splits thread.splits prod.splits)
  show ?thesis
  proof (cases out)
    case LUnknown
    then show ?thesis
      using assms(1) st ck p by (auto simp: step_lock_def th count_inv_def pending_goto [OF th])
  next
    case (LDecided a nr w)
    then show ?thesis
      using assms(1) st ck p check_locked_no_wait [of now c "next_chan s" p nr w p']
      by (cases a; cases nr; cases w)
        (auto simp: step_lock_def th Let_def count_inv_def pending_goto [OF th] algebra_simps)
  qed
qed

lemma count_inv_step:
  assumes inv: "count_inv s" and st: "lstep e s = Inr s'"
  shows "count_inv s'"
proof (cases e)
  case (Lock i)
  then show ?thesis using count_inv_lock [OF inv] st by simp
next
  case (Count i)
  then obtain t c a where th: "thread_at s i = Some (CheckCount t c a)"
    and s': "s' = goto i (CheckDone (if a then Admit else Reject))
      (update_counters t (if a then count_admit c else count_reject) s)"
    using st by (auto simp: step_count_def split: option.splits thread.splits)
  have "admitted_count t s = AdmittedTokens (case counts s t of None \<Rightarrow> zero_counters | Some c \<Rightarrow> c)"
    by (simp add: admitted_count_def zero_counters_def split: option.splits)
  then have "AdmittedTokens (case counts s t of None \<Rightarrow> zero_counters | Some c \<Rightarrow> c) =
      i64 (g_admitted s t - pending t s)"
    using inv by (simp add: count_inv_def)
  then show ?thesis
    using inv
    by (auto simp: count_inv_def s' pending_goto [OF th] admitted_count_update count_admit_def
        count_reject_def i64_add_left)
      (simp add: algebra_simps)?
qed (use inv st in \<open>auto simp: step_defs count_inv_def pending_goto Let_def get_pool_def
    split: option.splits thread.splits if_splits prod.splits\<close>)

lemma count_inv_reach: "lreach leaser C s \<Longrightarrow> count_inv s"
  by (induction rule: lreach.induct) (auto intro: count_inv_init count_inv_step)

section \<open>Runs\<close>

text \<open>An event that needs nothing of the leaser; requests cost at most \<open>C\<close>.\<close>

fun local_event :: "int \<Rightarrow> event \<Rightarrow> bool" where
  "local_event C (Call t cost now) = (cost \<le> C)"
| "local_event C (LeaseReturn i res now r) = False"
| "local_event C _ = True"

text \<open>The environment keeps its side along a run.\<close>

fun run_ok :: "(string \<Rightarrow> lease_result \<Rightarrow> bool) \<Rightarrow> int \<Rightarrow> event list \<Rightarrow> lstate \<Rightarrow> bool" where
  "run_ok leaser C [] s \<longleftrightarrow> True"
| "run_ok leaser C (e # es) s \<longleftrightarrow>
     event_ok leaser C s e \<and> (case lstep e s of Inl b \<Rightarrow> True | Inr s' \<Rightarrow> run_ok leaser C es s')"

lemma lreach_lrun:
  "lreach leaser C s \<Longrightarrow> lrun evs s = Inr s' \<Longrightarrow> run_ok leaser C evs s \<Longrightarrow> lreach leaser C s'"
  by (induction evs arbitrary: s) (auto split: sum.splits intro: lreach.step)

text \<open>The definitions a concrete run is evaluated with.\<close>

lemmas limiter_exec = step_defs linit_def NewLimiter_def get_pool_def zero_pool_def norm_cost_def
  goto_def spawn_def set_pool_def admit_tokens_def thread_at_def check_locked_def wake_locked_def
  drop_expired_def shouldRenewLocked_def is_zero_def zero_time_def update_counters_def
  get_counters_def count_lease_call_def zero_counters_def renew_locked_def renew_result_def
  time_add_def Let_def grant_of_def is_lease_err_def

end
