(* ===== verification/Token_Source.thy ===== *)
theory Token_Source
  imports GoTime
begin

text \<open>
  The contract between a supplier of tokens and its clients: a debit returns at most what was
  asked for, and what it returns is paid for by the level of the source, which rises with time
  at a bounded rate. The token bucket, and the tenant state the coordinator keeps around it, are
  suppliers; the guarantee over a whole sequence of debits is proved here once.
\<close>

fun take_run :: "(int \<Rightarrow> time \<Rightarrow> 's \<Rightarrow> int \<times> 's) \<Rightarrow> 's \<Rightarrow> (int \<times> time) list \<Rightarrow> int list \<times> 's" where
  "take_run tk s [] = ([], s)"
| "take_run tk s ((n, now) # rs) =
     (let (g, s') = tk n now s; (gs, s'') = take_run tk s' rs in (g # gs, s''))"

locale token_source =
  fixes tk :: "int \<Rightarrow> time \<Rightarrow> 's \<Rightarrow> int \<times> 's"
    and ok :: "'s \<Rightarrow> bool"
    and level :: "'s \<Rightarrow> rat"
    and stamp :: "'s \<Rightarrow> time"
    and speed :: "'s \<Rightarrow> rat"
    and slack :: "'s \<Rightarrow> rat"
  assumes tk_ok: "ok s \<Longrightarrow> 0 \<le> n \<Longrightarrow> tk n now s = (g, s') \<Longrightarrow> ok s'"
    and tk_bounds: "ok s \<Longrightarrow> 0 \<le> n \<Longrightarrow> tk n now s = (g, s') \<Longrightarrow> 0 \<le> g \<and> g \<le> n"
    and tk_stamp: "ok s \<Longrightarrow> tk n now s = (g, s') \<Longrightarrow> stamp s' = max (stamp s) now"
    and tk_params: "ok s \<Longrightarrow> tk n now s = (g, s') \<Longrightarrow> speed s' = speed s \<and> slack s' = slack s"
    and tk_level: "ok s \<Longrightarrow> 0 \<le> n \<Longrightarrow> tk n now s = (g, s') \<Longrightarrow>
      level s' + of_int g \<le> level s + speed s * secs (stamp s' - stamp s) + slack s"
    and level_nonneg: "ok s \<Longrightarrow> 0 \<le> level s"
begin

lemma run_ok:
  "ok s \<Longrightarrow> \<forall>(n, now) \<in> set rs. 0 \<le> n \<Longrightarrow> take_run tk s rs = (gs, s') \<Longrightarrow>
    ok s' \<and> speed s' = speed s \<and> slack s' = slack s \<and>
    stamp s' = foldl (\<lambda>m (n, now). max m now) (stamp s) rs"
proof (induction rs arbitrary: s gs)
  case Nil
  then show ?case by simp
next
  case (Cons r rs)
  obtain n now where r: "r = (n, now)" by fastforce
  obtain g t where t: "tk n now s = (g, t)" by fastforce
  obtain hs where hs: "take_run tk t rs = (hs, s')"
    using Cons.prems(3) by (auto simp: r t split: prod.splits)
  have "0 \<le> n" using Cons.prems(2) by (auto simp: r)
  then show ?case
    using Cons.IH [OF tk_ok [OF Cons.prems(1) _ t] _ hs] Cons.prems
      tk_params [OF Cons.prems(1) t] tk_stamp [OF Cons.prems(1) t]
    by (auto simp: r)
qed

lemma run_level:
  "ok s \<Longrightarrow> \<forall>(n, now) \<in> set rs. 0 \<le> n \<Longrightarrow> take_run tk s rs = (gs, s') \<Longrightarrow>
    level s' + of_int (sum_list gs) \<le>
      level s + speed s * secs (stamp s' - stamp s) + of_nat (length rs) * slack s"
proof (induction rs arbitrary: s gs)
  case Nil
  then show ?case by (simp add: secs_def)
next
  case (Cons r rs)
  obtain n now where r: "r = (n, now)" by fastforce
  obtain g t where t: "tk n now s = (g, t)" by fastforce
  obtain hs where hs: "take_run tk t rs = (hs, s')" and gs: "gs = g # hs"
    using Cons.prems(3) by (auto simp: r t split: prod.splits)
  have n: "0 \<le> n" using Cons.prems(2) by (auto simp: r)
  have ih: "level s' + of_int (sum_list hs) \<le>
      level t + speed t * secs (stamp s' - stamp t) + of_nat (length rs) * slack t"
    using Cons.IH [OF tk_ok [OF Cons.prems(1) n t] _ hs] Cons.prems(2) by simp
  have "secs (stamp s' - stamp s) = secs (stamp s' - stamp t) + secs (stamp t - stamp s)"
    by (simp flip: secs_add)
  then show ?case
    using ih tk_level [OF Cons.prems(1) n t] tk_params [OF Cons.prems(1) t]
    by (simp add: gs algebra_simps)
qed

lemma run_total:
  assumes "ok s" and "\<forall>(n, now) \<in> set rs. 0 \<le> n" and "take_run tk s rs = (gs, s')"
  shows "of_int (sum_list gs) \<le>
      level s + speed s * secs (stamp s' - stamp s) + of_nat (length rs) * slack s"
proof -
  have "ok s'" using run_ok [OF assms] by blast
  then show ?thesis using level_nonneg [of s'] run_level [OF assms] by linarith
qed

end

end
