(* ===== verification/Bucket.thy ===== *)
theory Bucket
  imports Token_Source
begin

text \<open>
  Package \<open>internal/bucket\<close>: a token bucket of capacity \<open>cap\<close>, refilled
  continuously at a fixed rate. The mutex makes every method one atomic step, so a method is a
  function from the bucket to its result and the bucket afterwards.

  The lemmas show the type invariant (the level is a float64 between zero and the capacity),
  what one debit returns and takes, and, through the contract of a token source, the
  guarantee over a window.
\<close>

section \<open>Definitions\<close>

record Bucket =
  b_rate :: float64
  b_cap :: float64
  b_tokens :: float64
  b_last :: time

definition Bucket_New :: "float64 \<Rightarrow> float64 \<Rightarrow> time \<Rightarrow> Bucket" where
  "Bucket_New rate capacity now =
     \<lparr>b_rate = rate, b_cap = capacity, b_tokens = capacity, b_last = now\<rparr>"

definition refillLocked :: "time \<Rightarrow> Bucket \<Rightarrow> Bucket" where
  "refillLocked now b =
     (if b_last b < now
      then b\<lparr>b_tokens := min (b_cap b)
                 (fadd (b_tokens b) (fmul (Seconds (time_sub now (b_last b))) (b_rate b))),
             b_last := now\<rparr>
      else b)"

definition TakeUpTo :: "int \<Rightarrow> time \<Rightarrow> Bucket \<Rightarrow> int \<times> Bucket" where
  "TakeUpTo n now b =
     (let b = refillLocked now b; take = int_of_float (b_tokens b) in
      if take \<le> 0 then (0, b)
      else let take = (if n < take then n else take) in
        (take, b\<lparr>b_tokens := fsub (b_tokens b) (float_of_int take)\<rparr>))"

text \<open>A rate of zero divides by zero; the quotient is then the positive infinity of the format,
  which no integer represents.\<close>

definition NextTokenIn :: "time \<Rightarrow> Bucket \<Rightarrow> duration \<times> Bucket" where
  "NextTokenIn now b =
     (let b = refillLocked now b in
      if 1 \<le> b_tokens b then (0, b)
      else if b_rate b = 0 then (min_i64, b)
      else (int_of_float (fmul (fdiv (fsub 1 (b_tokens b)) (b_rate b)) (float_of_int Second)), b))"

section \<open>Type invariant\<close>

definition bucket_ok :: "Bucket \<Rightarrow> bool" where
  "bucket_ok b \<longleftrightarrow>
     0 < b_rate b \<and> is_float64 (b_rate b) \<and>
     is_float64 (b_cap b) \<and> b_cap b \<le> 2 ^ 53 \<and>
     is_float64 (b_tokens b) \<and> 0 \<le> b_tokens b \<and> b_tokens b \<le> b_cap b"

lemma bucket_ok_New [wf_intros]:
  "0 < r \<Longrightarrow> is_float64 r \<Longrightarrow> 0 \<le> c \<Longrightarrow> c \<le> 2 ^ 53 \<Longrightarrow> is_float64 c \<Longrightarrow>
    bucket_ok (Bucket_New r c now)"
  by (simp add: bucket_ok_def Bucket_New_def)

lemma refillLocked_fields [simp]:
  "b_rate (refillLocked now b) = b_rate b"
  "b_cap (refillLocked now b) = b_cap b"
  "b_last (refillLocked now b) = max (b_last b) now"
  by (simp_all add: refillLocked_def)

lemma refill_increment_nonneg:
  "bucket_ok b \<Longrightarrow> b_last b \<le> now \<Longrightarrow>
    0 \<le> fmul (Seconds (time_sub now (b_last b))) (b_rate b)"
  by (rule increment_bounds) (auto simp: bucket_ok_def time_sub_nonneg)

lemma bucket_ok_refill [wf_intros]: "bucket_ok b \<Longrightarrow> bucket_ok (refillLocked now b)"
proof (cases "b_last b < now")
  case True
  assume b: "bucket_ok b"
  have "0 \<le> fadd (b_tokens b) (fmul (Seconds (time_sub now (b_last b))) (b_rate b))"
    using refill_increment_nonneg [OF b, of now] True b
    by (auto simp: fadd_def bucket_ok_def intro!: rnd_nonneg)
  then show ?thesis
    using b True by (auto simp: bucket_ok_def refillLocked_def fadd_def min_def)
qed (simp add: refillLocked_def)

lemma refill_tokens_mono: "bucket_ok b \<Longrightarrow> b_tokens b \<le> b_tokens (refillLocked now b)"
proof (cases "b_last b < now")
  case True
  assume b: "bucket_ok b"
  have "b_tokens b \<le> fadd (b_tokens b) (fmul (Seconds (time_sub now (b_last b))) (b_rate b))"
    unfolding fadd_def using refill_increment_nonneg [OF b, of now] True b
    by (intro rnd_ge) (auto simp: bucket_ok_def)
  then show ?thesis using b True by (simp add: refillLocked_def bucket_ok_def)
qed (simp add: refillLocked_def)

section \<open>One debit\<close>

text \<open>The conversion to an integer is in range, and the subtraction is exact.\<close>

lemma TakeUpTo_eq:
  fixes now :: time
  assumes "bucket_ok b" and "0 \<le> n"
  defines "t \<equiv> b_tokens (refillLocked now b)"
  shows "TakeUpTo n now b =
    (min n \<lfloor>t\<rfloor>, (refillLocked now b)\<lparr>b_tokens := t - of_int (min n \<lfloor>t\<rfloor>)\<rparr>)"
proof -
  have ok: "bucket_ok (refillLocked now b)" using assms(1) by (rule bucket_ok_refill)
  then have t: "0 \<le> t" "t \<le> 2 ^ 53" "is_float64 t" by (auto simp: bucket_ok_def t_def)
  have f: "int_of_float t = \<lfloor>t\<rfloor>" using t by (simp add: int_of_float_floor)
  let ?g = "min n \<lfloor>t\<rfloor>"
  have g0: "0 \<le> ?g" using t assms(2) by simp
  have gt: "of_int ?g \<le> t" by linarith
  have "(of_int ?g :: rat) \<le> of_int (2 ^ 53)" using gt t(2) by simp
  then have "\<bar>?g\<bar> \<le> 2 ^ 53" using g0 by (simp only: of_int_le_iff abs_of_nonneg)
  then have fi: "float_of_int ?g = of_int ?g" by (rule float_of_int_exact)
  have sub: "fsub t (of_int ?g) = t - of_int ?g"
    unfolding fsub_def by (rule rnd_id [OF is_float64_diff_int [OF t(3) g0 gt t(2)]])
  show ?thesis
  proof (cases "\<lfloor>t\<rfloor> \<le> 0")
    case True
    then have "\<lfloor>t\<rfloor> = 0" using t(1) by (metis antisym zero_le_floor)
    then show ?thesis using assms(2) f by (simp add: TakeUpTo_def t_def [symmetric] Let_def)
  next
    case False
    then show ?thesis
      using f fi sub
      by (simp add: TakeUpTo_def t_def [symmetric] Let_def min_def not_less split: if_splits)
  qed
qed

lemma bucket_ok_TakeUpTo [wf_intros]:
  assumes "bucket_ok b" and "0 \<le> n" and "TakeUpTo n now b = (g, b')"
  shows "bucket_ok b'"
proof -
  let ?t = "b_tokens (refillLocked now b)"
  have ok: "bucket_ok (refillLocked now b)" using assms(1) by (rule bucket_ok_refill)
  have g: "g = min n \<lfloor>?t\<rfloor>" and b': "b' = (refillLocked now b)\<lparr>b_tokens := ?t - of_int g\<rparr>"
    using assms(3) by (auto simp: TakeUpTo_eq [OF assms(1,2)])
  have g0: "0 \<le> g" and gt: "of_int g \<le> ?t"
    using ok assms(2) unfolding g bucket_ok_def by (simp, linarith)
  have "is_float64 (?t - of_int g)"
    using ok by (intro is_float64_diff_int [OF _ g0 gt]) (auto simp: bucket_ok_def)
  moreover have "(0::rat) \<le> of_int g" using g0 by simp
  ultimately show ?thesis
    using ok gt unfolding b' bucket_ok_def by auto
qed

lemma TakeUpTo_bounds:
  assumes "bucket_ok b" and "0 \<le> n" and "TakeUpTo n now b = (g, b')"
  shows "0 \<le> g" and "g \<le> n"
proof -
  have "bucket_ok (refillLocked now b)" using assms(1) by (rule bucket_ok_refill)
  then show "0 \<le> g" and "g \<le> n"
    using assms(2,3) by (auto simp: TakeUpTo_eq [OF assms(1,2)] bucket_ok_def)
qed

lemma TakeUpTo_fields:
  assumes "TakeUpTo n now b = (g, b')"
  shows "b_rate b' = b_rate b" and "b_cap b' = b_cap b" and "b_last b' = max (b_last b) now"
  using assms by (auto simp: TakeUpTo_def Let_def split: if_splits)

lemma TakeUpTo_level:
  assumes "bucket_ok b" and "0 \<le> n" and "TakeUpTo n now b = (g, b')"
  shows "b_tokens b' + of_int g = b_tokens (refillLocked now b)"
  using assms(3) by (auto simp: TakeUpTo_eq [OF assms(1,2)])

section \<open>Refill against the clock\<close>

text \<open>The refill is computed in float64. Its relative error raises the speed of the bucket by at
  most a factor \<open>1 + 2 ^ -49\<close>; the final addition can add half a unit in the last place of
  the capacity.\<close>

definition bucket_speed :: "Bucket \<Rightarrow> rat" where
  "bucket_speed b = b_rate b * (1 + 1 / 2 ^ 49)"

definition bucket_slack :: "Bucket \<Rightarrow> rat" where
  "bucket_slack b = b_cap b / 2 ^ 53 + 2 * tiny64"

lemma refill_increment_upper:
  assumes "bucket_ok b" and "b_last b \<le> now"
  shows "fmul (Seconds (time_sub now (b_last b))) (b_rate b) \<le>
    bucket_speed b * secs (now - b_last b) + tiny64"
proof -
  let ?d = "time_sub now (b_last b)"
  have "fmul (Seconds ?d) (b_rate b) \<le> bucket_speed b * secs ?d + tiny64"
    unfolding bucket_speed_def using assms by (intro increment_bounds) (auto simp: bucket_ok_def time_sub_nonneg)
  moreover have "bucket_speed b * secs ?d \<le> bucket_speed b * secs (now - b_last b)"
    using assms by (intro mult_left_mono) (auto simp: secs_mono time_sub_le bucket_speed_def bucket_ok_def)
  ultimately show ?thesis by linarith
qed

lemma refill_upper:
  assumes "bucket_ok b"
  shows "b_tokens (refillLocked now b) \<le>
    b_tokens b + bucket_speed b * secs (max (b_last b) now - b_last b) + bucket_slack b"
proof (cases "b_last b < now")
  case True
  let ?p = "fmul (Seconds (time_sub now (b_last b))) (b_rate b)"
  let ?t = "b_tokens b"
  have p: "?p \<le> bucket_speed b * secs (now - b_last b) + tiny64"
    using assms True by (simp add: refill_increment_upper)
  have p0: "0 \<le> ?p" using assms True by (simp add: refill_increment_nonneg)
  have ok: "0 \<le> ?t" "?t \<le> b_cap b" using assms by (auto simp: bucket_ok_def)
  have "min (b_cap b) (fadd ?t ?p) \<le> ?t + ?p + b_cap b / 2 ^ 53 + tiny64"
  proof (cases "?t + ?p \<le> b_cap b")
    case True
    have "fadd ?t ?p \<le> (?t + ?p) * (1 + 1 / 2 ^ 53) + tiny64"
      unfolding fadd_def using ok p0 by (intro rnd_upper) simp
    also have "\<dots> \<le> ?t + ?p + b_cap b / 2 ^ 53 + tiny64"
      using True by (simp add: algebra_simps)
    finally show ?thesis by simp
  next
    case False
    moreover have "0 \<le> b_cap b / 2 ^ 53" using ok by simp
    ultimately have "b_cap b \<le> ?t + ?p + b_cap b / 2 ^ 53 + tiny64"
      using tiny64_nonneg by linarith
    then show ?thesis by simp
  qed
  then show ?thesis
    using p True by (simp add: refillLocked_def bucket_slack_def)
next
  case False
  then show ?thesis
    using assms by (simp add: refillLocked_def secs_def bucket_slack_def bucket_ok_def)
qed

lemma refill_increment_lower:
  assumes "bucket_ok b" and "b_last b \<le> now" and "now - b_last b \<le> max_i64"
  shows "b_rate b * (1 - 1 / 2 ^ 49) * secs (now - b_last b) - tiny64 \<le>
    fmul (Seconds (time_sub now (b_last b))) (b_rate b)"
  using increment_lower [of "time_sub now (b_last b)" "b_rate b"] assms
  by (simp add: time_sub_exact bucket_ok_def in_i64_def min_i64_def)

text \<open>The refill loses at most what it can gain: the level follows the exact refill from below too.\<close>

lemma refill_lower:
  assumes "bucket_ok b" and "b_last b \<le> now" and "now - b_last b \<le> max_i64"
  shows "min (b_cap b) (b_tokens b + b_rate b * (1 - 1 / 2 ^ 49) * secs (now - b_last b)) -
    bucket_slack b \<le> b_tokens (refillLocked now b)"
proof (cases "b_last b < now")
  case True
  let ?p = "fmul (Seconds (time_sub now (b_last b))) (b_rate b)" and ?t = "b_tokens b" and ?c = "b_cap b"
  let ?x = "b_rate b * (1 - 1 / 2 ^ 49) * secs (now - b_last b)"
  have p: "?x - tiny64 \<le> ?p" by (rule refill_increment_lower [OF assms])
  have p0: "0 \<le> ?p" using assms by (simp add: refill_increment_nonneg)
  have ok: "0 \<le> ?t" "?t \<le> ?c" "is_float64 ?c" using assms(1) by (auto simp: bucket_ok_def)
  have "min ?c (?t + ?x) - bucket_slack b \<le> min ?c (fadd ?t ?p)"
  proof (cases "?t + ?p \<le> ?c")
    case True
    have "(?t + ?p) * (1 - 1 / 2 ^ 53) - tiny64 \<le> fadd ?t ?p"
      unfolding fadd_def using ok p0 by (intro rnd_lower) simp
    moreover have "(?t + ?p) * (1 - 1 / 2 ^ 53) = ?t + ?p - (?t + ?p) / 2 ^ 53"
      by (simp only: right_diff_distrib mult_1_right times_divide_eq_right)
    moreover have "(?t + ?p) / 2 ^ 53 \<le> ?c / 2 ^ 53" using True by (simp add: divide_right_mono)
    ultimately have "?t + ?x - bucket_slack b \<le> fadd ?t ?p"
      using p unfolding bucket_slack_def by linarith
    moreover have "0 \<le> bucket_slack b" using ok by (simp add: bucket_slack_def)
    ultimately show ?thesis by (simp add: min_def)
  next
    case False
    have "?c \<le> fadd ?t ?p" unfolding fadd_def using False ok(3) by (intro rnd_ge) auto
    moreover have "0 \<le> bucket_slack b" using ok by (simp add: bucket_slack_def)
    ultimately show ?thesis by (simp add: min_def)
  qed
  then show ?thesis using True by (simp add: refillLocked_def)
next
  case False
  moreover have "0 \<le> bucket_slack b" using assms(1) by (simp add: bucket_slack_def bucket_ok_def)
  ultimately show ?thesis
    using assms by (simp add: refillLocked_def secs_def bucket_ok_def)
qed
section \<open>The bucket is a token source\<close>

interpretation bkt: token_source TakeUpTo bucket_ok b_tokens b_last bucket_speed bucket_slack
proof unfold_locales
  fix b n now g b'
  assume b: "bucket_ok b" and t: "TakeUpTo n now b = (g, b')"
  show "b_last b' = max (b_last b) now" by (rule TakeUpTo_fields [OF t])
  show "bucket_speed b' = bucket_speed b \<and> bucket_slack b' = bucket_slack b"
    using TakeUpTo_fields [OF t] by (simp add: bucket_speed_def bucket_slack_def)
  assume n: "0 \<le> n"
  show "bucket_ok b'" by (rule bucket_ok_TakeUpTo [OF b n t])
  show "0 \<le> g \<and> g \<le> n" using TakeUpTo_bounds [OF b n t] by simp
  show "b_tokens b' + of_int g \<le>
      b_tokens b + bucket_speed b * secs (b_last b' - b_last b) + bucket_slack b"
    using refill_upper [OF b, of now] TakeUpTo_fields(3) [OF t] TakeUpTo_level [OF b n t] by simp
qed (simp add: bucket_ok_def)

section \<open>Waiting for the next token\<close>

lemma rnd_near:
  assumes "0 \<le> x" and "x \<le> 2"
  shows "x - 1 / 2 ^ 50 \<le> rnd x" and "rnd x \<le> x + 1 / 2 ^ 50"
proof -
  have e: "x / 2 ^ 53 + tiny64 \<le> 1 / 2 ^ 50"
    using tiny64_small assms(2) by (simp add: field_simps)
  show "x - 1 / 2 ^ 50 \<le> rnd x" and "rnd x \<le> x + 1 / 2 ^ 50"
    using rnd_error [of x] assms(1) e by (auto simp: abs_le_iff)
qed

lemma NextTokenIn_bounds:
  fixes now :: time
  assumes ok: "bucket_ok b" and r: "1 \<le> b_rate b"
  defines "t \<equiv> b_tokens (refillLocked now b)"
  assumes t1: "t < 1"
  obtains d where "NextTokenIn now b = (d, refillLocked now b)" and "0 \<le> d"
    and "secs (d + 2) \<ge> (1 - t) / b_rate b" and "d \<le> 1000000001"
proof -
  let ?r = "b_rate b"
  have t0: "0 \<le> t" using bucket_ok_refill [OF ok, of now] by (simp add: bucket_ok_def t_def)
  let ?x = "rnd (1 - t)"
  have x: "1 - t - 1 / 2 ^ 50 \<le> ?x" "?x \<le> 1" "0 \<le> ?x"
    using rnd_near(1) [of "1 - t"] rnd_mono [of "1 - t" 1] t0 t1 by (auto intro: rnd_nonneg)
  let ?y = "rnd (?x / ?r)"
  have xr: "0 \<le> ?x / ?r" "?x / ?r \<le> 1" using x r by (auto simp: divide_le_eq)
  then have y: "?x / ?r - 1 / 2 ^ 50 \<le> ?y" "?y \<le> 1" "0 \<le> ?y"
    using rnd_near(1) [of "?x / ?r"] rnd_mono [of "?x / ?r" 1] by (auto intro: rnd_nonneg)
  let ?z = "rnd (?y * 1000000000)"
  have y9: "?y * 1000000000 \<le> 1000000000" using y(2) by simp
  have "tiny64 \<le> 1 / 2 ^ 22" using tiny64_small by (simp add: field_simps)
  then have z: "?y * 1000000000 - 1 / 2 ^ 21 \<le> ?z"
    using rnd_lower [of "?y * 1000000000"] y9 y(3) by (simp add: algebra_simps)
  have z2: "?z \<le> 1000000000" "0 \<le> ?z"
    using rnd_mono [OF y9] y(3) by (auto intro: rnd_nonneg)
  have fi: "int_of_float ?z = \<lfloor>?z\<rfloor>" using z2 by (intro int_of_float_floor) auto
  have "NextTokenIn now b = (\<lfloor>?z\<rfloor>, refillLocked now b)"
    using t1 r fi
    by (simp add: NextTokenIn_def Let_def t_def [symmetric] fsub_def fdiv_def fmul_def
        float_of_int_def Second_def)
  moreover have "0 \<le> \<lfloor>?z\<rfloor>" using z2 by simp
  moreover have "secs (\<lfloor>?z\<rfloor> + 2) \<ge> (1 - t) / ?r"
  proof -
    have "(1 - t - 1 / 2 ^ 50) / ?r \<le> ?x / ?r" using x(1) r by (simp add: divide_right_mono)
    moreover have "(1 / 2 ^ 50) / ?r \<le> (1 / 2 ^ 50) / 1" using r by (intro divide_left_mono) auto
    ultimately have "(1 - t) / ?r - 1 / 2 ^ 50 \<le> ?x / ?r"
      by (simp add: diff_divide_distrib)
    then have "(1 - t) / ?r - 1 / 2 ^ 49 \<le> ?y" using y(1) by simp
    moreover have "q - 1 / 2 ^ 49 \<le> y \<Longrightarrow> y * 1000000000 - 1 / 2 ^ 21 \<le> z \<Longrightarrow>
        q * 1000000000 - 1 \<le> z" for q y z :: rat
      by simp
    ultimately have "(1 - t) / ?r * 1000000000 - 1 \<le> ?z" using z by blast
    also have "?z \<le> of_int \<lfloor>?z\<rfloor> + 1" by linarith
    finally have "(1 - t) / ?r * 1000000000 \<le> of_int (\<lfloor>?z\<rfloor> + 2)" by simp
    then show ?thesis unfolding secs_def by (rule pos_le_divide_eq [THEN iffD2, rotated]) simp
  qed
  moreover have "\<lfloor>?z\<rfloor> \<le> 1000000001" using z2(1) by linarith
  ultimately show thesis using that by blast
qed

text \<open>One millisecond after the announced time a whole token is there.\<close>

lemma NextTokenIn_refill:
  assumes ok: "bucket_ok b" and r: "1 \<le> b_rate b" and c: "1 \<le> b_cap b"
    and n: "NextTokenIn now b = (d, b')" and w: "d + 1000000 \<le> w" "w \<le> max_i64"
    and l: "b_last b \<le> now"
  shows "1 \<le> b_tokens (refillLocked (now + w) b')"
proof (cases "b_tokens (refillLocked now b) < 1")
  case False
  then have "b' = refillLocked now b" using n by (simp add: NextTokenIn_def)
  then show ?thesis
    using False refill_tokens_mono [OF bucket_ok_refill [OF ok], of now "now + w"] by simp
next
  case True
  let ?t = "b_tokens (refillLocked now b)" and ?r = "b_rate b"
  obtain d' where d': "NextTokenIn now b = (d', refillLocked now b)" "0 \<le> d'"
      "secs (d' + 2) \<ge> (1 - ?t) / ?r"
    using NextTokenIn_bounds [OF ok r True] by metis
  with n have d: "d = d'" and b': "b' = refillLocked now b" by auto
  have w0: "0 < w" using w d' d by simp
  have t: "0 \<le> ?t" using bucket_ok_refill [OF ok, of now] by (simp add: bucket_ok_def)
  have last: "b_last b' = now" using l by (simp add: b')
  have sub: "time_sub (now + w) now = w" using w0 w(2) by (simp add: time_sub_exact)
  have "secs w \<ge> secs (d' + 2 + 999998)" using w(1) d by (intro secs_mono) simp
  then have sw: "secs w \<ge> (1 - ?t) / ?r + 999998 / 1000000000"
    using d'(3) unfolding secs_add [of "d' + 2"] secs_def [of 999998] by simp
  have "((1 - ?t) / ?r + 999998 / 1000000000) * ?r \<le> secs w * ?r"
    using sw r by (intro mult_right_mono) auto
  moreover have "((1 - ?t) / ?r + 999998 / 1000000000) * ?r = 1 - ?t + 999998 / 1000000000 * ?r"
    using r by (simp add: distrib_right)
  ultimately have xr: "secs w * ?r \<ge> 1 - ?t + 999998 / 1000000000" using r by linarith
  let ?s = "Seconds w"
  have "secs w * (1 - 1 / 2 ^ 51) \<le> ?s"
    using w0 w(2) by (intro Seconds_bounds) (auto simp: in_i64_def min_i64_def)
  then have "secs w * ?r * (1 - 1 / 2 ^ 51) \<le> ?s * ?r" using r by (simp add: mult_ac)
  moreover have "secs w * ?r * (1 - 1 / 2 ^ 51) \<ge> (1 - ?t + 999998 / 1000000000) * (1 - 1 / 2 ^ 51)"
    using xr by (intro mult_right_mono) auto
  ultimately have sr: "?s * ?r \<ge> 1 - ?t + 1 / 2000" using t by (simp add: algebra_simps)
  have "rnd (1 - ?t + 1 / 2000) \<ge> 1 - ?t + 1 / 2000 - 1 / 2 ^ 50"
    using t True by (intro rnd_near) auto
  then have "fmul ?s ?r \<ge> 1 - ?t"
    unfolding fmul_def using rnd_mono [OF sr] by simp
  then have "fadd ?t (fmul ?s ?r) \<ge> 1"
    unfolding fadd_def by (intro rnd_ge) (auto simp: is_float64_def)
  then show ?thesis
    using w0 c last sub by (simp add: refillLocked_def [of "now + w"]) (simp add: b')
qed

section \<open>Properties\<close>

lemmas bucket_exec = Bucket_New_def TakeUpTo_def NextTokenIn_def refillLocked_def time_sub_def
  Seconds_def Second_def float_of_int_def fadd_def fdiv_def fmul_def fsub_def min_i64_def max_i64_def
  int_of_float_def trunc_def in_i64_def sdiv_pos smod_pos

text \<open>C5. Over any sequence of debits, with clock readings in any order, a bucket hands out at most
  what it held at the start plus its rate times the time its clock moved. The float64 arithmetic adds
  a relative error of \<open>2 ^ -49\<close> to the rate and, per debit, half a unit in the last place
  of the capacity.\<close>

theorem bucket_window_bound:
  assumes "bucket_ok b" and "\<forall>(n, now) \<in> set rs. 0 \<le> n" and "take_run TakeUpTo b rs = (gs, b')"
  shows "of_int (sum_list gs) \<le>
      b_tokens b + b_rate b * (1 + 1 / 2 ^ 49) * secs (b_last b' - b_last b) +
      of_nat (length rs) * (b_cap b / 2 ^ 53 + 2 * tiny64)"
  using bkt.run_total [OF assms] by (simp only: bucket_speed_def bucket_slack_def)

theorem bucket_window_bound_witness:
  "take_run TakeUpTo (Bucket_New 10 10 0) [(3, 0), (8, 0), (20, 2000000000), (5, 1000000000)] =
     ([3, 7, 10, 0], \<lparr>b_rate = 10, b_cap = 10, b_tokens = 0, b_last = 2000000000\<rparr>) \<and>
   of_int (sum_list [3, 7, 10, 0]) \<le>
     10 + 10 * (1 + 1 / 2 ^ 49) * secs (2000000000 - 0) + of_nat 4 * (10 / 2 ^ 53 + 2 * tiny64)"
proof -
  let ?rs = "[(3, 0), (8, 0), (20, 2000000000), (5, 1000000000)] :: (int \<times> time) list"
  have run: "take_run TakeUpTo (Bucket_New 10 10 0) ?rs =
      ([3, 7, 10, 0], \<lparr>b_rate = 10, b_cap = 10, b_tokens = 0, b_last = 2000000000\<rparr>)"
    by (simp add: bucket_exec)
  have "bucket_ok (Bucket_New 10 10 0)" by (simp add: bucket_ok_def Bucket_New_def is_float64_def)
  from bucket_window_bound [OF this _ run] show ?thesis
    unfolding run by (simp add: Bucket_New_def)
qed

text \<open>C17. One debit of a well-formed bucket hands out exactly as many whole tokens as asked for and
  present after the refill, takes exactly these from the level (the subtraction does not round),
  never moves the clock of the bucket backwards and leaves the bucket well-formed.\<close>

theorem TakeUpTo_spec:
  assumes "bucket_ok b" and "0 \<le> n" and "TakeUpTo n now b = (g, b')"
  shows "g = min n \<lfloor>b_tokens (refillLocked now b)\<rfloor> \<and>
    b' = (refillLocked now b)\<lparr>b_tokens := b_tokens (refillLocked now b) - of_int g\<rparr> \<and>
    b_last b' = max (b_last b) now \<and> bucket_ok b'"
  using assms(3) TakeUpTo_fields(3) [OF assms(3)] bucket_ok_TakeUpTo [OF assms]
  by (auto simp: TakeUpTo_eq [OF assms(1,2)])

theorem TakeUpTo_spec_witness:
  "(3::int) = min 3 \<lfloor>b_tokens (refillLocked 0 (Bucket_New 10 10 0))\<rfloor> \<and>
   bucket_ok \<lparr>b_rate = 10, b_cap = 10, b_tokens = 7, b_last = 0\<rparr>"
proof -
  have "bucket_ok (Bucket_New 10 10 0)" by (simp add: bucket_ok_def Bucket_New_def is_float64_def)
  moreover have "TakeUpTo 3 0 (Bucket_New 10 10 0) =
      (3, \<lparr>b_rate = 10, b_cap = 10, b_tokens = 7, b_last = 0\<rparr>)"
    by (simp add: bucket_exec)
  ultimately show ?thesis using TakeUpTo_spec [of "Bucket_New 10 10 0" 3 0 3] by fastforce
qed

text \<open>C18. The refill follows the exact refill, capped at the capacity, from above and from below: the
  bucket neither creates nor loses more than the rounding error. A clock reading at or before the last
  one changes nothing.\<close>

theorem refill_tracks_clock:
  assumes "bucket_ok b"
  shows "(now \<le> b_last b \<longrightarrow> refillLocked now b = b) \<and>
    (b_last b \<le> now \<longrightarrow> now - b_last b \<le> max_i64 \<longrightarrow>
      min (b_cap b) (b_tokens b + b_rate b * (1 - 1 / 2 ^ 49) * secs (now - b_last b)) - bucket_slack b \<le>
        b_tokens (refillLocked now b) \<and>
      b_tokens (refillLocked now b) \<le>
        min (b_cap b) (b_tokens b + b_rate b * (1 + 1 / 2 ^ 49) * secs (now - b_last b) + bucket_slack b))"
proof -
  have "b_tokens (refillLocked now b) \<le> b_cap b"
    using bucket_ok_refill [OF assms, of now] by (simp add: bucket_ok_def)
  moreover have "refillLocked now b = b" if "now \<le> b_last b" using that by (simp add: refillLocked_def)
  ultimately show ?thesis
    using refill_lower [OF assms, of now] refill_upper [OF assms, of now]
    unfolding bucket_speed_def by (auto simp del: one_add_one simp: max_absorb2)
qed

theorem refill_tracks_clock_witness:
  "refillLocked 5 (Bucket_New 10 10 7) = Bucket_New 10 10 7 \<and>
   b_tokens (refillLocked 1000000007 (Bucket_New 10 10 7)) \<le>
     min 10 (10 + 10 * (1 + 1 / 2 ^ 49) * secs 1000000000 + bucket_slack (Bucket_New 10 10 7))"
proof -
  have ok: "bucket_ok (Bucket_New 10 10 7)" by (simp add: bucket_ok_def Bucket_New_def is_float64_def)
  have f: "b_last (Bucket_New 10 10 7) = 7" "b_cap (Bucket_New 10 10 7) = 10"
      "b_tokens (Bucket_New 10 10 7) = 10" "b_rate (Bucket_New 10 10 7) = 10"
    by (simp_all add: Bucket_New_def)
  have "(1000000007::int) - 7 = 1000000000" "(1000000000::int) \<le> max_i64" by (simp_all add: max_i64_def)
  then show ?thesis
    using refill_tracks_clock [OF ok, of 5] refill_tracks_clock [OF ok, of 1000000007]
    unfolding f by simp
qed

text \<open>C19. The wait that \<open>NextTokenIn\<close> announces is enough: one millisecond after it, a debit
  from the bucket succeeds. The rate is at least one token per second.\<close>

theorem NextTokenIn_ready:
  assumes "bucket_ok b" and "1 \<le> b_rate b" and "1 \<le> b_cap b" and "b_last b \<le> now"
    and "NextTokenIn now b = (d, b')" and "d + 1000000 \<le> w" and "w \<le> max_i64" and "1 \<le> n"
  shows "1 \<le> fst (TakeUpTo n (now + w) b')"
proof -
  have b': "b' = refillLocked now b"
    using assms(5) by (auto simp: NextTokenIn_def Let_def split: if_splits)
  have "1 \<le> b_tokens (refillLocked (now + w) b')"
    by (rule NextTokenIn_refill [OF assms(1-3,5-7,4)])
  then have "1 \<le> \<lfloor>b_tokens (refillLocked (now + w) b')\<rfloor>" by (simp add: le_floor_iff)
  then show ?thesis
    using assms(8) TakeUpTo_eq [OF bucket_ok_refill [OF assms(1)], of n "now + w" now]
    by (simp add: b')
qed

theorem NextTokenIn_ready_witness:
  "NextTokenIn 0 (Bucket_New 1 1 0\<lparr>b_tokens := 0\<rparr>) = (1000000000, Bucket_New 1 1 0\<lparr>b_tokens := 0\<rparr>) \<and>
   1 \<le> fst (TakeUpTo 5 (0 + 1001000000) (Bucket_New 1 1 0\<lparr>b_tokens := 0\<rparr>))"
proof -
  let ?b = "Bucket_New 1 1 0\<lparr>b_tokens := 0\<rparr>"
  have ok: "bucket_ok ?b" by (simp add: bucket_ok_def Bucket_New_def is_float64_def)
  have n: "NextTokenIn 0 ?b = (1000000000, ?b)" by (simp add: bucket_exec)
  show ?thesis
    using NextTokenIn_ready [OF ok _ _ _ n, of 1001000000 5] n by (simp add: Bucket_New_def max_i64_def)
qed

text \<open>A capacity of \<open>2 ^ 63\<close> tokens or more starves its tenant: the conversion of the full
  level to an integer leaves the range and the debit hands out nothing, at any time.\<close>

lemma TakeUpTo_starves:
  assumes "2 ^ 63 \<le> c" and "is_float64 c" and "0 < r"
  shows "fst (TakeUpTo n now (Bucket_New r c t0)) = 0"
proof -
  have "c \<le> fadd c (fmul (Seconds (time_sub now t0)) r)" if "t0 < now"
  proof -
    have "0 \<le> fmul (Seconds (time_sub now t0)) r"
      using that assms(3) by (intro increment_bounds) (auto simp: time_sub_nonneg)
    then show ?thesis unfolding fadd_def by (intro rnd_ge [OF assms(2)]) simp
  qed
  then have "b_tokens (refillLocked now (Bucket_New r c t0)) = c"
    by (simp add: refillLocked_def Bucket_New_def)
  moreover have "int_of_float c = min_i64"
  proof -
    have "2 ^ 63 \<le> \<lfloor>c\<rfloor>" using assms(1) by (simp add: le_floor_iff)
    then show ?thesis using assms(1) by (simp add: int_of_float_def trunc_def in_i64_def max_i64_def)
  qed
  ultimately show ?thesis by (simp add: TakeUpTo_def Let_def min_i64_def)
qed

end
