(* ===== verification/Config.thy ===== *)
theory Config
  imports GoTime
begin

text \<open>
  Package \<open>internal/config\<close>: the coordinator's configuration and its validation. Reading
  the file and strict YAML decoding (\<open>sigs.k8s.io/yaml\<close>) are parameters of \<open>Load\<close>.
  The tenant map is the list of its entries in the order one iteration visits them; its keys are
  distinct, and the language fixes no order, so what matters is shown not to depend on it.
\<close>

section \<open>Definitions\<close>

definition BurstSeconds :: float64 where
  "BurstSeconds = 1"

record Lease =
  Size :: int
  DurationMs :: int

record Config =
  c_Lease :: Lease
  c_Tenants :: "(string \<times> float64) list"

definition LeaseDuration :: "Config \<Rightarrow> duration" where
  "LeaseDuration c = duration_of_ms (DurationMs (c_Lease c))"

datatype load_error =
    ReadError string
  | ParseError string string
  | LeaseSizeError int
  | DurationError int
  | NoTenants
  | RateError string float64

fun bad_rate :: "(string \<times> float64) list \<Rightarrow> (string \<times> float64) option" where
  "bad_rate [] = None"
| "bad_rate ((name, rate) # ts) = (if rate \<le> 0 then Some (name, rate) else bad_rate ts)"

definition Load ::
  "(string \<Rightarrow> string + string) \<Rightarrow> (string \<Rightarrow> string + Config) \<Rightarrow> string \<Rightarrow> load_error + Config" where
  "Load readFile unmarshalStrict path =
     (case readFile path of
        Inl err \<Rightarrow> Inl (ReadError err)
      | Inr raw \<Rightarrow>
          (case unmarshalStrict raw of
             Inl err \<Rightarrow> Inl (ParseError path err)
           | Inr c \<Rightarrow>
               if Size (c_Lease c) < 1 then Inl (LeaseSizeError (Size (c_Lease c)))
               else if DurationMs (c_Lease c) < 100 then Inl (DurationError (DurationMs (c_Lease c)))
               else if length (c_Tenants c) = 0 then Inl NoTenants
               else (case bad_rate (c_Tenants c) of
                       Some (name, rate) \<Rightarrow> Inl (RateError name rate)
                     | None \<Rightarrow> Inr c)))"

section \<open>What a loaded configuration satisfies\<close>

definition config_valid :: "Config \<Rightarrow> bool" where
  "config_valid c \<longleftrightarrow>
     1 \<le> Size (c_Lease c) \<and> 100 \<le> DurationMs (c_Lease c) \<and> c_Tenants c \<noteq> [] \<and>
     (\<forall>(name, rate) \<in> set (c_Tenants c). 0 < rate)"

lemma bad_rate_None: "bad_rate ts = None \<longleftrightarrow> (\<forall>(name, rate) \<in> set ts. 0 < rate)"
  by (induction ts rule: bad_rate.induct) auto

lemma bad_rate_Some: "bad_rate ts = Some (name, rate) \<Longrightarrow> (name, rate) \<in> set ts \<and> rate \<le> 0"
  by (induction ts rule: bad_rate.induct) (auto split: if_splits)

lemma Load_Inr_iff:
  "Load rf um path = Inr c \<longleftrightarrow> (\<exists>raw. rf path = Inr raw \<and> um raw = Inr c) \<and> config_valid c"
  by (auto simp: Load_def config_valid_def bad_rate_None [symmetric] split: sum.splits option.splits)

text \<open>
  What the YAML decoder delivers by its result type: keys of a map are distinct, numbers are
  values of their Go type.
\<close>

definition config_typed :: "Config \<Rightarrow> bool" where
  "config_typed c \<longleftrightarrow>
     in_i64 (Size (c_Lease c)) \<and> in_i64 (DurationMs (c_Lease c)) \<and>
     distinct (map fst (c_Tenants c)) \<and> (\<forall>(name, rate) \<in> set (c_Tenants c). is_float64 rate)"

text \<open>The configuration as a function of the tenant, and two that differ in iteration order only.\<close>

definition same_config :: "Config \<Rightarrow> Config \<Rightarrow> bool" where
  "same_config c c' \<longleftrightarrow> c_Lease c = c_Lease c' \<and> set (c_Tenants c) = set (c_Tenants c')"

lemma config_valid_same: "same_config c c' \<Longrightarrow> config_valid c = config_valid c'"
  unfolding same_config_def config_valid_def by (metis set_empty2)

lemma map_of_same:
  assumes "same_config c c'" and "config_typed c" and "config_typed c'"
  shows "map_of (c_Tenants c) = map_of (c_Tenants c')"
  using assms by (simp add: same_config_def config_typed_def map_of_inject_set)

section \<open>Properties\<close>

text \<open>C26. \<open>Load\<close> succeeds exactly on a readable file that decodes strictly to a configuration with
  a lease of at least one token, a duration of at least 100 ms, at least one tenant and only positive
  rates, and returns that configuration. The iteration order of the tenant map does not matter: two
  decoded configurations with the same entries are both accepted or both refused, and with the same
  error constructor unless it is the rate error, which names some tenant with a bad rate.\<close>

theorem Load_spec:
  assumes "config_typed c" and "config_typed c'" and "same_config c c'"
  shows "(Load (\<lambda>_. Inr raw) (\<lambda>_. Inr c) path = Inr c \<longleftrightarrow> config_valid c) \<and>
    (Load (\<lambda>_. Inr raw) (\<lambda>_. Inr c) path = Inr c \<longleftrightarrow> Load (\<lambda>_. Inr raw) (\<lambda>_. Inr c') path = Inr c') \<and>
    (Load rf um path = Inr c \<longleftrightarrow> (\<exists>raw. rf path = Inr raw \<and> um raw = Inr c) \<and> config_valid c) \<and>
    (\<forall>e. Load (\<lambda>_. Inr raw) (\<lambda>_. Inr c) path = Inl e \<longrightarrow>
       Load (\<lambda>_. Inr raw) (\<lambda>_. Inr c') path = Inl e \<or>
       (\<exists>n r n' r'. e = RateError n r \<and> (n, r) \<in> set (c_Tenants c) \<and> r \<le> 0 \<and>
          Load (\<lambda>_. Inr raw) (\<lambda>_. Inr c') path = Inl (RateError n' r') \<and>
          (n', r') \<in> set (c_Tenants c) \<and> r' \<le> 0))"
proof (intro conjI allI impI)
  show "Load rf um path = Inr c \<longleftrightarrow> (\<exists>raw. rf path = Inr raw \<and> um raw = Inr c) \<and> config_valid c"
    by (rule Load_Inr_iff)
  show "Load (\<lambda>_. Inr raw) (\<lambda>_. Inr c) path = Inr c \<longleftrightarrow> config_valid c"
    by (simp add: Load_Inr_iff)
  show "Load (\<lambda>_. Inr raw) (\<lambda>_. Inr c) path = Inr c \<longleftrightarrow> Load (\<lambda>_. Inr raw) (\<lambda>_. Inr c') path = Inr c'"
    by (simp add: Load_Inr_iff config_valid_same [OF assms(3)])
  fix e
  assume e: "Load (\<lambda>_. Inr raw) (\<lambda>_. Inr c) path = Inl e"
  have len: "c_Tenants c' = [] \<longleftrightarrow> c_Tenants c = []" and l: "c_Lease c' = c_Lease c"
    and st: "set (c_Tenants c') = set (c_Tenants c)"
    using assms(3) by (auto simp: same_config_def)
  have "bad_rate (c_Tenants c') = None \<longleftrightarrow> bad_rate (c_Tenants c) = None"
    unfolding bad_rate_None st ..
  then consider "bad_rate (c_Tenants c) = None" "bad_rate (c_Tenants c') = None"
    | n r n' r' where "bad_rate (c_Tenants c) = Some (n, r)" "bad_rate (c_Tenants c') = Some (n', r')"
    by (cases "bad_rate (c_Tenants c)"; cases "bad_rate (c_Tenants c')") auto
  then show "Load (\<lambda>_. Inr raw) (\<lambda>_. Inr c') path = Inl e \<or>
       (\<exists>n r n' r'. e = RateError n r \<and> (n, r) \<in> set (c_Tenants c) \<and> r \<le> 0 \<and>
          Load (\<lambda>_. Inr raw) (\<lambda>_. Inr c') path = Inl (RateError n' r') \<and>
          (n', r') \<in> set (c_Tenants c) \<and> r' \<le> 0)"
  proof cases
    case 1
    then show ?thesis using e by (auto simp: Load_def l len split: if_splits)
  next
    case (2 n r n' r')
    then show ?thesis
      using e bad_rate_Some [OF 2(1)] bad_rate_Some [OF 2(2)] st
      by (auto simp: Load_def l len split: if_splits)
  qed
qed

theorem Load_spec_witness:
  "(let c = \<lparr>c_Lease = \<lparr>Size = 10, DurationMs = 1000\<rparr>, c_Tenants = [(''a'', 5), (''b'', 0)]\<rparr>;
        c' = c\<lparr>c_Tenants := [(''b'', 0), (''a'', 5)]\<rparr> in
    \<not> config_valid c \<and> Load (\<lambda>_. Inr ''x'') (\<lambda>_. Inr c) ''p'' = Inl (RateError ''b'' 0) \<and>
    Load (\<lambda>_. Inr ''x'') (\<lambda>_. Inr c') ''p'' = Inl (RateError ''b'' 0))"
proof -
  let ?c = "\<lparr>c_Lease = \<lparr>Size = 10, DurationMs = 1000\<rparr>, c_Tenants = [(''a'', 5), (''b'', 0)]\<rparr>"
  let ?c' = "?c\<lparr>c_Tenants := [(''b'', 0), (''a'', 5)]\<rparr>"
  have t: "config_typed ?c" "config_typed ?c'" "same_config ?c ?c'"
    by (auto simp: config_typed_def same_config_def in_i64_def min_i64_def max_i64_def is_float64_def)
  have e: "Load (\<lambda>_. Inr ''x'') (\<lambda>_. Inr ?c) ''p'' = Inl (RateError ''b'' 0)"
    by (simp add: Load_def)
  show ?thesis
    using Load_spec [OF t, of "''x''" "''p''" "\<lambda>_. Inr ''x''" "\<lambda>_. Inr ?c"] e unfolding Let_def by auto
qed

text \<open>The validation bounds the lease duration from below only: a configuration is accepted whose
  duration overflows the nanosecond count, so that the leases it grants expire before they are
  granted.\<close>

lemma huge_duration_accepted:
  "\<exists>c. config_typed c \<and> Load (\<lambda>_. Inr raw) (\<lambda>_. Inr c) path = Inr c \<and>
     0 < DurationMs (c_Lease c) \<and> LeaseDuration c < 0"
proof -
  let ?c = "\<lparr>c_Lease = \<lparr>Size = 10, DurationMs = 9223372036855\<rparr>, c_Tenants = [(''a'', 5)]\<rparr>"
  have "config_typed ?c" "config_valid ?c" "LeaseDuration ?c < 0"
    by (simp_all add: config_typed_def config_valid_def in_i64_def min_i64_def max_i64_def is_float64_def
        LeaseDuration_def duration_of_ms_def Millisecond_def i64_def)
  then show ?thesis by (intro exI [of _ ?c]) (simp add: Load_Inr_iff)
qed

end
