(* ===== verification/Http.thy ===== *)
theory Http
  imports Prelude
begin

text \<open>
  What the program uses of \<open>encoding/json\<close> and \<open>net/http\<close>: JSON values,
  decoding into a struct field by field (keys match up to letter case, unknown keys are skipped,
  \<open>null\<close> leaves the field alone, a value of the wrong kind or an integer out of range is an
  error), requests, responses, and the routing of the method-and-path patterns of a
  \<open>ServeMux\<close>.

  A body is given as the JSON value it parses to, or as plain text where it does not parse.
\<close>

section \<open>JSON\<close>

datatype json =
    JNull
  | JBool bool
  | JInt int
  | JFrac rat
  | JStr string
  | JArr "json list"
  | JObj "(string \<times> json) list"

datatype body = Json json | Text string

definition lower_char :: "char \<Rightarrow> char" where
  "lower_char c = (let n = of_char c :: nat in if 65 \<le> n \<and> n \<le> 90 then char_of (n + 32) else c)"

definition key_match :: "string \<Rightarrow> string \<Rightarrow> bool" where
  "key_match name key \<longleftrightarrow> map lower_char key = map lower_char name"

fun decode_string :: "json \<Rightarrow> string \<Rightarrow> string option" where
  "decode_string (JStr s) old = Some s"
| "decode_string JNull old = Some old"
| "decode_string _ old = None"

fun decode_int :: "json \<Rightarrow> int \<Rightarrow> int option" where
  "decode_int (JInt i) old = (if in_i64 i then Some i else None)"
| "decode_int JNull old = Some old"
| "decode_int _ old = None"

text \<open>The members of an object are stored one after the other, so a later one wins.\<close>

fun decode_members ::
  "(string \<Rightarrow> json \<Rightarrow> 'r \<Rightarrow> 'r option) \<Rightarrow> (string \<times> json) list \<Rightarrow> 'r \<Rightarrow> 'r option" where
  "decode_members f [] r = Some r"
| "decode_members f ((k, v) # ms) r =
     (case f k v r of None \<Rightarrow> None | Some r' \<Rightarrow> decode_members f ms r')"

fun decode_struct :: "(string \<Rightarrow> json \<Rightarrow> 'r \<Rightarrow> 'r option) \<Rightarrow> 'r \<Rightarrow> body \<Rightarrow> 'r option" where
  "decode_struct f r (Json (JObj ms)) = decode_members f ms r"
| "decode_struct f r (Json JNull) = Some r"
| "decode_struct f r _ = None"

section \<open>Requests, responses, routing\<close>

record request =
  rq_method :: string
  rq_path :: "string list"
  rq_query :: "(string \<times> string) list"
  rq_header :: "(string \<times> string) list"
  rq_body :: body

record response =
  rs_status :: int
  rs_body :: body

definition StatusOK :: int where "StatusOK = 200"
definition StatusBadRequest :: int where "StatusBadRequest = 400"
definition StatusUnauthorized :: int where "StatusUnauthorized = 401"
definition StatusNotFound :: int where "StatusNotFound = 404"
definition StatusMethodNotAllowed :: int where "StatusMethodNotAllowed = 405"
definition StatusConflict :: int where "StatusConflict = 409"
definition StatusTooManyRequests :: int where "StatusTooManyRequests = 429"

lemmas status_defs = StatusOK_def StatusBadRequest_def StatusUnauthorized_def StatusNotFound_def
  StatusMethodNotAllowed_def StatusConflict_def StatusTooManyRequests_def

definition respond :: "int \<Rightarrow> body \<Rightarrow> response" where
  "respond code b = \<lparr>rs_status = code, rs_body = b\<rparr>"

lemma respond_simps [simp]: "rs_status (respond c b) = c" "rs_body (respond c b) = b"
  by (simp_all add: respond_def)

text \<open>\<open>Query().Get\<close> and \<open>Header.Get\<close>: the first value, or the empty string.\<close>

definition get_param :: "(string \<times> string) list \<Rightarrow> string \<Rightarrow> string" where
  "get_param ps k = (case map_of ps k of None \<Rightarrow> '''' | Some v \<Rightarrow> v)"

text \<open>A pattern segment is a literal or a wildcard; a \<open>GET\<close> pattern also serves
  \<open>HEAD\<close>. A path that some pattern has, but with other methods only, is answered 405.\<close>

datatype segment = Lit string | Wild

type_synonym pattern = "string \<times> segment list"

fun path_match :: "segment list \<Rightarrow> string list \<Rightarrow> string list option" where
  "path_match [] [] = Some []"
| "path_match (Lit s # ps) (x # xs) = (if s = x then path_match ps xs else None)"
| "path_match (Wild # ps) (x # xs) =
     (if x = '''' then None else map_option ((#) x) (path_match ps xs))"
| "path_match _ _ = None"

definition method_match :: "string \<Rightarrow> string \<Rightarrow> bool" where
  "method_match pm m \<longleftrightarrow> pm = m \<or> (pm = ''GET'' \<and> m = ''HEAD'')"

datatype 'h routed = Serve 'h "string list" | NoRoute int

fun route :: "(pattern \<times> 'h) list \<Rightarrow> request \<Rightarrow> 'h routed" where
  "route [] r = NoRoute StatusNotFound"
| "route (((m, ps), h) # rt) r =
     (case path_match ps (rq_path r) of
        None \<Rightarrow> route rt r
      | Some vs \<Rightarrow>
          (if method_match m (rq_method r) then Serve h vs
           else case route rt r of Serve h' vs' \<Rightarrow> Serve h' vs' | NoRoute _ \<Rightarrow> NoRoute StatusMethodNotAllowed))"

section \<open>Request targets\<close>

text \<open>The path and the query of a request target, for targets without percent escapes.\<close>

definition before :: "char \<Rightarrow> string \<Rightarrow> string" where
  "before c s = takeWhile (\<lambda>x. x \<noteq> c) s"

definition after :: "char \<Rightarrow> string \<Rightarrow> string" where
  "after c s = drop 1 (dropWhile (\<lambda>x. x \<noteq> c) s)"

fun split_on :: "char \<Rightarrow> string \<Rightarrow> string list" where
  "split_on c [] = [[]]"
| "split_on c (x # xs) =
     (if x = c then [] # split_on c xs
      else (case split_on c xs of [] \<Rightarrow> [[x]] | y # ys \<Rightarrow> (x # y) # ys))"

definition parse_query :: "string \<Rightarrow> (string \<times> string) list" where
  "parse_query q = (if q = [] then [] else map (\<lambda>p. (before CHR ''='' p, after CHR ''='' p)) (split_on CHR ''&'' q))"

definition get_request :: "string \<Rightarrow> request" where
  "get_request target =
     \<lparr>rq_method = ''GET'', rq_path = tl (split_on CHR ''/'' (before CHR ''?'' target)),
      rq_query = parse_query (after CHR ''?'' target), rq_header = [], rq_body = Text ''''\<rparr>"

lemma split_on_none: "c \<notin> set s \<Longrightarrow> split_on c s = [s]"
  by (induction s) auto

lemma before_none: "c \<notin> set s \<Longrightarrow> before c s = s \<and> after c s = ''''"
  unfolding before_def after_def by (induction s) auto

lemma before_append: "c \<notin> set s \<Longrightarrow> before c (s @ c # t) = s \<and> after c (s @ c # t) = t"
  unfolding before_def after_def by (induction s) auto

end
