(* ===== verification/Coordinator.thy ===== *)
theory Coordinator
  imports Bucket Config Http "HOL-Library.List_Lexorder" "HOL-Library.Char_ord"
begin

text \<open>
  Package \<open>internal/coordinator\<close>: the server that holds one bucket per configured tenant
  and answers \<open>POST /v1/lease\<close> by debiting it. The tenant map is written by \<open>New\<close>
  only; a handler changes the bucket and the counters of one tenant. In \<open>handleLease\<close>
  the single shared write is the debit \<open>TakeUpTo\<close>: the counters are additions, which
  commute, and the refill inside \<open>NextTokenIn\<close> changes nothing once \<open>TakeUpTo\<close>
  has run at the same instant (\<open>refill_after_take\<close> below), so the handler is modelled as
  one step. A request for the same tenant served between the two calls could change the hint of a zero grant,
  never a debit; hints are those of a handler not interrupted there.
\<close>

section \<open>Definitions\<close>

record tenantState =
  bucket :: Bucket
  leaseRequests :: int
  zeroGrants :: int
  tokensGranted :: int

record CServer =
  co_cfg :: Config
  co_tenants :: "string \<rightharpoonup> tenantState"
  co_started :: time

fun new_tenants :: "time \<Rightarrow> (string \<times> float64) list \<Rightarrow> (string \<rightharpoonup> tenantState) \<Rightarrow> (string \<rightharpoonup> tenantState)" where
  "new_tenants now [] m = m"
| "new_tenants now ((name, rate) # ts) m =
     new_tenants now ts
       (m(name \<mapsto> \<lparr>bucket = Bucket_New rate (fmul rate BurstSeconds) now,
                   leaseRequests = 0, zeroGrants = 0, tokensGranted = 0\<rparr>))"

definition Coordinator_New :: "time \<Rightarrow> time \<Rightarrow> Config \<Rightarrow> CServer" where
  "Coordinator_New started now cfg =
     \<lparr>co_cfg = cfg, co_tenants = new_tenants now (c_Tenants cfg) Map.empty, co_started = started\<rparr>"

record LeaseRequest =
  lq_Tenant :: string
  lq_Worker :: string

record LeaseResponse =
  Granted :: int
  TTLMs :: int
  RetryAfterMs :: int

record TenantStats =
  st_LeaseRequests :: int
  st_ZeroGrants :: int
  st_TokensGranted :: int

record Stats =
  StartedMs :: int
  st_Tenants :: "string \<rightharpoonup> TenantStats"

definition set_LeaseRequest :: "string \<Rightarrow> json \<Rightarrow> LeaseRequest \<Rightarrow> LeaseRequest option" where
  "set_LeaseRequest k v r =
     (if key_match ''tenant'' k then map_option (\<lambda>s. r\<lparr>lq_Tenant := s\<rparr>) (decode_string v (lq_Tenant r))
      else if key_match ''worker'' k then map_option (\<lambda>s. r\<lparr>lq_Worker := s\<rparr>) (decode_string v (lq_Worker r))
      else Some r)"

definition decode_LeaseRequest :: "body \<Rightarrow> LeaseRequest option" where
  "decode_LeaseRequest b = decode_struct set_LeaseRequest \<lparr>lq_Tenant = '''', lq_Worker = ''''\<rparr> b"

definition encode_LeaseResponse :: "LeaseResponse \<Rightarrow> json" where
  "encode_LeaseResponse r =
     JObj ([(''granted'', JInt (Granted r)), (''ttlMs'', JInt (TTLMs r))] @
           (if RetryAfterMs r = 0 then [] else [(''retryAfterMs'', JInt (RetryAfterMs r))]))"

text \<open>The text \<open>{"error": ...}\<close> of an error answer, as the JSON value it is.\<close>

definition error_body :: "string \<Rightarrow> body" where
  "error_body msg = Json (JObj [(''error'', JStr msg)])"

definition lease_tenant :: "int \<Rightarrow> int \<Rightarrow> time \<Rightarrow> tenantState \<Rightarrow> LeaseResponse \<times> tenantState" where
  "lease_tenant leaseSize durMs now ts =
     (let ts = ts\<lparr>leaseRequests := i64 (leaseRequests ts + 1)\<rparr>;
          (granted, b) = TakeUpTo leaseSize now (bucket ts);
          ts = ts\<lparr>bucket := b\<rparr>;
          resp = \<lparr>Granted = granted, TTLMs = durMs, RetryAfterMs = 0\<rparr> in
      if granted = 0
      then let ts = ts\<lparr>zeroGrants := i64 (zeroGrants ts + 1)\<rparr>;
               (d, b) = NextTokenIn now (bucket ts) in
           (resp\<lparr>RetryAfterMs := i64 (Milliseconds d + 1)\<rparr>, ts\<lparr>bucket := b\<rparr>)
      else (resp, ts\<lparr>tokensGranted := i64 (tokensGranted ts + granted)\<rparr>))"

definition handleLease :: "time \<Rightarrow> body \<Rightarrow> CServer \<Rightarrow> response \<times> CServer" where
  "handleLease now b s =
     (case decode_LeaseRequest b of
        None \<Rightarrow> (respond StatusBadRequest (error_body ''bad request''), s)
      | Some req \<Rightarrow>
          if lq_Tenant req = '''' then (respond StatusBadRequest (error_body ''bad request''), s)
          else (case co_tenants s (lq_Tenant req) of
                  None \<Rightarrow> (respond StatusNotFound (error_body ''unknown tenant''), s)
                | Some ts \<Rightarrow>
                    let lease = c_Lease (co_cfg s);
                        (resp, ts') = lease_tenant (Size lease) (DurationMs lease) now ts in
                    (respond StatusOK (Json (encode_LeaseResponse resp)),
                     s\<lparr>co_tenants := (co_tenants s)(lq_Tenant req \<mapsto> ts')\<rparr>)))"

definition tenant_stats :: "tenantState \<Rightarrow> TenantStats" where
  "tenant_stats ts =
     \<lparr>st_LeaseRequests = leaseRequests ts, st_ZeroGrants = zeroGrants ts,
      st_TokensGranted = tokensGranted ts\<rparr>"

definition coordinator_stats :: "CServer \<Rightarrow> Stats" where
  "coordinator_stats s =
     \<lparr>StartedMs = UnixMilli (co_started s), st_Tenants = map_option tenant_stats \<circ> co_tenants s\<rparr>"

text \<open>A map is encoded with its keys sorted; the keys are the configured tenants.\<close>

definition encode_TenantStats :: "TenantStats \<Rightarrow> json" where
  "encode_TenantStats t =
     JObj [(''leaseRequests'', JInt (st_LeaseRequests t)), (''zeroGrants'', JInt (st_ZeroGrants t)),
           (''tokensGranted'', JInt (st_TokensGranted t))]"

definition encode_Stats :: "string list \<Rightarrow> Stats \<Rightarrow> json" where
  "encode_Stats names st =
     JObj [(''startedMs'', JInt (StartedMs st)),
           (''tenants'', JObj (List.map_filter
              (\<lambda>n. map_option (\<lambda>t. (n, encode_TenantStats t)) (st_Tenants st n)) (sort names)))]"

definition coordinator_handleStats :: "CServer \<Rightarrow> response" where
  "coordinator_handleStats s =
     respond StatusOK (Json (encode_Stats (map fst (c_Tenants (co_cfg s))) (coordinator_stats s)))"

datatype coordinator_route = RLease | RCoordStats | RCoordHealth

definition coordinator_routes :: "(pattern \<times> coordinator_route) list" where
  "coordinator_routes =
     [((''POST'', [Lit ''v1'', Lit ''lease'']), RLease),
      ((''GET'', [Lit ''v1'', Lit ''stats'']), RCoordStats),
      ((''GET'', [Lit ''healthz'']), RCoordHealth)]"

definition coordinator_Handler :: "time \<Rightarrow> request \<Rightarrow> CServer \<Rightarrow> response \<times> CServer" where
  "coordinator_Handler now r s =
     (case route coordinator_routes r of
        NoRoute code \<Rightarrow> (respond code (Text ''''), s)
      | Serve RLease _ \<Rightarrow> handleLease now (rq_body r) s
      | Serve RCoordStats _ \<Rightarrow> (coordinator_handleStats s, s)
      | Serve RCoordHealth _ \<Rightarrow> (respond StatusOK (Text ''ok''), s))"

text \<open>\<open>Run\<close>: a configuration that does not load stops the process, otherwise the server starts.\<close>

definition coordinator_Run ::
  "(string \<Rightarrow> string + string) \<Rightarrow> (string \<Rightarrow> string + Config) \<Rightarrow> string \<Rightarrow> time \<Rightarrow> time \<Rightarrow> load_error + CServer" where
  "coordinator_Run readFile unmarshalStrict path started now =
     (case Load readFile unmarshalStrict path of
        Inl err \<Rightarrow> Inl err
      | Inr cfg \<Rightarrow> Inr (Coordinator_New started now cfg))"

section \<open>A fresh server\<close>

lemma new_tenants_map:
  "distinct (map fst ts) \<Longrightarrow>
   new_tenants now ts m n =
     (case map_of ts n of
        Some r \<Rightarrow> Some \<lparr>bucket = Bucket_New r (fmul r BurstSeconds) now,
                       leaseRequests = 0, zeroGrants = 0, tokensGranted = 0\<rparr>
      | None \<Rightarrow> m n)"
proof (induction ts arbitrary: m)
  case Nil
  then show ?case by simp
next
  case (Cons t ts)
  obtain k r where t: "t = (k, r)" by fastforce
  have "map_of ts k = None" using Cons.prems by (simp add: t map_of_eq_None_iff)
  then show ?case using Cons by (auto simp: t split: option.splits)
qed

text \<open>Rates the bucket arithmetic is exact for: positive, and at most \<open>2 ^ 53\<close> tokens per second.\<close>

definition rates_ok :: "Config \<Rightarrow> bool" where
  "rates_ok c \<longleftrightarrow> (\<forall>(name, rate) \<in> set (c_Tenants c). 0 < rate \<and> rate \<le> 2 ^ 53)"

definition server_ok :: "CServer \<Rightarrow> bool" where
  "server_ok s \<longleftrightarrow>
     1 \<le> Size (c_Lease (co_cfg s)) \<and>
     (\<forall>n ts. co_tenants s n = Some ts \<longrightarrow>
        bucket_ok (bucket ts) \<and> map_of (c_Tenants (co_cfg s)) n = Some (b_rate (bucket ts)) \<and>
        b_cap (bucket ts) = b_rate (bucket ts)) \<and>
     dom (co_tenants s) = fst ` set (c_Tenants (co_cfg s))"

lemma burst_one_second: "is_float64 r \<Longrightarrow> fmul r BurstSeconds = r"
  by (simp add: fmul_def BurstSeconds_def rnd_id)

lemma server_ok_New [wf_intros]:
  assumes "config_valid c" and "config_typed c" and "rates_ok c"
  shows "server_ok (Coordinator_New started now c)"
proof -
  have d: "distinct (map fst (c_Tenants c))" using assms(2) by (simp add: config_typed_def)
  have b: "bucket_ok (Bucket_New r (fmul r BurstSeconds) now) \<and> fmul r BurstSeconds = r"
    if "map_of (c_Tenants c) n = Some r" for n r
  proof -
    have "(n, r) \<in> set (c_Tenants c)" using that by (rule map_of_SomeD)
    then have "is_float64 r" "0 < r" "r \<le> 2 ^ 53"
      using assms by (auto simp: config_typed_def rates_ok_def)
    then show ?thesis by (simp add: burst_one_second bucket_ok_New)
  qed
  have "dom (new_tenants now (c_Tenants c) Map.empty) = fst ` set (c_Tenants c)"
  proof -
    have "new_tenants now (c_Tenants c) Map.empty n \<noteq> None \<longleftrightarrow> map_of (c_Tenants c) n \<noteq> None" for n
      by (simp add: new_tenants_map [OF d] split: option.splits)
    then have "dom (new_tenants now (c_Tenants c) Map.empty) = dom (map_of (c_Tenants c))"
      by (simp only: dom_def)
    then show ?thesis by (simp only: dom_map_of_conv_image_fst)
  qed
  moreover have "bucket_ok (bucket ts) \<and> map_of (c_Tenants c) n = Some (b_rate (bucket ts)) \<and>
      b_cap (bucket ts) = b_rate (bucket ts)"
    if new: "new_tenants now (c_Tenants c) Map.empty n = Some ts" for n ts
  proof -
    obtain r where r: "map_of (c_Tenants c) n = Some r"
      using new by (cases "map_of (c_Tenants c) n") (simp_all add: new_tenants_map [OF d])
    then have ts: "bucket ts = Bucket_New r (fmul r BurstSeconds) now"
      using new by (auto simp: new_tenants_map [OF d])
    show ?thesis using b [OF r] r unfolding ts by (auto simp: Bucket_New_def)
  qed
  ultimately show ?thesis
    using assms(1) by (simp add: server_ok_def Coordinator_New_def config_valid_def)
qed

section \<open>One lease request\<close>

lemma refill_after_take: "TakeUpTo n now b = (g, b') \<Longrightarrow> refillLocked now b' = b'"
  using TakeUpTo_fields(3) [of n now b g b'] by (simp add: refillLocked_def)

lemma NextTokenIn_bucket: "NextTokenIn now b = (d, b') \<Longrightarrow> b' = refillLocked now b"
  by (auto simp: NextTokenIn_def Let_def split: if_splits)

lemma lease_tenant_take:
  assumes "lease_tenant n dur now ts = (resp, ts')"
  shows "TakeUpTo n now (bucket ts) = (Granted resp, bucket ts')" and "TTLMs resp = dur"
  using assms
  by (auto simp: lease_tenant_def Let_def refill_after_take dest!: NextTokenIn_bucket
      split: prod.splits if_splits)

lemma lease_tenant_counters:
  assumes "lease_tenant n dur now ts = (resp, ts')"
  shows "leaseRequests ts' = i64 (leaseRequests ts + 1)"
    and "zeroGrants ts' = (if Granted resp = 0 then i64 (zeroGrants ts + 1) else zeroGrants ts)"
    and "tokensGranted ts' =
      (if Granted resp = 0 then tokensGranted ts else i64 (tokensGranted ts + Granted resp))"
  using assms by (auto simp: lease_tenant_def Let_def split: prod.splits if_splits)

lemma NextTokenIn_nonneg:
  assumes ok: "bucket_ok b" and r: "1 / 2 ^ 30 \<le> b_rate b" and n: "NextTokenIn now b = (d, b')"
  shows "0 \<le> d" and "d < 2 ^ 61"
proof -
  let ?t = "b_tokens (refillLocked now b)" and ?r = "b_rate b"
  have t0: "0 \<le> ?t" using bucket_ok_refill [OF ok, of now] by (simp add: bucket_ok_def)
  have r0: "0 < ?r" using ok by (simp add: bucket_ok_def)
  have "0 \<le> d \<and> d < 2 ^ 61"
  proof (cases "1 \<le> ?t")
    case True
    then show ?thesis using n by (simp add: NextTokenIn_def Let_def)
  next
    case False
    let ?x = "rnd (1 - ?t)"
    have x: "0 \<le> ?x" "?x \<le> 1"
      using rnd_mono [of "1 - ?t" 1] t0 False by (auto intro: rnd_nonneg)
    have "?x / ?r \<le> 1 / (1 / 2 ^ 30)" using x r r0 by (intro frac_le) auto
    then have "rnd (?x / ?r) \<le> rnd (1 / (1 / 2 ^ 30))" by (rule rnd_mono)
    then have y: "rnd (?x / ?r) \<le> 2 ^ 30" "0 \<le> rnd (?x / ?r)"
      using x r0 by (auto intro: rnd_nonneg)
    let ?z = "rnd (rnd (?x / ?r) * 1000000000)"
    have f60: "is_float64 (2 ^ 60)"
      using is_float64_grid [of 1 60] by (simp add: powi2_nat)
    have "rnd (?x / ?r) * 1000000000 \<le> 2 ^ 60" using y by simp
    then have z: "?z \<le> 2 ^ 60" "0 \<le> ?z"
      using rnd_le [OF f60] y(2) by (blast, simp add: rnd_nonneg)
    have "d = int_of_float ?z"
      using n False r0
      by (auto simp: NextTokenIn_def Let_def fsub_def fdiv_def fmul_def float_of_int_def Second_def)
    moreover have "?z < 2 ^ 63" using z(1) by simp
    ultimately have d: "d = \<lfloor>?z\<rfloor>" using z(2) by (simp add: int_of_float_floor)
    show ?thesis using z unfolding d by (simp add: floor_less_iff)
  qed
  then show "0 \<le> d" and "d < 2 ^ 61" by auto
qed

text \<open>A zero grant carries a pacing hint of at least a millisecond.\<close>

lemma lease_tenant_retry:
  assumes ok: "bucket_ok (bucket ts)" and r: "1 / 2 ^ 30 \<le> b_rate (bucket ts)"
    and l: "lease_tenant n dur now ts = (resp, ts')" and z: "Granted resp = 0" and n: "0 \<le> n"
  shows "1 \<le> RetryAfterMs resp"
    and "\<exists>d. NextTokenIn now (bucket ts') = (d, bucket ts') \<and> RetryAfterMs resp = d div 1000000 + 1"
proof -
  have t: "TakeUpTo n now (bucket ts) = (0, bucket ts')"
    using lease_tenant_take(1) [OF l] z by simp
  have ok': "bucket_ok (bucket ts')" by (rule bucket_ok_TakeUpTo [OF ok n t])
  have r': "1 / 2 ^ 30 \<le> b_rate (bucket ts')" using r TakeUpTo_fields(1) [OF t] by simp
  obtain d where d: "NextTokenIn now (bucket ts') = (d, bucket ts')"
    using NextTokenIn_bucket refill_after_take [OF t] by (metis surj_pair)
  have "0 \<le> d" and "d < 2 ^ 61" using NextTokenIn_nonneg [OF ok' r' d] by auto
  moreover have "RetryAfterMs resp = i64 (Milliseconds d + 1)"
    using l z t d by (auto simp: lease_tenant_def Let_def split: prod.splits if_splits)
  ultimately have "RetryAfterMs resp = d div 1000000 + 1"
    by (simp add: Milliseconds_pos i64_id in_i64_nonneg)
  then show "1 \<le> RetryAfterMs resp"
    and "\<exists>d. NextTokenIn now (bucket ts') = (d, bucket ts') \<and> RetryAfterMs resp = d div 1000000 + 1"
    using d \<open>0 \<le> d\<close> by auto
qed

section \<open>The tenant state is a token source\<close>

definition lease_tk :: "int \<Rightarrow> int \<Rightarrow> time \<Rightarrow> tenantState \<Rightarrow> int \<times> tenantState" where
  "lease_tk dur n now ts = (let (resp, ts') = lease_tenant n dur now ts in (Granted resp, ts'))"

lemma lease_tk_take:
  "lease_tk dur n now ts = (g, ts') \<Longrightarrow> TakeUpTo n now (bucket ts) = (g, bucket ts')"
  by (auto simp: lease_tk_def lease_tenant_take split: prod.splits)

interpretation tnt: token_source "lease_tk dur" "\<lambda>ts. bucket_ok (bucket ts)"
  "\<lambda>ts. b_tokens (bucket ts)" "\<lambda>ts. b_last (bucket ts)"
  "\<lambda>ts. bucket_speed (bucket ts)" "\<lambda>ts. bucket_slack (bucket ts)" for dur
  by unfold_locales
    (auto dest!: lease_tk_take intro: bkt.tk_ok bkt.level_nonneg
      simp: bkt.tk_stamp bkt.tk_params dest: bkt.tk_bounds bkt.tk_level)

section \<open>The handler\<close>

text \<open>The tokens a response hands to tenant \<open>t\<close>.\<close>

fun body_granted :: "body \<Rightarrow> int" where
  "body_granted (Json (JObj ((k, JInt g) # ms))) = (if k = ''granted'' then g else 0)"
| "body_granted _ = 0"

definition granted_to :: "string \<Rightarrow> body \<Rightarrow> response \<Rightarrow> int" where
  "granted_to t b r =
     (case decode_LeaseRequest b of
        Some req \<Rightarrow> if lq_Tenant req = t then body_granted (rs_body r) else 0
      | None \<Rightarrow> 0)"

lemma body_granted_encode [simp]: "body_granted (Json (encode_LeaseResponse r)) = Granted r"
  by (simp add: encode_LeaseResponse_def)

lemma body_granted_error [simp]: "body_granted (error_body msg) = 0"
  by (simp add: error_body_def)

text \<open>The tenant a body asks for, if the request is well formed.\<close>

definition asked_tenant :: "body \<Rightarrow> string option" where
  "asked_tenant b =
     (case decode_LeaseRequest b of
        Some req \<Rightarrow> if lq_Tenant req = '''' then None else Some (lq_Tenant req)
      | None \<Rightarrow> None)"

lemma handleLease_bad:
  "asked_tenant b = None \<Longrightarrow>
    handleLease now b s = (respond StatusBadRequest (error_body ''bad request''), s)"
  by (cases "decode_LeaseRequest b") (auto simp: handleLease_def asked_tenant_def split: if_splits)

lemma handleLease_unknown:
  "asked_tenant b = Some t \<Longrightarrow> co_tenants s t = None \<Longrightarrow>
    handleLease now b s = (respond StatusNotFound (error_body ''unknown tenant''), s)"
  by (cases "decode_LeaseRequest b") (auto simp: handleLease_def asked_tenant_def split: if_splits)

lemma handleLease_known:
  "asked_tenant b = Some t \<Longrightarrow> co_tenants s t = Some ts \<Longrightarrow>
    lease_tenant (Size (c_Lease (co_cfg s))) (DurationMs (c_Lease (co_cfg s))) now ts = (resp, ts') \<Longrightarrow>
    handleLease now b s = (respond StatusOK (Json (encode_LeaseResponse resp)),
      s\<lparr>co_tenants := (co_tenants s)(t \<mapsto> ts')\<rparr>)"
  by (cases "decode_LeaseRequest b") (auto simp: handleLease_def asked_tenant_def split: if_splits)

lemma granted_to_asked:
  "granted_to t b r =
    (if asked_tenant b = Some t \<or> (t = '''' \<and> asked_tenant b = None \<and> decode_LeaseRequest b \<noteq> None)
     then body_granted (rs_body r) else 0)"
  by (auto simp: granted_to_def asked_tenant_def split: option.splits)

lemma handleLease_cases:
  assumes "handleLease now b s = (r, s')"
  obtains (bad) "asked_tenant b = None" and "r = respond StatusBadRequest (error_body ''bad request'')" and "s' = s"
  | (unknown) t where "asked_tenant b = Some t" and "co_tenants s t = None"
      and "r = respond StatusNotFound (error_body ''unknown tenant'')" and "s' = s"
  | (lease) t ts resp ts' where "asked_tenant b = Some t" and "co_tenants s t = Some ts"
      and "lease_tenant (Size (c_Lease (co_cfg s))) (DurationMs (c_Lease (co_cfg s))) now ts = (resp, ts')"
      and "r = respond StatusOK (Json (encode_LeaseResponse resp))"
      and "s' = s\<lparr>co_tenants := (co_tenants s)(t \<mapsto> ts')\<rparr>"
proof (cases "asked_tenant b")
  case None
  have "r = respond StatusBadRequest (error_body ''bad request'')" and "s' = s"
    using assms unfolding handleLease_bad [OF None] by auto
  then show ?thesis by (rule bad [OF None])
next
  case (Some t)
  show ?thesis
  proof (cases "co_tenants s t")
    case None
    have "r = respond StatusNotFound (error_body ''unknown tenant'')" and "s' = s"
      using assms unfolding handleLease_unknown [OF Some None] by auto
    then show ?thesis by (rule unknown [OF Some None])
  next
    case ts: (Some ts)
    obtain resp ts' where l: "lease_tenant (Size (c_Lease (co_cfg s)))
        (DurationMs (c_Lease (co_cfg s))) now ts = (resp, ts')"
      by fastforce
    have "r = respond StatusOK (Json (encode_LeaseResponse resp))"
      and "s' = s\<lparr>co_tenants := (co_tenants s)(t \<mapsto> ts')\<rparr>"
      using assms unfolding handleLease_known [OF Some ts l] by auto
    then show ?thesis by (rule lease [OF Some ts l])
  qed
qed

lemma handleLease_cfg [simp]: "handleLease now b s = (r, s') \<Longrightarrow> co_cfg s' = co_cfg s"
  by (erule handleLease_cases) simp_all

lemma handleLease_dom: "handleLease now b s = (r, s') \<Longrightarrow> dom (co_tenants s') = dom (co_tenants s)"
  by (erule handleLease_cases) (auto simp: domIff)

text \<open>Seen from one tenant, a request is either a lease of that tenant or changes nothing.\<close>

lemma handleLease_tenant:
  assumes h: "handleLease now b s = (r, s')" and ts: "co_tenants s t = Some ts"
  obtains (other) "co_tenants s' t = Some ts" and "granted_to t b r = 0"
  | (lease) resp ts' where "co_tenants s' t = Some ts'"
      and "lease_tenant (Size (c_Lease (co_cfg s))) (DurationMs (c_Lease (co_cfg s))) now ts = (resp, ts')"
      and "granted_to t b r = Granted resp"
      and "r = respond StatusOK (Json (encode_LeaseResponse resp))"
  using h
proof (cases rule: handleLease_cases)
  case bad
  then show ?thesis using ts other by (simp add: granted_to_asked respond_def)
next
  case (unknown u)
  then show ?thesis using ts other by (auto simp: granted_to_asked respond_def)
next
  case l: (lease u us resp us')
  show ?thesis
  proof (cases "u = t")
    case True
    then have "us = ts" using l ts by simp
    then show ?thesis using l lease [of us' resp] True by (simp add: granted_to_asked respond_def)
  next
    case False
    then show ?thesis using l ts other by (simp add: granted_to_asked)
  qed
qed

lemma server_ok_handleLease [wf_intros]:
  assumes ok: "server_ok s" and h: "handleLease now b s = (r, s')"
  shows "server_ok s'"
proof -
  have cfg: "co_cfg s' = co_cfg s" using h by simp
  have n: "0 \<le> Size (c_Lease (co_cfg s))" using ok by (simp add: server_ok_def)
  have "bucket_ok (bucket ts') \<and>
      map_of (c_Tenants (co_cfg s)) t = Some (b_rate (bucket ts')) \<and>
      b_cap (bucket ts') = b_rate (bucket ts')"
    if ts': "co_tenants s' t = Some ts'" for t ts'
  proof -
    obtain ts where ts: "co_tenants s t = Some ts"
      using ts' handleLease_dom [OF h] by (metis domD domI)
    have old: "bucket_ok (bucket ts)" "map_of (c_Tenants (co_cfg s)) t = Some (b_rate (bucket ts))"
        "b_cap (bucket ts) = b_rate (bucket ts)"
      using ok ts by (auto simp: server_ok_def)
    from h ts show ?thesis
    proof (cases rule: handleLease_tenant)
      case other
      then show ?thesis using ts' old by simp
    next
      case (lease resp us)
      then have tk: "TakeUpTo (Size (c_Lease (co_cfg s))) now (bucket ts) = (Granted resp, bucket ts')"
        using lease_tenant_take(1) ts' by auto
      show ?thesis
        using old TakeUpTo_fields [OF tk] bucket_ok_TakeUpTo [OF old(1) n tk] by simp
    qed
  qed
  then show ?thesis
    using ok handleLease_dom [OF h] cfg by (auto simp: server_ok_def)
qed

lemma granted_to_unknown:
  "handleLease now b s = (r, s') \<Longrightarrow> co_tenants s t = None \<Longrightarrow> granted_to t b r = 0"
  by (erule handleLease_cases) (auto simp: granted_to_asked respond_def)

text \<open>The law of the token source, lifted to the handler.\<close>

lemma handleLease_level:
  assumes ok: "server_ok s" and h: "handleLease now b s = (r, s')" and ts: "co_tenants s t = Some ts"
  obtains ts' where "co_tenants s' t = Some ts'"
    and "0 \<le> granted_to t b r" and "granted_to t b r \<le> Size (c_Lease (co_cfg s))"
    and "b_tokens (bucket ts') + of_int (granted_to t b r) \<le>
      b_tokens (bucket ts) + bucket_speed (bucket ts) * secs (b_last (bucket ts') - b_last (bucket ts)) +
      bucket_slack (bucket ts)"
    and "b_tokens (bucket ts') + of_int (granted_to t b r) \<le> b_cap (bucket ts)"
    and "b_last (bucket ts) \<le> b_last (bucket ts')"
    and "granted_to t b r = 0 \<and> ts' = ts \<or> b_last (bucket ts') = max (b_last (bucket ts)) now"
    and "b_last (bucket ts') \<le> max (b_last (bucket ts)) now"
    and "bucket_speed (bucket ts') = bucket_speed (bucket ts)"
    and "bucket_slack (bucket ts') = bucket_slack (bucket ts)"
proof -
  have n: "0 \<le> Size (c_Lease (co_cfg s))" and b: "bucket_ok (bucket ts)"
    using ok ts by (auto simp: server_ok_def)
  have sl: "0 \<le> bucket_slack (bucket ts)" using b by (simp add: bucket_slack_def bucket_ok_def)
  from h ts show thesis
  proof (cases rule: handleLease_tenant)
    case other
    show thesis
      by (rule that [of ts]) (use other n sl b in \<open>auto simp: secs_def bucket_ok_def\<close>)
  next
    case (lease resp ts')
    have tk: "lease_tk (DurationMs (c_Lease (co_cfg s))) (Size (c_Lease (co_cfg s))) now ts =
        (Granted resp, ts')"
      by (simp add: lease_tk_def lease(2))
    have cap: "b_tokens (bucket ts') + of_int (Granted resp) \<le> b_cap (bucket ts)"
      using TakeUpTo_level [OF b n lease_tk_take [OF tk]] bucket_ok_refill [OF b, of now]
      by (simp add: bucket_ok_def)
    show thesis
      by (rule that [of ts'])
        (use cap lease tnt.tk_bounds [OF b n tk] tnt.tk_level [OF b n tk] tnt.tk_stamp [OF b tk]
          tnt.tk_params [OF b tk] in auto)
  qed
qed

section \<open>Sequences of lease requests\<close>

text \<open>The requests in the order of their debits, each with the clock reading of its handler.\<close>

fun lease_run :: "(time \<times> body) list \<Rightarrow> CServer \<Rightarrow> (body \<times> response) list \<times> CServer" where
  "lease_run [] s = ([], s)"
| "lease_run ((now, b) # rs) s =
     (let (r, s') = handleLease now b s; (out, s'') = lease_run rs s' in ((b, r) # out, s''))"

definition run_granted :: "string \<Rightarrow> (body \<times> response) list \<Rightarrow> int" where
  "run_granted t out = sum_list (map (\<lambda>(b, r). granted_to t b r) out)"

lemma lease_run_ok:
  "server_ok s \<Longrightarrow> lease_run rs s = (out, s') \<Longrightarrow>
    server_ok s' \<and> co_cfg s' = co_cfg s \<and> dom (co_tenants s') = dom (co_tenants s)"
proof (induction rs arbitrary: s out)
  case (Cons x rs)
  obtain now b where x: "x = (now, b)" by fastforce
  obtain r s1 where h: "handleLease now b s = (r, s1)" by fastforce
  obtain out1 where run: "lease_run rs s1 = (out1, s')"
    using Cons.prems(2) h by (auto simp: x split: prod.splits)
  show ?case
    using Cons.IH [OF server_ok_handleLease [OF Cons.prems(1) h] run] handleLease_dom [OF h]
      handleLease_cfg [OF h] by simp
qed simp

lemma lease_run_level:
  "server_ok s \<Longrightarrow> lease_run rs s = (out, s') \<Longrightarrow> co_tenants s t = Some ts \<Longrightarrow>
    \<exists>ts'. co_tenants s' t = Some ts' \<and>
      b_tokens (bucket ts') + of_int (run_granted t out) \<le>
        b_tokens (bucket ts) + bucket_speed (bucket ts) * secs (b_last (bucket ts') - b_last (bucket ts)) +
        of_nat (length rs) * bucket_slack (bucket ts)"
proof (induction rs arbitrary: s out ts)
  case Nil
  then show ?case by (simp add: run_granted_def secs_def)
next
  case (Cons x rs)
  obtain now b where x: "x = (now, b)" by fastforce
  obtain r s1 where h: "handleLease now b s = (r, s1)" by fastforce
  obtain out1 where run: "lease_run rs s1 = (out1, s')" and out: "out = (b, r) # out1"
    using Cons.prems(2) h by (auto simp: x split: prod.splits)
  obtain ts1 where ts1: "co_tenants s1 t = Some ts1"
    and lev: "b_tokens (bucket ts1) + of_int (granted_to t b r) \<le>
      b_tokens (bucket ts) + bucket_speed (bucket ts) * secs (b_last (bucket ts1) - b_last (bucket ts)) +
      bucket_slack (bucket ts)"
    and par: "bucket_speed (bucket ts1) = bucket_speed (bucket ts)"
      "bucket_slack (bucket ts1) = bucket_slack (bucket ts)"
    using handleLease_level [OF Cons.prems(1) h Cons.prems(3)] by metis
  obtain ts' where ts': "co_tenants s' t = Some ts'"
    and ih: "b_tokens (bucket ts') + of_int (run_granted t out1) \<le>
      b_tokens (bucket ts1) + bucket_speed (bucket ts1) * secs (b_last (bucket ts') - b_last (bucket ts1)) +
      of_nat (length rs) * bucket_slack (bucket ts1)"
    using Cons.IH [OF server_ok_handleLease [OF Cons.prems(1) h] run ts1] by blast
  have "secs (b_last (bucket ts') - b_last (bucket ts)) =
      secs (b_last (bucket ts') - b_last (bucket ts1)) + secs (b_last (bucket ts1) - b_last (bucket ts))"
    by (simp flip: secs_add)
  then show ?case
    using lev ih par ts' by (simp add: out run_granted_def algebra_simps)
qed

text \<open>The counters of one tenant after a run.\<close>

definition run_zero :: "string \<Rightarrow> (body \<times> response) list \<Rightarrow> int" where
  "run_zero t out = int (length (filter (\<lambda>(b, r). asked_tenant b = Some t \<and> body_granted (rs_body r) = 0) out))"

definition run_asked :: "string \<Rightarrow> (body \<times> response) list \<Rightarrow> int" where
  "run_asked t out = int (length (filter (\<lambda>(b, r). asked_tenant b = Some t) out))"

definition counters_after :: "string \<Rightarrow> (body \<times> response) list \<Rightarrow> tenantState \<Rightarrow> tenantState \<Rightarrow> bool" where
  "counters_after t out ts ts' \<longleftrightarrow>
     leaseRequests ts' = i64 (leaseRequests ts + run_asked t out) \<and>
     zeroGrants ts' = i64 (zeroGrants ts + run_zero t out) \<and>
     tokensGranted ts' = i64 (tokensGranted ts + run_granted t out)"

definition counters_typed :: "tenantState \<Rightarrow> bool" where
  "counters_typed ts \<longleftrightarrow> in_i64 (leaseRequests ts) \<and> in_i64 (zeroGrants ts) \<and> in_i64 (tokensGranted ts)"

lemma handleLease_counters:
  assumes h: "handleLease now b s = (r, s')" and ts: "co_tenants s t = Some ts" and ty: "counters_typed ts"
  obtains ts' where "co_tenants s' t = Some ts'" and "counters_after t [(b, r)] ts ts'"
  using h
proof (cases rule: handleLease_cases)
  case bad
  then show ?thesis
    using ts ty that [of ts]
    by (simp add: counters_after_def run_asked_def run_zero_def run_granted_def counters_typed_def i64_id
        granted_to_asked)
next
  case (unknown u)
  moreover have "u \<noteq> t" using unknown(2) ts by auto
  ultimately show ?thesis
    using ts ty that [of ts]
    by (simp add: counters_after_def run_asked_def run_zero_def run_granted_def counters_typed_def i64_id
        granted_to_asked)
next
  case (lease u us resp us')
  show ?thesis
  proof (cases "u = t")
    case True
    then have us: "us = ts" using lease ts by simp
    have "counters_after t [(b, r)] ts us'"
      using lease_tenant_counters [OF lease(3)] ty lease True us
      by (auto simp: counters_after_def run_asked_def run_zero_def run_granted_def granted_to_asked
          counters_typed_def i64_id)
    then show ?thesis using that [of us'] lease True by simp
  next
    case False
    then show ?thesis
      using ts ty lease that [of ts]
      by (simp add: counters_after_def run_asked_def run_zero_def run_granted_def counters_typed_def i64_id
          granted_to_asked)
  qed
qed

lemma counters_after_trans:
  "counters_after t o1 ts ts1 \<Longrightarrow> counters_after t o2 ts1 ts2 \<Longrightarrow> counters_after t (o1 @ o2) ts ts2"
  by (auto simp: counters_after_def run_asked_def run_zero_def run_granted_def i64_add_left add.assoc)

lemma lease_run_counters:
  "lease_run rs s = (out, s') \<Longrightarrow> co_tenants s t = Some ts \<Longrightarrow> counters_typed ts \<Longrightarrow>
    \<exists>ts'. co_tenants s' t = Some ts' \<and> counters_after t out ts ts'"
proof (induction rs arbitrary: s out ts)
  case Nil
  then show ?case
    by (simp add: counters_after_def run_asked_def run_zero_def run_granted_def counters_typed_def i64_id)
next
  case (Cons x rs)
  obtain now b where x: "x = (now, b)" by fastforce
  obtain r s1 where h: "handleLease now b s = (r, s1)" by fastforce
  obtain out1 where run: "lease_run rs s1 = (out1, s')" and out: "out = (b, r) # out1"
    using Cons.prems(1) h by (auto simp: x split: prod.splits)
  obtain ts1 where ts1: "co_tenants s1 t = Some ts1" and c: "counters_after t [(b, r)] ts ts1"
    using handleLease_counters [OF h Cons.prems(2,3)] .
  have "counters_typed ts1" using c by (simp add: counters_after_def counters_typed_def)
  then obtain ts' where "co_tenants s' t = Some ts'" "counters_after t out1 ts1 ts'"
    using Cons.IH [OF run ts1] by blast
  then show ?case using counters_after_trans [OF c] by (auto simp: out)
qed

section \<open>Properties\<close>

definition sample_server :: CServer where
  "sample_server = Coordinator_New 0 0
     \<lparr>c_Lease = \<lparr>Size = 4, DurationMs = 1000\<rparr>, c_Tenants = [(''a'', 1), (''b'', 7)]\<rparr>"

definition ask :: "string \<Rightarrow> body" where
  "ask t = Json (JObj [(''tenant'', JStr t)])"

lemmas coord_exec = sample_server_def Coordinator_New_def handleLease_def lease_tenant_def
  decode_LeaseRequest_def set_LeaseRequest_def ask_def key_match_def lower_char_def bucket_exec
  BurstSeconds_def asked_tenant_def granted_to_def run_granted_def run_asked_def run_zero_def
  Milliseconds_def Millisecond_def i64_def

lemma sample_ok: "server_ok sample_server"
  unfolding sample_server_def
  by (rule server_ok_New)
    (auto simp: config_valid_def config_typed_def rates_ok_def in_i64_def min_i64_def max_i64_def
      is_float64_def)

text \<open>C21. Every branch of the lease handler. A body that does not decode or names no tenant is a bad
  request, a tenant without a bucket is not found, and both leave the server as it was. Otherwise the
  answer carries what \<open>TakeUpTo\<close> took from that tenant's bucket for the configured lease size, the
  configured duration, and a pacing hint only with a zero grant; only that tenant's state changes.\<close>

theorem handleLease_branches:
  "(asked_tenant b = None \<longrightarrow>
      handleLease now b s = (respond StatusBadRequest (error_body ''bad request''), s)) \<and>
   (\<forall>t. asked_tenant b = Some t \<longrightarrow> co_tenants s t = None \<longrightarrow>
      handleLease now b s = (respond StatusNotFound (error_body ''unknown tenant''), s)) \<and>
   (\<forall>t ts. asked_tenant b = Some t \<longrightarrow> co_tenants s t = Some ts \<longrightarrow>
      (\<exists>resp ts'. handleLease now b s =
           (respond StatusOK (Json (encode_LeaseResponse resp)), s\<lparr>co_tenants := (co_tenants s)(t \<mapsto> ts')\<rparr>) \<and>
         TakeUpTo (Size (c_Lease (co_cfg s))) now (bucket ts) = (Granted resp, bucket ts') \<and>
         TTLMs resp = DurationMs (c_Lease (co_cfg s)) \<and>
         (Granted resp \<noteq> 0 \<longrightarrow> RetryAfterMs resp = 0)))"
proof (intro conjI allI impI)
  show "handleLease now b s = (respond StatusBadRequest (error_body ''bad request''), s)"
    if "asked_tenant b = None" by (rule handleLease_bad [OF that])
  show "handleLease now b s = (respond StatusNotFound (error_body ''unknown tenant''), s)"
    if "asked_tenant b = Some t" "co_tenants s t = None" for t by (rule handleLease_unknown [OF that])
  fix t ts
  assume a: "asked_tenant b = Some t" "co_tenants s t = Some ts"
  obtain resp ts' where l: "lease_tenant (Size (c_Lease (co_cfg s))) (DurationMs (c_Lease (co_cfg s))) now ts =
      (resp, ts')"
    by fastforce
  have "Granted resp \<noteq> 0 \<longrightarrow> RetryAfterMs resp = 0"
    using l by (auto simp: lease_tenant_def Let_def split: prod.splits if_splits)
  then show "\<exists>resp ts'. handleLease now b s =
           (respond StatusOK (Json (encode_LeaseResponse resp)), s\<lparr>co_tenants := (co_tenants s)(t \<mapsto> ts')\<rparr>) \<and>
         TakeUpTo (Size (c_Lease (co_cfg s))) now (bucket ts) = (Granted resp, bucket ts') \<and>
         TTLMs resp = DurationMs (c_Lease (co_cfg s)) \<and>
         (Granted resp \<noteq> 0 \<longrightarrow> RetryAfterMs resp = 0)"
    using handleLease_known [OF a l] lease_tenant_take [OF l] by blast
qed

theorem handleLease_branches_witness:
  "handleLease 0 (ask '''') sample_server =
     (respond StatusBadRequest (error_body ''bad request''), sample_server) \<and>
   handleLease 0 (ask ''zz'') sample_server =
     (respond StatusNotFound (error_body ''unknown tenant''), sample_server) \<and>
   (\<exists>resp s'. handleLease 0 (ask ''a'') sample_server = (respond StatusOK (Json (encode_LeaseResponse resp)), s'))"
proof -
  have k: "co_tenants sample_server ''zz'' = None" "co_tenants sample_server ''a'' \<noteq> None"
    by (simp_all add: sample_server_def Coordinator_New_def)
  have a: "asked_tenant (ask '''') = None" "asked_tenant (ask ''zz'') = Some ''zz''"
      "asked_tenant (ask ''a'') = Some ''a''"
    by (simp_all add: asked_tenant_def ask_def decode_LeaseRequest_def set_LeaseRequest_def key_match_def)
  show ?thesis
    using handleLease_branches [of "ask ''''" 0 sample_server] handleLease_branches [of "ask ''zz''" 0 sample_server]
      handleLease_branches [of "ask ''a''" 0 sample_server] k a by blast
qed

text \<open>C4. Whatever requests arrive, for whatever tenants and in whatever order their handlers debit
  the buckets, the tokens handed to one tenant are bounded by the level of its bucket and its rate.
  Requests of other tenants have no influence.\<close>

theorem coordinator_window:
  assumes "server_ok s" and "lease_run rs s = (out, s')" and "co_tenants s t = Some ts"
  shows "\<exists>ts'. co_tenants s' t = Some ts' \<and>
      of_int (run_granted t out) \<le>
        b_tokens (bucket ts) + b_rate (bucket ts) * (1 + 1 / 2 ^ 49) * secs (b_last (bucket ts') - b_last (bucket ts)) +
        of_nat (length rs) * (b_cap (bucket ts) / 2 ^ 53 + 2 * tiny64)"
proof -
  obtain ts' where ts': "co_tenants s' t = Some ts'"
    and lev: "b_tokens (bucket ts') + of_int (run_granted t out) \<le>
        b_tokens (bucket ts) + bucket_speed (bucket ts) * secs (b_last (bucket ts') - b_last (bucket ts)) +
        of_nat (length rs) * bucket_slack (bucket ts)"
    using lease_run_level [OF assms] by blast
  have "0 \<le> b_tokens (bucket ts')"
    using lease_run_ok [OF assms(1,2)] ts' by (auto simp: server_ok_def bucket_ok_def)
  then show ?thesis
    using ts' lev unfolding bucket_speed_def bucket_slack_def by (intro exI [of _ ts']) linarith
qed

theorem coordinator_window_witness:
  "\<exists>out s'. lease_run [(0, ask ''a''), (0, ask ''b''), (0, ask ''a'')] sample_server = (out, s') \<and>
     run_granted ''a'' out = 1 \<and>
     (\<exists>ts ts'. co_tenants sample_server ''a'' = Some ts \<and> co_tenants s' ''a'' = Some ts' \<and>
        of_int (run_granted ''a'' out) \<le>
          b_tokens (bucket ts) + b_rate (bucket ts) * (1 + 1 / 2 ^ 49) * secs (b_last (bucket ts') - b_last (bucket ts)) +
          of_nat 3 * (b_cap (bucket ts) / 2 ^ 53 + 2 * tiny64))"
proof -
  let ?rs = "[(0, ask ''a''), (0, ask ''b''), (0, ask ''a'')] :: (time \<times> body) list"
  obtain out s' where run: "lease_run ?rs sample_server = (out, s')" by fastforce
  obtain ts where ts: "co_tenants sample_server ''a'' = Some ts"
    by (simp add: sample_server_def Coordinator_New_def)
  have "run_granted ''a'' (fst (lease_run ?rs sample_server)) = 1"
    by (simp add: coord_exec encode_LeaseResponse_def)
  then have "run_granted ''a'' out = 1" by (simp only: run fst_conv)
  then show ?thesis using coordinator_window [OF sample_ok run ts] run ts by auto
qed

text \<open>C22. The statistics are exact: after any run of requests a tenant's counters are the number of
  its requests, the number of its zero grants and the sum of its grants, added to what they were,
  modulo \<open>2 ^ 64\<close>.\<close>

theorem coordinator_counters:
  assumes "lease_run rs s = (out, s')" and "co_tenants s t = Some ts" and "counters_typed ts"
  shows "\<exists>ts'. co_tenants s' t = Some ts' \<and>
    tenant_stats ts' = \<lparr>st_LeaseRequests = i64 (leaseRequests ts + run_asked t out),
      st_ZeroGrants = i64 (zeroGrants ts + run_zero t out),
      st_TokensGranted = i64 (tokensGranted ts + run_granted t out)\<rparr>"
  using lease_run_counters [OF assms] by (auto simp: counters_after_def tenant_stats_def)

theorem coordinator_counters_witness:
  "\<exists>out s' ts'. lease_run [(0, ask ''a''), (0, ask ''a''), (0, ask ''a'')] sample_server = (out, s') \<and>
     co_tenants s' ''a'' = Some ts' \<and> tenant_stats ts' =
       \<lparr>st_LeaseRequests = i64 (0 + run_asked ''a'' out), st_ZeroGrants = i64 (0 + run_zero ''a'' out),
        st_TokensGranted = i64 (0 + run_granted ''a'' out)\<rparr> \<and>
     run_asked ''a'' out = 3 \<and> run_zero ''a'' out = 2 \<and> run_granted ''a'' out = 1"
proof -
  let ?rs = "[(0, ask ''a''), (0, ask ''a''), (0, ask ''a'')] :: (time \<times> body) list"
  obtain out s' where run: "lease_run ?rs sample_server = (out, s')" by fastforce
  obtain ts where ts: "co_tenants sample_server ''a'' = Some ts"
    and z: "leaseRequests ts = 0" "zeroGrants ts = 0" "tokensGranted ts = 0"
    by (simp add: sample_server_def Coordinator_New_def)
  then have "counters_typed ts" by (simp add: counters_typed_def in_i64_def min_i64_def max_i64_def)
  moreover have "run_asked ''a'' (fst (lease_run ?rs sample_server)) = 3"
      "run_granted ''a'' (fst (lease_run ?rs sample_server)) = 1"
      "run_zero ''a'' (fst (lease_run ?rs sample_server)) = 2"
    by (simp_all add: coord_exec encode_LeaseResponse_def)
  ultimately show ?thesis
    using coordinator_counters [OF run ts] run z unfolding run fst_conv by metis
qed

text \<open>C20. A zero grant tells the worker when to come back: the hint is at least a millisecond, and one
  millisecond after it a lease request of that tenant is granted at least one token. The rate is at
  least one token per second.\<close>

theorem retry_hint_honest:
  assumes ok: "server_ok s" and a: "asked_tenant b = Some t" and ts: "co_tenants s t = Some ts"
    and r: "1 \<le> b_rate (bucket ts)" and l: "b_last (bucket ts) \<le> now"
    and h: "handleLease now b s = (respond StatusOK (Json (encode_LeaseResponse resp)), s')"
    and z: "Granted resp = 0"
    and w: "RetryAfterMs resp * 1000000 + 1000000 \<le> w" "w \<le> max_i64"
  shows "1 \<le> RetryAfterMs resp \<and> 1 \<le> granted_to t b (fst (handleLease (now + w) b s'))"
proof -
  let ?n = "Size (c_Lease (co_cfg s))"
  obtain resp1 ts1 where l1: "lease_tenant ?n (DurationMs (c_Lease (co_cfg s))) now ts = (resp1, ts1)"
    by fastforce
  note k = handleLease_known [OF a ts l1, unfolded h]
  have e: "encode_LeaseResponse resp = encode_LeaseResponse resp1" and s': "s' = s\<lparr>co_tenants := (co_tenants s)(t \<mapsto> ts1)\<rparr>"
    using k by (auto simp: respond_def)
  have "resp1 = resp" using e by (auto simp: encode_LeaseResponse_def split: if_splits)
  note l1 = l1 [unfolded this]
  have ok1: "bucket_ok (bucket ts)" and n: "1 \<le> ?n" and cap: "b_cap (bucket ts) = b_rate (bucket ts)"
    using ok ts by (auto simp: server_ok_def)
  have n0: "0 \<le> ?n" using n by simp
  have "(1::rat) / 2 ^ 30 \<le> 1" by simp
  then have r30: "1 / 2 ^ 30 \<le> b_rate (bucket ts)" using r by (rule order_trans)
  note rt = lease_tenant_retry [OF ok1 r30 l1 z n0]
  obtain d where d: "NextTokenIn now (bucket ts1) = (d, bucket ts1)" "RetryAfterMs resp = d div 1000000 + 1"
    using rt(2) by blast
  have tk: "TakeUpTo ?n now (bucket ts) = (0, bucket ts1)" using lease_tenant_take(1) [OF l1] z by simp
  note f = TakeUpTo_fields [OF tk]
  have ok2: "bucket_ok (bucket ts1)" by (rule bucket_ok_TakeUpTo [OF ok1 n0 tk])
  have "d \<le> (d div 1000000 + 1) * 1000000" by presburger
  then have dw: "d + 1000000 \<le> w" using w(1) d(2) by simp
  have "1 \<le> b_tokens (refillLocked (now + w) (bucket ts1))"
    by (rule NextTokenIn_refill [OF ok2 _ _ d(1) dw w(2)]) (use f r cap l in auto)
  then have g: "1 \<le> min ?n \<lfloor>b_tokens (refillLocked (now + w) (bucket ts1))\<rfloor>"
    using n by (simp add: le_floor_iff)
  obtain resp2 ts2 where l2: "lease_tenant ?n (DurationMs (c_Lease (co_cfg s))) (now + w) ts1 = (resp2, ts2)"
    by fastforce
  have "1 \<le> Granted resp2"
    using lease_tenant_take(1) [OF l2] g TakeUpTo_eq [OF ok2 n0, of "now + w"] by simp
  moreover have "handleLease (now + w) b s' = (respond StatusOK (Json (encode_LeaseResponse resp2)),
      s'\<lparr>co_tenants := (co_tenants s')(t \<mapsto> ts2)\<rparr>)"
    using handleLease_known [OF a, of s' ts1 "now + w" resp2 ts2] l2 by (simp add: s')
  ultimately show ?thesis using rt(1) a by (simp add: granted_to_asked)
qed

theorem retry_hint_honest_witness:
  "\<exists>resp s' ts s''. handleLease 0 (ask ''a'') s' = (respond StatusOK (Json (encode_LeaseResponse resp)), s'') \<and>
     Granted resp = 0 \<and> RetryAfterMs resp = 1001 \<and>
     1 \<le> granted_to ''a'' (ask ''a'') (fst (handleLease (0 + 1002000000) (ask ''a'') s''))"
proof -
  let ?cfg = "\<lparr>c_Lease = \<lparr>Size = 4, DurationMs = 1000\<rparr>, c_Tenants = [(''a'', 1)]\<rparr>"
  let ?s0 = "Coordinator_New 0 0 ?cfg"
  have ok0: "server_ok ?s0"
    by (rule server_ok_New)
      (auto simp: config_valid_def config_typed_def rates_ok_def in_i64_def min_i64_def max_i64_def is_float64_def)
  obtain r s' where h0: "handleLease 0 (ask ''a'') ?s0 = (r, s')" by fastforce
  have ok: "server_ok s'" by (rule server_ok_handleLease [OF ok0 h0])
  let ?ts = "\<lparr>bucket = \<lparr>b_rate = 1, b_cap = 1, b_tokens = 0, b_last = 0\<rparr>,
    leaseRequests = 1, zeroGrants = 0, tokensGranted = 1\<rparr>"
  have s': "s' = ?s0\<lparr>co_tenants := [''a'' \<mapsto> ?ts]\<rparr>"
    using h0 by (auto simp: coord_exec)
  let ?resp = "\<lparr>Granted = 0, TTLMs = 1000, RetryAfterMs = 1001\<rparr>"
  obtain s'' where h: "handleLease 0 (ask ''a'') s' = (respond StatusOK (Json (encode_LeaseResponse ?resp)), s'')"
    by (simp add: s' coord_exec)
  have a: "asked_tenant (ask ''a'') = Some ''a''" by (simp add: coord_exec)
  have ts: "co_tenants s' ''a'' = Some ?ts" by (simp add: s')
  have "1 \<le> RetryAfterMs ?resp \<and> 1 \<le> granted_to ''a'' (ask ''a'') (fst (handleLease (0 + 1002000000) (ask ''a'') s''))"
    by (rule retry_hint_honest [OF ok a ts _ _ h]) (simp_all add: max_i64_def)
  then show ?thesis using h by (intro exI [of _ ?resp] exI) auto
qed

text \<open>C23. A coordinator that starts has a well-formed bucket of one second's burst for every configured
  tenant and for no other, and every request keeps it so, together with the set of tenants and the
  configuration. Rates are at most \<open>2 ^ 53\<close>.\<close>

theorem coordinator_invariant:
  assumes "coordinator_Run rf um path started now = Inr s"
    and typed: "\<And>raw c. um raw = Inr c \<Longrightarrow> config_typed c"
    and "rates_ok (co_cfg s)" and "lease_run rs s = (out, s')"
  shows "co_cfg s' = co_cfg s \<and> dom (co_tenants s') = fst ` set (c_Tenants (co_cfg s)) \<and>
    (\<forall>t ts. co_tenants s' t = Some ts \<longrightarrow>
       bucket_ok (bucket ts) \<and> map_of (c_Tenants (co_cfg s)) t = Some (b_rate (bucket ts)) \<and>
       b_cap (bucket ts) = b_rate (bucket ts))"
proof -
  obtain cfg where l: "Load rf um path = Inr cfg" and s: "s = Coordinator_New started now cfg"
    using assms(1) by (auto simp: coordinator_Run_def split: sum.splits)
  have v: "config_valid cfg" "config_typed cfg" using l typed by (auto simp: Load_Inr_iff)
  have "co_cfg s = cfg" by (simp add: s Coordinator_New_def)
  then have "rates_ok cfg" using assms(3) by simp
  then have "server_ok s" unfolding s by (rule server_ok_New [OF v])
  then show ?thesis using lease_run_ok [OF _ assms(4)] by (auto simp: server_ok_def)
qed

theorem coordinator_invariant_witness:
  "\<exists>s out s'. coordinator_Run (\<lambda>_. Inr ''x'') (\<lambda>_. Inr (co_cfg sample_server)) ''p'' 0 0 = Inr s \<and>
     lease_run [(0, ask ''a''), (9, ask ''zz'')] s = (out, s') \<and> dom (co_tenants s') = {''a'', ''b''}"
proof -
  let ?cfg = "\<lparr>c_Lease = \<lparr>Size = 4, DurationMs = 1000\<rparr>, c_Tenants = [(''a'', 1), (''b'', 7)]\<rparr>"
  have c: "co_cfg sample_server = ?cfg" by (simp add: sample_server_def Coordinator_New_def)
  have v: "config_valid ?cfg" "config_typed ?cfg" "rates_ok ?cfg"
    by (auto simp: config_valid_def config_typed_def rates_ok_def in_i64_def min_i64_def max_i64_def is_float64_def)
  have "Load (\<lambda>_. Inr ''x'') (\<lambda>_. Inr ?cfg) ''p'' = Inr ?cfg" by (simp add: Load_Inr_iff v)
  then have run: "coordinator_Run (\<lambda>_. Inr ''x'') (\<lambda>_. Inr ?cfg) ''p'' 0 0 = Inr sample_server"
    by (simp add: coordinator_Run_def sample_server_def)
  obtain out s' where l: "lease_run [(0, ask ''a''), (9, ask ''zz'')] sample_server = (out, s')" by fastforce
  have "co_cfg s' = co_cfg sample_server \<and> dom (co_tenants s') = fst ` set (c_Tenants (co_cfg sample_server)) \<and>
    (\<forall>t ts. co_tenants s' t = Some ts \<longrightarrow>
       bucket_ok (bucket ts) \<and> map_of (c_Tenants (co_cfg sample_server)) t = Some (b_rate (bucket ts)) \<and>
       b_cap (bucket ts) = b_rate (bucket ts))"
    by (rule coordinator_invariant [OF run _ _ l]) (use v c in auto)
  then show ?thesis using run l c by auto
qed

end
