(* ===== verification/Strconv.thy ===== *)
theory Strconv
  imports Prelude
begin

text \<open>
  What the program uses of \<open>strconv\<close> and of the verb \<open>%d\<close> of \<open>fmt\<close>: parsing
  and printing decimal integers. Printing and parsing are inverse to each other on the 64-bit range.
\<close>

section \<open>Definitions\<close>

text \<open>\<open>strconv.Atoi\<close>: an optional sign and decimal digits, in the range of \<open>int\<close>.\<close>

definition digit_val :: "char \<Rightarrow> int option" where
  "digit_val c = (let n = of_char c :: nat in if 48 \<le> n \<and> n \<le> 57 then Some (int n - 48) else None)"

fun digits_val :: "string \<Rightarrow> int \<Rightarrow> int option" where
  "digits_val [] acc = Some acc"
| "digits_val (c # cs) acc =
     (case digit_val c of None \<Rightarrow> None | Some d \<Rightarrow> digits_val cs (acc * 10 + d))"

definition unsigned_val :: "string \<Rightarrow> int option" where
  "unsigned_val s = (if s = [] then None else digits_val s 0)"

definition signed_val :: "string \<Rightarrow> int option" where
  "signed_val s =
     (case s of
        [] \<Rightarrow> None
      | c # cs \<Rightarrow> if c = CHR ''-'' then map_option uminus (unsigned_val cs)
                  else if c = CHR ''+'' then unsigned_val cs
                  else unsigned_val s)"

definition Atoi :: "string \<Rightarrow> int option" where
  "Atoi s = (case signed_val s of Some v \<Rightarrow> if in_i64 v then Some v else None | None \<Rightarrow> None)"

fun digits :: "nat \<Rightarrow> string" where
  "digits n = (if n < 10 then [char_of (48 + n)] else digits (n div 10) @ [char_of (48 + n mod 10)])"

declare digits.simps [simp del]

definition itoa :: "int \<Rightarrow> string" where
  "itoa k = (if k < 0 then CHR ''-'' # digits (nat (- k)) else digits (nat k))"

section \<open>Round trip\<close>

lemma digit_val_char: "d < 10 \<Longrightarrow> digit_val (char_of (48 + d)) = Some (int d)"
  by (simp add: digit_val_def)

lemma digits_val_snoc:
  "digits_val (xs @ [c]) acc =
    (case digits_val xs acc of None \<Rightarrow> None | Some v \<Rightarrow> map_option (\<lambda>d. v * 10 + d) (digit_val c))"
  by (induction xs acc rule: digits_val.induct) (auto split: option.splits)

lemma digits_val_digits: "digits_val (digits n) 0 = Some (int n)"
proof (induction n rule: digits.induct)
  case (1 n)
  have n: "int (n div 10) * 10 + int (n mod 10) = int n"
    by (metis div_mult_mod_eq of_nat_add of_nat_mult of_nat_numeral)
  show ?case
  proof (cases "n < 10")
    case True
    then show ?thesis by (simp add: digits.simps [of n] digit_val_char)
  next
    case False
    then show ?thesis
      unfolding digits.simps [of n] if_not_P [OF False] digits_val_snoc 1 [OF False]
      by (simp add: digit_val_char n del: of_nat_mod of_nat_div zdiv_int zmod_int)
  qed
qed

lemma digits_head: "\<exists>d < (10::nat). \<exists>cs. digits n = char_of (48 + d) # cs"
proof (induction n rule: digits.induct)
  case (1 n)
  show ?case
  proof (cases "n < 10")
    case True
    then show ?thesis by (auto simp: digits.simps [of n])
  next
    case False
    then show ?thesis using 1 by (fastforce simp: digits.simps [of n])
  qed
qed

lemma signed_val_itoa: "signed_val (itoa k) = Some k"
proof (cases "k < 0")
  case True
  then show ?thesis
    using digits_head [of "nat (- k)"] digits_val_digits [of "nat (- k)"]
    by (auto simp: itoa_def signed_val_def unsigned_val_def)
next
  case False
  obtain d :: nat and cs where d: "d < 10" "digits (nat k) = char_of (48 + d) # cs"
    using digits_head by blast
  have "char_of (48 + d) \<noteq> CHR ''-''" "char_of (48 + d) \<noteq> CHR ''+''"
    using d(1) by (auto simp: char_of_eq_iff take_bit_eq_mod)
  then show ?thesis
    using d False digits_val_digits [of "nat k"]
    by (simp add: itoa_def signed_val_def unsigned_val_def)
qed

lemma Atoi_itoa: "in_i64 k \<Longrightarrow> Atoi (itoa k) = Some k"
  by (simp add: Atoi_def signed_val_itoa)

lemma digits_chars: "set (digits n) \<subseteq> (\<lambda>d. char_of (48 + d)) ` {..<(10::nat)}"
proof (induction n rule: digits.induct)
  case (1 n)
  show ?case
  proof (cases "n < 10")
    case True
    then show ?thesis by (simp add: digits.simps [of n] image_eqI [of _ _ n])
  next
    case False
    have "char_of (48 + n mod 10) \<in> (\<lambda>d. char_of (48 + d)) ` {..<(10::nat)}"
      by (rule image_eqI [of _ _ "n mod 10"]) simp_all
    then show ?thesis using 1 [OF False] False unfolding digits.simps [of n] by simp
  qed
qed

lemma itoa_pos_chars: "0 \<le> k \<Longrightarrow> CHR ''&'' \<notin> set (itoa k) \<and> CHR ''='' \<notin> set (itoa k) \<and> itoa k \<noteq> ''''"
proof -
  assume k: "0 \<le> k"
  have ne: "char_of (48 + d) \<noteq> CHR ''&''" "char_of (48 + d) \<noteq> CHR ''=''" if "d < (10::nat)" for d
    using that by (auto simp: char_of_eq_iff take_bit_eq_mod)
  have "digits (nat k) \<noteq> ''''" using digits_head [of "nat k"] by auto
  then show ?thesis using k digits_chars [of "nat k"] ne by (fastforce simp: itoa_def)
qed

end
