(* ===== verification/Worker_Server.thy ===== *)
theory Worker_Server
  imports Limiter_Progress Coordinator Strconv
begin

text \<open>
  Package \<open>internal/worker\<close>, file \<open>server.go\<close>: the HTTP client that fetches leases
  from the coordinator, and the worker's own HTTP surface. Sending a request over the network is a
  parameter: it yields a response or a transport error (which covers the 1500 ms timeout).

  A check request runs \<open>Limiter.Check\<close>, a sequence of steps of theory
  \<open>Limiter_Steps\<close>: \<open>handleCheck_begin\<close> is what happens up to the call, and
  \<open>decision_status\<close> the status written when the call has returned its decision.
\<close>

section \<open>Definitions\<close>

record LeaseReply =
  lr_Granted :: int
  lr_TTLMs :: int
  lr_RetryAfterMs :: int

definition set_LeaseReply :: "string \<Rightarrow> json \<Rightarrow> LeaseReply \<Rightarrow> LeaseReply option" where
  "set_LeaseReply k v r =
     (if key_match ''granted'' k then map_option (\<lambda>i. r\<lparr>lr_Granted := i\<rparr>) (decode_int v (lr_Granted r))
      else if key_match ''ttlMs'' k then map_option (\<lambda>i. r\<lparr>lr_TTLMs := i\<rparr>) (decode_int v (lr_TTLMs r))
      else if key_match ''retryAfterMs'' k
      then map_option (\<lambda>i. r\<lparr>lr_RetryAfterMs := i\<rparr>) (decode_int v (lr_RetryAfterMs r))
      else Some r)"

definition decode_LeaseReply :: "body \<Rightarrow> LeaseReply option" where
  "decode_LeaseReply b = decode_struct set_LeaseReply \<lparr>lr_Granted = 0, lr_TTLMs = 0, lr_RetryAfterMs = 0\<rparr> b"

text \<open>Tenant names are valid UTF-8: \<open>json.Marshal\<close> writes them as they are.\<close>

definition lease_request :: "string \<Rightarrow> string \<Rightarrow> request" where
  "lease_request worker tenant =
     \<lparr>rq_method = ''POST'', rq_path = [''v1'', ''lease''], rq_query = [],
      rq_header = [(''Content-Type'', ''application/json'')],
      rq_body = Json (JObj [(''tenant'', JStr tenant), (''worker'', JStr worker)])\<rparr>"

definition lease_of_reply :: "string + response \<Rightarrow> lease_result" where
  "lease_of_reply reply =
     (case reply of
        Inl err \<Rightarrow> Inl (ErrLease err)
      | Inr resp \<Rightarrow>
          if rs_status resp = StatusOK
          then (case decode_LeaseReply (rs_body resp) of
                  None \<Rightarrow> Inl (ErrLease ''decode'')
                | Some lr \<Rightarrow>
                    Inr \<lparr>g_Tokens = lr_Granted lr, g_TTL = duration_of_ms (lr_TTLMs lr),
                         g_RetryAfter = duration_of_ms (lr_RetryAfterMs lr)\<rparr>)
          else if rs_status resp = StatusNotFound then Inl ErrUnknownTenant
          else Inl (ErrLease (''coordinator returned '' @ itoa (rs_status resp))))"

definition httpLeaser_Lease ::
  "(request \<Rightarrow> string + response) \<Rightarrow> string \<Rightarrow> string \<Rightarrow> lease_result" where
  "httpLeaser_Lease doRequest worker tenant = lease_of_reply (doRequest (lease_request worker tenant))"

definition query_cost :: "string \<Rightarrow> int option" where
  "query_cost cs =
     (if cs = '''' then Some 1
      else (case Atoi cs of
              None \<Rightarrow> None
            | Some v \<Rightarrow> if v < 1 \<or> v > 1000 then None else Some v))"

definition handleCheck_begin ::
  "string \<Rightarrow> (string \<times> string) list \<Rightarrow> time \<Rightarrow> lstate \<Rightarrow> response + (blocked + lstate)" where
  "handleCheck_begin tenant query now s =
     (case query_cost (get_param query ''cost'') of
        None \<Rightarrow> Inl (respond StatusBadRequest (Text ''cost must be an integer in [1,1000]''))
      | Some cost \<Rightarrow> Inr (lstep (Call tenant cost now) s))"

fun decision_status :: "Decision \<Rightarrow> int" where
  "decision_status Admit = StatusOK"
| "decision_status Reject = StatusTooManyRequests"
| "decision_status Unknown = StatusNotFound"

definition encode_counters :: "(string \<times> int) list \<Rightarrow> json" where
  "encode_counters m = JObj (map (\<lambda>(k, v). (k, JInt v)) (sort_key fst m))"

text \<open>\<open>names\<close> lists the tenants that have counters.\<close>

definition worker_handleStats :: "string \<Rightarrow> string list \<Rightarrow> lstate \<Rightarrow> response" where
  "worker_handleStats wid names s =
     respond StatusOK (Json (JObj
       [(''tenants'', JObj (List.map_filter
           (\<lambda>n. map_option (\<lambda>m. (n, encode_counters m)) (StatsSnapshot s n)) (sort names))),
        (''worker'', JStr wid)]))"

datatype worker_route = RCheck | RWorkerStats | RWorkerHealth

definition worker_routes :: "(pattern \<times> worker_route) list" where
  "worker_routes =
     [((''GET'', [Lit ''v1'', Lit ''check'', Wild]), RCheck),
      ((''GET'', [Lit ''v1'', Lit ''stats'']), RWorkerStats),
      ((''GET'', [Lit ''healthz'']), RWorkerHealth)]"

text \<open>The handler answers at once, or starts a check whose answer comes later.\<close>

definition worker_Handler ::
  "string \<Rightarrow> string list \<Rightarrow> time \<Rightarrow> request \<Rightarrow> lstate \<Rightarrow> response + (blocked + lstate)" where
  "worker_Handler wid names now r s =
     (case route worker_routes r of
        NoRoute code \<Rightarrow> Inl (respond code (Text ''''))
      | Serve RCheck vs \<Rightarrow> handleCheck_begin (hd vs) (rq_query r) now s
      | Serve RWorkerStats _ \<Rightarrow> Inl (worker_handleStats wid names s)
      | Serve RWorkerHealth _ \<Rightarrow> Inl (respond StatusOK (Text ''ok'')))"

text \<open>\<open>Run\<close> starts with an empty limiter.\<close>

definition worker_Run :: "time \<Rightarrow> lstate" where
  "worker_Run now = linit now"

section \<open>The wire contract\<close>

lemma key_match_simps [simp]:
  "key_match ''tenant'' ''tenant''" "\<not> key_match ''tenant'' ''worker''" "key_match ''worker'' ''worker''"
  "key_match ''granted'' ''granted''" "\<not> key_match ''granted'' ''ttlMs''"
  "key_match ''ttlMs'' ''ttlMs''" "\<not> key_match ''granted'' ''retryAfterMs''"
  "\<not> key_match ''ttlMs'' ''retryAfterMs''" "key_match ''retryAfterMs'' ''retryAfterMs''"
  by (simp_all add: key_match_def lower_char_def)

lemma decode_lease_request [simp]:
  "decode_LeaseRequest (rq_body (lease_request w t)) = Some \<lparr>lq_Tenant = t, lq_Worker = w\<rparr>"
  by (simp add: decode_LeaseRequest_def lease_request_def set_LeaseRequest_def)

lemma decode_encode_LeaseResponse:
  assumes "in_i64 (Granted r)" and "in_i64 (TTLMs r)" and "in_i64 (RetryAfterMs r)"
  shows "decode_LeaseReply (Json (encode_LeaseResponse r)) =
    Some \<lparr>lr_Granted = Granted r, lr_TTLMs = TTLMs r, lr_RetryAfterMs = RetryAfterMs r\<rparr>"
  using assms by (simp add: decode_LeaseReply_def encode_LeaseResponse_def set_LeaseReply_def)

lemma asked_lease_request: "t \<noteq> '''' \<Longrightarrow> asked_tenant (rq_body (lease_request w t)) = Some t"
  by (simp add: asked_tenant_def)

lemma asked_lease_request_empty: "asked_tenant (rq_body (lease_request w '''')) = None"
  by (simp add: asked_tenant_def)

text \<open>Whatever the response, a grant the client sees is the integer in its body.\<close>

lemma lease_of_reply_encode:
  assumes "in_i64 (Granted r)" and "in_i64 (TTLMs r)" and "in_i64 (RetryAfterMs r)"
  shows "lease_of_reply (Inr (respond StatusOK (Json (encode_LeaseResponse r)))) =
    Inr \<lparr>g_Tokens = Granted r, g_TTL = duration_of_ms (TTLMs r),
         g_RetryAfter = duration_of_ms (RetryAfterMs r)\<rparr>"
  using decode_encode_LeaseResponse [OF assms] by (simp add: lease_of_reply_def respond_def)

lemma lease_of_reply_errors:
  "lease_of_reply (Inl e) = Inl (ErrLease e)"
  "lease_of_reply (Inr (respond StatusNotFound b)) = Inl ErrUnknownTenant"
  "lease_of_reply (Inr (respond StatusBadRequest b)) = Inl (ErrLease (''coordinator returned '' @ itoa StatusBadRequest))"
  by (simp_all add: lease_of_reply_def respond_def status_defs)

section \<open>The coordinator as a leaser\<close>

text \<open>The results a lease call can have when coordinators with lease size \<open>L\<close> answer it: a
  transport error, or the answer of such a coordinator to the request.\<close>

definition coordinator_leaser :: "int \<Rightarrow> string \<Rightarrow> lease_result \<Rightarrow> bool" where
  "coordinator_leaser L t res \<longleftrightarrow>
     (\<exists>e. res = lease_of_reply (Inl e)) \<or>
     (\<exists>s now w. server_ok s \<and> Size (c_Lease (co_cfg s)) = L \<and>
        res = lease_of_reply (Inr (fst (handleLease now (rq_body (lease_request w t)) s))))"

lemma lease_grant_decoded:
  assumes "res = lease_of_reply (Inr (respond StatusOK (Json (encode_LeaseResponse r))))"
  shows "grant_of res = Granted r \<or> grant_of res = 0"
proof (cases "in_i64 (Granted r) \<and> in_i64 (TTLMs r) \<and> in_i64 (RetryAfterMs r)")
  case True
  then show ?thesis using assms lease_of_reply_encode [of r] by (simp add: grant_of_def)
next
  case False
  then have "decode_LeaseReply (Json (encode_LeaseResponse r)) = None \<or>
      (RetryAfterMs r = 0 \<and> in_i64 (Granted r) \<and> in_i64 (TTLMs r))"
    by (auto simp: decode_LeaseReply_def encode_LeaseResponse_def set_LeaseReply_def)
  then show ?thesis
    using assms False
    by (auto simp: lease_of_reply_def respond_def grant_of_def in_i64_nonneg)
qed

lemma handleLease_reply_grant:
  assumes ok: "server_ok s" and h: "handleLease now (rq_body (lease_request w t)) s = (r, s')"
  shows "result_ok (Size (c_Lease (co_cfg s))) (lease_of_reply (Inr r))"
    and "grant_of (lease_of_reply (Inr r)) \<le> granted_to t (rq_body (lease_request w t)) r"
proof -
  have n: "0 \<le> Size (c_Lease (co_cfg s))" using ok by (simp add: server_ok_def)
  have "result_ok (Size (c_Lease (co_cfg s))) (lease_of_reply (Inr r)) \<and>
      grant_of (lease_of_reply (Inr r)) \<le> granted_to t (rq_body (lease_request w t)) r"
    using h
  proof (cases rule: handleLease_cases)
    case bad
    then show ?thesis
      using n by (simp add: lease_of_reply_errors result_ok_def grant_of_def granted_to_def)
  next
    case (unknown u)
    then show ?thesis
      using n by (simp add: lease_of_reply_errors result_ok_def grant_of_def granted_to_def)
  next
    case (lease u ts resp ts')
    have u: "u = t" using lease(1) by (auto simp: asked_tenant_def split: if_splits)
    have b: "bucket_ok (bucket ts)" using ok lease(2) by (auto simp: server_ok_def)
    have "0 \<le> Granted resp" "Granted resp \<le> Size (c_Lease (co_cfg s))"
      using TakeUpTo_bounds [OF b n lease_tenant_take(1) [OF lease(3)]] by auto
    then show ?thesis
      using lease_grant_decoded [of "lease_of_reply (Inr r)" resp] lease(4) n u
      by (auto simp: result_ok_def granted_to_def respond_def)
  qed
  then show "result_ok (Size (c_Lease (co_cfg s))) (lease_of_reply (Inr r))"
    and "grant_of (lease_of_reply (Inr r)) \<le> granted_to t (rq_body (lease_request w t)) r" by auto
qed

interpretation wl: lease_contract "coordinator_leaser L" "max 0 L" for L
proof unfold_locales
  fix t res
  assume "coordinator_leaser L t res"
  then consider e where "res = lease_of_reply (Inl e)"
    | s now w where "server_ok s" "Size (c_Lease (co_cfg s)) = L"
        "res = lease_of_reply (Inr (fst (handleLease now (rq_body (lease_request w t)) s)))"
    unfolding coordinator_leaser_def by blast
  then show "result_ok (max 0 L) res"
  proof cases
    case 1
    then show ?thesis by (simp add: lease_of_reply_errors result_ok_def grant_of_def)
  next
    case (2 s now w)
    obtain r s' where h: "handleLease now (rq_body (lease_request w t)) s = (r, s')" by fastforce
    show ?thesis
      using handleLease_reply_grant(1) [OF 2(1) h] 2(2,3) h by (simp add: result_ok_def)
  qed
qed

section \<open>Properties\<close>

subsection \<open>A reachable state\<close>

definition demo_grant :: Grant where
  "demo_grant = \<lparr>g_Tokens = 4, g_TTL = 1000000000, g_RetryAfter = 0\<rparr>"

lemma demo_leaser: "coordinator_leaser 4 ''b'' (Inr demo_grant)"
proof -
  let ?resp = "respond StatusOK (Json (encode_LeaseResponse \<lparr>Granted = 4, TTLMs = 1000, RetryAfterMs = 0\<rparr>))"
  have "fst (handleLease 0 (rq_body (lease_request ''w'' ''b'')) sample_server) = ?resp"
    by (simp add: handleLease_def sample_server_def Coordinator_New_def lease_tenant_def bucket_exec
        BurstSeconds_def)
  moreover have "lease_of_reply (Inr ?resp) = Inr demo_grant"
    by (simp add: lease_of_reply_encode demo_grant_def in_i64_def min_i64_def max_i64_def
        duration_of_ms_def Millisecond_def i64_id)
  moreover have "Size (c_Lease (co_cfg sample_server)) = 4"
    by (simp add: sample_server_def Coordinator_New_def)
  ultimately show ?thesis unfolding coordinator_leaser_def using sample_ok by metis
qed

text \<open>A request of cost 1 waits for the first lease and is admitted; one of cost 4 finds 3 tokens and
  starts the second renewal, which brings 4 more.\<close>

definition demo_first :: "event list" where
  "demo_first = [Call ''b'' 1 5, Lock 0, LeaseStart 1]"

definition demo_rest :: "event list" where
  "demo_rest = [LeaseReturn 1 (Inr demo_grant) 6 0, RenewLock 1, Wake 0 7, Relock 0,
     Call ''b'' 4 8, Lock 2, LeaseStart 3, LeaseReturn 3 (Inr demo_grant) 9 0, RenewLock 3]"

lemma demo_waiting:
  "\<exists>s. lreach (coordinator_leaser 4) 4 s \<and> (\<exists>ch. thread_at s 0 = Some (CheckWaiting ''b'' 1 ch 5)) \<and>
     (\<exists>c. counts s ''b'' = Some c \<and> LeaseCalls c = 1)"
proof -
  obtain s where s: "lrun demo_first (linit 0) = Inr s"
    and t: "\<exists>ch. thread_at s 0 = Some (CheckWaiting ''b'' 1 ch 5)"
      "\<exists>c. counts s ''b'' = Some c \<and> LeaseCalls c = 1"
    by (simp add: demo_first_def limiter_exec i64_def)
  have "lreach (coordinator_leaser 4) 4 s"
    by (rule lreach_lrun [OF lreach.init s]) (simp add: demo_first_def limiter_exec event_ok_def)
  then show ?thesis using t by blast
qed

lemma demo_end:
  "\<exists>s p. lrun (demo_first @ demo_rest) (linit 0) = Inr s \<and> pools s ''b'' = Some p \<and> tokens p = 7 \<and>
     g_admitted s ''b'' = 1 \<and> g_received s ''b'' = 8"
  by (simp add: demo_first_def demo_rest_def demo_grant_def limiter_exec i64_def)

lemma demo_run_ok: "run_ok (coordinator_leaser 4) 4 (demo_first @ demo_rest) (linit 0)"
  using demo_leaser
  by (simp add: demo_first_def demo_rest_def demo_grant_def limiter_exec i64_def event_ok_def)

lemma demo_full:
  "\<exists>s p. lreach (coordinator_leaser 4) 4 s \<and> pools s ''b'' = Some p \<and> tokens p = 7 \<and>
     g_admitted s ''b'' = 1 \<and> g_received s ''b'' = 8"
  using demo_end lreach_lrun [OF lreach.init _ demo_run_ok] by blast

lemma demo_sizes: "sizes_ok 4 4"
  by (simp add: sizes_ok_def)

lemma max_sizes: "sizes_ok C L \<Longrightarrow> max 0 L = L"
  by (simp add: sizes_ok_def)

subsection \<open>Claims\<close>

text \<open>C6. Under every interleaving of checks and renewals and every answer coordinators with lease size
  \<open>L\<close> give, a worker's pool holds at most one lease on top of the low mark: less than the
  dearest request, or less than a fifth of the largest lease.\<close>

theorem pool_bound:
  assumes "lreach (coordinator_leaser L) C s" and "sizes_ok C L" and "pools s t = Some p"
  shows "0 \<le> tokens p \<and> tokens p \<le> max (C - 1) (max 1 (L div 5) - 1) + L \<and>
    (renewing p \<longrightarrow> tokens p \<le> max (C - 1) (max 1 (L div 5) - 1))"
  using wl.reach_pool [of L C s t p] assms max_sizes [OF assms(2)] by (simp add: pool_inv_def low_mark_def)

theorem pool_bound_witness:
  "\<exists>(s :: lstate) p. pools s ''b'' = Some p \<and> tokens p = 7 \<and> tokens p \<le> max (4 - 1) (max 1 (4 div 5) - 1) + 4"
proof -
  obtain s p where r: "lreach (coordinator_leaser 4) 4 s" and p: "pools s ''b'' = Some p" "tokens p = 7"
    using demo_full by blast
  show ?thesis using pool_bound [OF r demo_sizes p(1)] p by blast
qed

text \<open>The bound is reached, and so is not 1.2 times the lease size when requests are weighted: with
  leases of 4 tokens a request of cost 4 leaves 3 tokens behind and the pool grows to 7.\<close>

lemma pool_exceeds_slack:
  "\<exists>s p. lreach (coordinator_leaser 4) 4 s \<and> pools s ''b'' = Some p \<and> 12 * 4 < 10 * tokens p"
proof -
  obtain s p where "lreach (coordinator_leaser 4) 4 s" "pools s ''b'' = Some p" "tokens p = 7"
    using demo_full by blast
  then show ?thesis by (intro exI [of _ s] exI [of _ p]) simp
qed

text \<open>C8. At most one lease call per tenant is in flight in a worker, and the pool's flag says exactly
  whether one is; the channel of a running renewal exists and is open.\<close>

theorem single_flight:
  assumes "lreach (coordinator_leaser L) C s" and "sizes_ok C L" and "pools s t = Some p"
  shows "in_flight t s = (if renewing p then 1 else 0) \<and> (renewing p \<longleftrightarrow> renewDone p \<noteq> None) \<and>
    (\<forall>ch. renewDone p = Some ch \<longrightarrow> ch \<notin> closed_chans s)"
  using wl.reach_pool [of L C s t p] assms max_sizes [OF assms(2)] by (simp add: pool_inv_def)

theorem single_flight_witness:
  "\<exists>(s :: lstate) p. pools s ''b'' = Some p \<and> in_flight ''b'' s = (if renewing p then 1 else 0)"
proof -
  obtain s p where r: "lreach (coordinator_leaser 4) 4 s" and p: "pools s ''b'' = Some p"
    using demo_full by blast
  show ?thesis using single_flight [OF r demo_sizes p] p by blast
qed

text \<open>C9. No step of any goroutine panics: a channel is never closed twice.\<close>

theorem never_panics:
  assumes "lreach (coordinator_leaser L) C s" and "sizes_ok C L"
  shows "lstep e s \<noteq> Inl Panic"
  using wl.reach_no_panic [of L C s e] assms max_sizes [OF assms(2)] by simp

theorem never_panics_witness: "\<exists>s. lstep (RenewLock 3) s \<noteq> Inl Panic \<and> g_received s ''b'' = 8"
proof -
  obtain s where r: "lreach (coordinator_leaser 4) 4 s" and g: "g_received s ''b'' = 8"
    using demo_full by blast
  show ?thesis using never_panics [OF r demo_sizes] g by blast
qed

text \<open>C10. A worker never admits more tokens of a tenant than it was granted, and what it has granted,
  not admitted and not dropped is in the pool.\<close>

theorem admitted_le_leased:
  assumes "lreach (coordinator_leaser L) C s" and "sizes_ok C L"
  shows "g_admitted s t + (case pools s t of None \<Rightarrow> 0 | Some p \<Rightarrow> tokens p) \<le> g_received s t"
  using wl.reach_conservation [of L C s t] wl.reach_pool [of L C s t] assms max_sizes [OF assms(2)]
  by (auto simp: pool_inv_def split: option.splits)

theorem admitted_le_leased_witness:
  "\<exists>s :: lstate. g_admitted s ''b'' = 1 \<and> g_received s ''b'' = 8 \<and>
     g_admitted s ''b'' + (case pools s ''b'' of None \<Rightarrow> 0 | Some p \<Rightarrow> tokens p) \<le> g_received s ''b''"
proof -
  obtain s where r: "lreach (coordinator_leaser 4) 4 s" and g: "g_admitted s ''b'' = 1" "g_received s ''b'' = 8"
    using demo_full by blast
  show ?thesis using admitted_le_leased [OF r demo_sizes, of "''b''"] g by blast
qed

text \<open>C7. No wake-up is lost, and no check blocks for ever: a request that waits has its channel closed
  or the renewal that will close it still running, and every check can be brought to its decision by at
  most three steps of its own goroutine, whatever the coordinator does.\<close>

theorem check_returns:
  assumes "lreach (coordinator_leaser L) C s" and "sizes_ok C L"
    and "thread_at s i = Some th" and "is_check th"
  shows "(\<forall>t c ch since. th = CheckWaiting t c ch since \<longrightarrow> ch \<in> closed_chans s \<or> in_flight t s = 1) \<and>
    (\<exists>evs s' d. length evs \<le> 3 \<and> list_all (moves i) evs \<and> lrun evs s = Inr s' \<and>
       thread_at s' i = Some (CheckDone d))"
proof (intro conjI allI impI)
  show "ch \<in> closed_chans s \<or> in_flight t s = 1" if "th = CheckWaiting t c ch since" for t c ch since
    using wl.reach_waiting [of L C s i t c ch since] assms that max_sizes [OF assms(2)] by simp
  have "linv C L s" using wl.reach_inv [of L C s] assms max_sizes [OF assms(2)] by simp
  then show "\<exists>evs s' d. length evs \<le> 3 \<and> list_all (moves i) evs \<and> lrun evs s = Inr s' \<and>
       thread_at s' i = Some (CheckDone d)"
    using check_finishes [OF _ assms(3,4)] by (simp add: finishes_def)
qed

theorem check_returns_witness:
  "\<exists>s ch. thread_at s 0 = Some (CheckWaiting ''b'' 1 ch 5) \<and> (ch \<in> closed_chans s \<or> in_flight ''b'' s = 1) \<and>
     (\<exists>evs s' d. length evs \<le> 3 \<and> list_all (moves 0) evs \<and> lrun evs s = Inr s' \<and>
        thread_at s' 0 = Some (CheckDone d))"
proof -
  obtain s ch where r: "lreach (coordinator_leaser 4) 4 s"
    and t: "thread_at s 0 = Some (CheckWaiting ''b'' 1 ch 5)"
    using demo_waiting by blast
  show ?thesis using check_returns [OF r demo_sizes t] t by (intro exI [of _ s] exI [of _ ch]) simp
qed

text \<open>C25. The exported counter of admitted tokens is exact: at every moment it is the number of tokens
  admitted less those of requests that are between their debit and their counting, modulo
  \<open>2 ^ 64\<close>.\<close>

theorem admitted_counter_exact:
  assumes "lreach leaser C s" and "counts s t = Some c"
  shows "AdmittedTokens c = i64 (g_admitted s t - pending t s)"
  using count_inv_reach [OF assms(1)] assms(2) by (auto simp: count_inv_def admitted_count_def dest: spec [of _ t])

theorem admitted_counter_exact_witness:
  "\<exists>s c. counts s ''b'' = Some c \<and> AdmittedTokens c = i64 (g_admitted s ''b'' - pending ''b'' s) \<and> LeaseCalls c = 1"
proof -
  obtain s c where r: "lreach (coordinator_leaser 4) 4 s" and c: "counts s ''b'' = Some c" "LeaseCalls c = 1"
    using demo_waiting by blast
  show ?thesis using admitted_counter_exact [OF r c(1)] c by blast
qed

lemma lease_request_route:
  "fst (coordinator_Handler now (lease_request w t) s) = fst (handleLease now (rq_body (lease_request w t)) s)"
  by (simp add: coordinator_Handler_def coordinator_routes_def lease_request_def method_match_def)

text \<open>C24. The wire contract between a worker and the coordinator. What \<open>Lease\<close> returns for a
  request that the coordinator's handler serves is what the coordinator debited: the grant, the
  configured duration and the pacing hint come through the JSON encoding unchanged; an unknown tenant
  becomes the error that is negative-cached, an empty name and a transport failure an ordinary error.\<close>

theorem lease_roundtrip:
  assumes "server_ok s" and "config_typed (co_cfg s)"
  shows "httpLeaser_Lease (\<lambda>rq. Inr (fst (coordinator_Handler now rq s))) w t =
    (if t = '''' then Inl (ErrLease ''coordinator returned 400'')
     else case co_tenants s t of
       None \<Rightarrow> Inl ErrUnknownTenant
     | Some ts \<Rightarrow>
         let resp = fst (lease_tenant (Size (c_Lease (co_cfg s))) (DurationMs (c_Lease (co_cfg s))) now ts) in
         Inr \<lparr>g_Tokens = Granted resp, g_TTL = LeaseDuration (co_cfg s),
              g_RetryAfter = duration_of_ms (RetryAfterMs resp)\<rparr>) \<and>
    httpLeaser_Lease (\<lambda>rq. Inl err) w t = Inl (ErrLease err)"
proof (cases "t = ''''")
  case True
  have "itoa StatusBadRequest = ''400''" by (simp add: status_defs) code_simp
  then show ?thesis
    using True handleLease_bad [OF asked_lease_request_empty]
    by (simp add: httpLeaser_Lease_def lease_request_route lease_of_reply_errors)
next
  case ne: False
  note a = asked_lease_request [OF ne, of w]
  show ?thesis
  proof (cases "co_tenants s t")
    case None
    then show ?thesis
      using ne handleLease_unknown [OF a None]
      by (simp add: httpLeaser_Lease_def lease_request_route lease_of_reply_errors)
  next
    case (Some ts)
    let ?n = "Size (c_Lease (co_cfg s))" and ?d = "DurationMs (c_Lease (co_cfg s))"
    obtain resp ts' where l: "lease_tenant ?n ?d now ts = (resp, ts')" by fastforce
    have n: "0 \<le> ?n" and b: "bucket_ok (bucket ts)" using assms(1) Some by (auto simp: server_ok_def)
    have ty: "in_i64 ?n" "in_i64 ?d" using assms(2) by (auto simp: config_typed_def)
    have "in_i64 (Granted resp)"
      using TakeUpTo_bounds [OF b n lease_tenant_take(1) [OF l]] ty(1) by (simp add: in_i64_def min_i64_def)
    moreover have "in_i64 (RetryAfterMs resp)"
      using l by (auto simp: lease_tenant_def Let_def in_i64_nonneg split: prod.splits if_splits)
    moreover have "TTLMs resp = ?d" by (rule lease_tenant_take(2) [OF l])
    ultimately show ?thesis
      using ne Some l ty lease_of_reply_encode [of resp] handleLease_known [OF a Some l]
      by (simp add: httpLeaser_Lease_def lease_request_route LeaseDuration_def lease_of_reply_errors)
  qed
qed

theorem lease_roundtrip_witness:
  "httpLeaser_Lease (\<lambda>rq. Inr (fst (coordinator_Handler 0 rq sample_server))) ''w'' ''zz'' = Inl ErrUnknownTenant \<and>
   httpLeaser_Lease (\<lambda>rq. Inl ''timeout'') ''w'' ''a'' = Inl (ErrLease ''timeout'')"
proof -
  have "config_typed (co_cfg sample_server)"
    by (simp add: sample_server_def Coordinator_New_def config_typed_def in_i64_def min_i64_def max_i64_def
        is_float64_def)
  note w = lease_roundtrip [OF sample_ok this]
  have "co_tenants sample_server ''zz'' = None" by (simp add: sample_server_def Coordinator_New_def)
  then show ?thesis using w [of 0 "''w''" "''zz''"] w [of 0 "''w''" "''a''" "''timeout''"] by simp
qed

text \<open>The cost parameter: a missing parameter is cost 1, the decimal text of an integer is accepted
  exactly if it lies between 1 and 1000 and then denotes that cost, and no text at all yields a cost
  outside that range.\<close>

lemma cost_parameter:
  assumes "in_i64 v"
  shows "query_cost '''' = Some 1 \<and>
    query_cost (itoa v) = (if 1 \<le> v \<and> v \<le> 1000 then Some v else None) \<and>
    (\<forall>cs c. query_cost cs = Some c \<longrightarrow> 1 \<le> c \<and> c \<le> 1000)"
proof -
  have "itoa v \<noteq> ''''" using signed_val_itoa [of v] by (auto simp: signed_val_def)
  then show ?thesis
    using Atoi_itoa [OF assms] by (auto simp: query_cost_def split: option.splits if_splits)
qed

end
