(* ===== verification/System.thy ===== *)
theory System
  imports Worker_Server
begin

text \<open>
  The distributed system: one coordinator process (up or down), any number of worker processes,
  and the lease calls between them. Each worker is a limiter with its threads; a lease call is
  served by the coordinator, its reply travels, and it is delivered, or the call fails. Workers
  crash and start, the coordinator crashes and restarts with fresh buckets. Coordinator and
  workers have clocks of their own; only the coordinator's clock enters the guarantee.

  \<open>g_granted\<close> (tokens the coordinators debited), \<open>g_retired\<close> (tokens admitted by
  workers that have crashed since), \<open>restarts\<close> and \<open>leases\<close> are history variables.
\<close>

section \<open>Definitions\<close>

type_synonym inbox = "nat \<Rightarrow> response option"
type_synonym proc = "(lstate \<times> inbox) option"

record sys =
  coord :: "CServer option"
  cnow :: time
  procs :: "proc list"
  restarts :: nat
  leases :: nat
  g_granted :: "string \<Rightarrow> int"
  g_retired :: "string \<Rightarrow> int"

definition sys_init :: "Config \<Rightarrow> time \<Rightarrow> time \<Rightarrow> sys" where
  "sys_init cfg started t0 =
     \<lparr>coord = Some (Coordinator_New started t0 cfg), cnow = t0, procs = [], restarts = 0, leases = 0,
      g_granted = (\<lambda>_. 0), g_retired = (\<lambda>_. 0)\<rparr>"

definition proc_at :: "sys \<Rightarrow> nat \<Rightarrow> (lstate \<times> inbox) option" where
  "proc_at s w = (if w < length (procs s) then procs s ! w else None)"

definition set_proc :: "nat \<Rightarrow> proc \<Rightarrow> sys \<Rightarrow> sys" where
  "set_proc w p s = s\<lparr>procs := (procs s)[w := p]\<rparr>"

text \<open>The coordinator handles one lease request body.\<close>

definition serve :: "time \<Rightarrow> body \<Rightarrow> response \<Rightarrow> CServer \<Rightarrow> sys \<Rightarrow> sys" where
  "serve now b r c' s =
     s\<lparr>coord := Some c', cnow := max (cnow s) now, leases := Suc (leases s),
       g_granted := (\<lambda>t. g_granted s t + granted_to t b r)\<rparr>"

inductive sstep :: "Config \<Rightarrow> int \<Rightarrow> duration \<Rightarrow> sys \<Rightarrow> sys \<Rightarrow> bool" for cfg :: Config and C :: int and lag :: duration where
  local: "proc_at s w = Some (l, ib) \<Longrightarrow> local_event C ev \<Longrightarrow> lstep ev l = Inr l' \<Longrightarrow>
    sstep cfg C lag s (set_proc w (Some (l', ib)) s)"
| serve: "coord s = Some c \<Longrightarrow> cnow s - lag \<le> now \<Longrightarrow> proc_at s w = Some (l, ib) \<Longrightarrow>
    thread_at l i = Some (RenewCall t) \<Longrightarrow> ib i = None \<Longrightarrow>
    b = rq_body (lease_request wname t) \<Longrightarrow> handleLease now b c = (r, c') \<Longrightarrow>
    sstep cfg C lag s (set_proc w (Some (l, ib(i := Some r))) (serve now b r c' s))"
| stray: "coord s = Some c \<Longrightarrow> cnow s - lag \<le> now \<Longrightarrow> handleLease now b c = (r, c') \<Longrightarrow>
    sstep cfg C lag s (serve now b r c' s)"
| deliver: "proc_at s w = Some (l, ib) \<Longrightarrow> ib i = Some r \<Longrightarrow>
    lstep (LeaseReturn i (lease_of_reply (Inr r)) now rand) l = Inr l' \<Longrightarrow>
    sstep cfg C lag s (set_proc w (Some (l', ib(i := None))) s)"
| fail: "proc_at s w = Some (l, ib) \<Longrightarrow>
    lstep (LeaseReturn i (lease_of_reply (Inl err)) now rand) l = Inr l' \<Longrightarrow>
    sstep cfg C lag s (set_proc w (Some (l', ib(i := None))) s)"
| start_worker: "sstep cfg C lag s (s\<lparr>procs := procs s @ [Some (worker_Run now, Map.empty)]\<rparr>)"
| crash_worker: "proc_at s w = Some (l, ib) \<Longrightarrow>
    sstep cfg C lag s (set_proc w None (s\<lparr>g_retired := (\<lambda>t. g_retired s t + g_admitted l t)\<rparr>))"
| crash_coord: "coord s = Some c \<Longrightarrow> sstep cfg C lag s (s\<lparr>coord := None\<rparr>)"
| start_coord: "coord s = None \<Longrightarrow> cnow s \<le> now \<Longrightarrow>
    sstep cfg C lag s (s\<lparr>coord := Some (Coordinator_New started now cfg), cnow := now,
      restarts := Suc (restarts s)\<rparr>)"

inductive ssteps :: "Config \<Rightarrow> int \<Rightarrow> duration \<Rightarrow> sys \<Rightarrow> sys \<Rightarrow> bool" for cfg :: Config and C :: int and lag :: duration where
  nil: "ssteps cfg C lag s s"
| snoc: "ssteps cfg C lag s s' \<Longrightarrow> sstep cfg C lag s' s'' \<Longrightarrow> ssteps cfg C lag s s''"

text \<open>The tokens admitted for a tenant by all workers, live or crashed.\<close>

definition proc_admitted :: "string \<Rightarrow> proc \<Rightarrow> int" where
  "proc_admitted t p = (case p of None \<Rightarrow> 0 | Some (l, ib) \<Rightarrow> g_admitted l t)"

definition total_admitted :: "sys \<Rightarrow> string \<Rightarrow> int" where
  "total_admitted s t = g_retired s t + sum_list (map (proc_admitted t) (procs s))"

section \<open>What a worker can still admit\<close>

text \<open>Tokens in the pool, in a reply on its way, or in a result not stored yet.\<close>

definition pool_tokens :: "lstate \<Rightarrow> string \<Rightarrow> int" where
  "pool_tokens l t = (case pools l t of None \<Rightarrow> 0 | Some p \<Rightarrow> tokens p)"

definition reply_grant :: "response option \<Rightarrow> int" where
  "reply_grant r = (case r of None \<Rightarrow> 0 | Some r \<Rightarrow> grant_of (lease_of_reply (Inr r)))"

fun slot :: "string \<Rightarrow> thread \<Rightarrow> response option \<Rightarrow> int" where
  "slot t (RenewCall u) r = (if u = t then reply_grant r else 0)"
| "slot t (RenewReturn u res now rand) r = (if u = t then grant_of res else 0)"
| "slot t _ r = 0"

definition slots :: "string \<Rightarrow> thread list \<Rightarrow> inbox \<Rightarrow> int" where
  "slots t ths ib = (\<Sum>i<length ths. slot t (ths ! i) (ib i))"

definition proc_pot :: "string \<Rightarrow> proc \<Rightarrow> int" where
  "proc_pot t p =
     (case p of None \<Rightarrow> 0 | Some (l, ib) \<Rightarrow> g_admitted l t + pool_tokens l t + slots t (threads l) ib)"

definition inbox_ok :: "int \<Rightarrow> lstate \<Rightarrow> inbox \<Rightarrow> bool" where
  "inbox_ok L l ib \<longleftrightarrow>
     (\<forall>i r. ib i = Some r \<longrightarrow>
        (\<exists>t. thread_at l i = Some (RenewCall t) \<and> coordinator_leaser L t (lease_of_reply (Inr r))))"

lemma sum_change:
  fixes f g :: "nat \<Rightarrow> int"
  assumes "i < n" and "\<And>j. j \<noteq> i \<Longrightarrow> f j = g j"
  shows "(\<Sum>j<n. f j) = (\<Sum>j<n. g j) - g i + f i"
proof -
  have "f = g(i := f i)" using assms(2) by auto
  then have "(\<Sum>j<n. f j) = (\<Sum>j<n. (g(i := f i)) j)" by simp
  also have "\<dots> = (\<Sum>j<n. g j) - g i + f i"
    using assms(1) by (intro sum_fun_upd) auto
  finally show ?thesis .
qed

lemma slots_update:
  assumes i: "i < length ths" and ib: "\<And>j. j \<noteq> i \<Longrightarrow> ib' j = ib j"
  shows "slots t (ths[i := x]) ib' = slots t ths ib - slot t (ths ! i) (ib i) + slot t x (ib' i)"
  unfolding slots_def using i ib by simp (subst sum_change [OF i]; simp)

lemma slots_snoc [simp]: "slots t (ths @ [x]) ib = slots t ths ib + slot t x (ib (length ths))"
  by (simp add: slots_def nth_append)

section \<open>Local steps create no tokens\<close>

lemma pool_tokens_upd:
  "pools l' = (pools l)(t \<mapsto> p) \<Longrightarrow> pool_tokens l' u = (if u = t then tokens p else pool_tokens l u)"
  by (simp add: pool_tokens_def)

lemma check_locked_spend:
  assumes "check_locked now c ch p = (LDecided a nr w, p')" and "0 \<le> tokens p" and "1 \<le> c"
  shows "tokens p' + (if a then c else 0) \<le> tokens p"
  using assms check_locked_admitted [of now c ch p nr w p'] check_locked_rejected [of now c ch p nr w p']
  by (cases a) (auto simp: drop_expired_tokens)

lemma renew_locked_gain:
  assumes "renew_locked now r res p = (d, p')" and "0 \<le> tokens p" and "0 \<le> grant_of res"
  shows "tokens p' \<le> tokens p + grant_of res"
  using assms
  by (auto simp: renew_locked_def renew_result_def Let_def grant_of_def min_i64_def
      split: sum.splits lease_error.splits if_splits intro!: i64_le)

text \<open>What a worker holds and has admitted grows only by the grants it stores.\<close>

definition holding :: "lstate \<Rightarrow> string \<Rightarrow> int" where
  "holding l t = g_admitted l t + pool_tokens l t - g_received l t"

lemma holding_lock:
  assumes inv: "linv C L l" and st: "step_lock i l = Inr l'"
  shows "holding l' u \<le> holding l u"
proof -
  obtain t c now p out p' where th: "thread_at l i = Some (CheckEntry t c now)"
    and p: "pools l t = Some p" and ck: "check_locked now c (next_chan l) p = (out, p')"
    using st by (auto simp: step_lock_def split: option.splits thread.splits prod.splits)
  have c: "1 \<le> c" and p0: "0 \<le> tokens p"
    using linv_thread [OF inv th] linv_pool [OF inv p] by (auto simp: pool_inv_def)
  show ?thesis
  proof (cases out)
    case LUnknown
    then show ?thesis
      using st ck check_locked_LUnknown [of now c "next_chan l" p p'] p
      by (auto simp: step_lock_def th holding_def pool_tokens_def)
  next
    case (LDecided a nr w)
    then have "tokens p' + (if a then c else 0) \<le> tokens p"
      using check_locked_spend [OF _ p0 c] ck by blast
    then show ?thesis
      using st ck p LDecided
      by (cases a; cases nr) (auto simp: step_lock_def th Let_def holding_def pool_tokens_def)
  qed
qed

lemma holding_relock:
  assumes inv: "linv C L l" and st: "step_relock i l = Inr l'"
  shows "holding l' u \<le> holding l u"
proof -
  obtain t c now p out p' where th: "thread_at l i = Some (CheckWoken t c now)"
    and p: "pools l t = Some p" and wk: "wake_locked now c p = (out, p')"
    using st by (auto simp: step_relock_def split: option.splits thread.splits prod.splits)
  show ?thesis
    using st wk p wake_locked_tokens [OF wk]
    by (cases out; cases "out = Some True")
      (auto simp: step_relock_def th Let_def holding_def pool_tokens_def)
qed

lemma holding_renew_lock:
  assumes inv: "linv C L l" and st: "step_renew_lock i l = Inr l'"
  shows "holding l' u \<le> holding l u"
proof -
  obtain t res now r p d p' where th: "thread_at l i = Some (RenewReturn t res now r)"
    and p: "pools l t = Some p" and rl: "renew_locked now r res p = (d, p')"
    using st by (auto simp: step_renew_lock_def split: option.splits thread.splits prod.splits)
  have "0 \<le> tokens p" "0 \<le> grant_of res"
    using linv_thread [OF inv th] linv_pool [OF inv p] by (auto simp: pool_inv_def result_ok_def)
  then have "tokens p' \<le> tokens p + grant_of res" using renew_locked_gain [OF rl] by blast
  then show ?thesis
    using st rl p
    by (auto simp: step_renew_lock_def th Let_def holding_def pool_tokens_def split: if_splits)
qed

lemma holding_step:
  assumes inv: "linv C L l" and st: "lstep ev l = Inr l'"
  shows "holding l' u \<le> holding l u"
proof (cases ev)
  case (Lock i)
  then show ?thesis using holding_lock [OF inv] st by simp
next
  case (Relock i)
  then show ?thesis using holding_relock [OF inv] st by simp
next
  case (RenewLock i)
  then show ?thesis using holding_renew_lock [OF inv] st by simp
qed (use st in \<open>auto simp: step_defs holding_def pool_tokens_def get_pool_def zero_pool_def
    split: option.splits thread.splits if_splits\<close>)

lemma thread_at_Some: "thread_at l i = Some th \<longleftrightarrow> i < length (threads l) \<and> threads l ! i = th"
  by (auto simp: thread_at_def)

text \<open>A local step of a thread that is not calling out: its slot goes into what was received.\<close>

lemma slots_local:
  assumes ib: "inbox_ok L l ib" and ev: "local_event C ev" and st: "lstep ev l = Inr l'"
  shows "slots t (threads l') ib + g_received l' t = slots t (threads l) ib + g_received l t"
    (is "?S") and "inbox_ok L l' ib"
proof -
  have ib0: "ib j = None" if "thread_at l j = Some th" "\<And>u. th \<noteq> RenewCall u" for j th
    using ib that unfolding inbox_ok_def by (metis option.exhaust option.inject)
  have upd: "slots t ((threads l)[i := x]) ib = slots t (threads l) ib - slot t th None + slot t x None"
    if "thread_at l i = Some th" "\<And>u. th \<noteq> RenewCall u" for i th x
    using slots_update [of i "threads l" ib ib t x] ib0 [OF that] that(1)
    by (simp add: thread_at_Some)
  show ?S
    using st ev
    by (cases ev)
      (auto simp: step_defs upd reply_grant_def get_pool_def Let_def
        split: option.splits thread.splits if_splits locked.splits prod.splits)
  have keep: "thread_at l' j = Some (RenewCall u)" if "thread_at l j = Some (RenewCall u)" for j u
    using that st ev
    by (cases ev)
      (auto simp: step_defs thread_at_def get_pool_def Let_def nth_append nth_list_update
        split: option.splits thread.splits if_splits locked.splits prod.splits)
  show "inbox_ok L l' ib" using ib keep unfolding inbox_ok_def by blast
qed

section \<open>The workers\<close>

definition worker_inv :: "int \<Rightarrow> int \<Rightarrow> proc \<Rightarrow> bool" where
  "worker_inv C L p = (case p of None \<Rightarrow> True | Some (l, ib) \<Rightarrow> linv C L l \<and> inbox_ok L l ib)"

lemma worker_inv_Some [simp]: "worker_inv C L (Some (l, ib)) \<longleftrightarrow> linv C L l \<and> inbox_ok L l ib"
  by (simp add: worker_inv_def)

lemma worker_inv_None [simp]: "worker_inv C L None"
  by (simp add: worker_inv_def)

lemma proc_pot_Some:
  "proc_pot t (Some (l, ib)) = holding l t + (slots t (threads l) ib + g_received l t)"
  by (simp add: proc_pot_def holding_def)

lemma proc_pot_None [simp]: "proc_pot t None = 0"
  by (simp add: proc_pot_def)

lemma worker_local:
  assumes sz: "sizes_ok C L" and L: "1 \<le> L" and w: "worker_inv C L (Some (l, ib))"
    and ev: "local_event C ev" and st: "lstep ev l = Inr l'"
  shows "worker_inv C L (Some (l', ib))" and "proc_pot t (Some (l', ib)) \<le> proc_pot t (Some (l, ib))"
proof -
  have "event_ok (coordinator_leaser L) C l ev" using ev by (cases ev) (auto simp: event_ok_def)
  then have "linv C L l'" using wl.step_inv [of C L l ev l'] sz w st L by simp
  then show "worker_inv C L (Some (l', ib))" using slots_local(2) [OF _ ev st] w by simp
  show "proc_pot t (Some (l', ib)) \<le> proc_pot t (Some (l, ib))"
    using w holding_step [OF _ st, of C L t] slots_local(1) [OF _ ev st, of L ib t]
    by (simp add: proc_pot_Some)
qed

lemma reply_grant_nonneg:
  assumes "inbox_ok L l ib"
  shows "0 \<le> reply_grant (ib i)"
proof (cases "ib i")
  case None
  then show ?thesis by (simp add: reply_grant_def)
next
  case (Some r)
  then obtain t where "coordinator_leaser L t (lease_of_reply (Inr r))"
    using assms unfolding inbox_ok_def by blast
  then show ?thesis using wl.grant_bounds Some by (auto simp: reply_grant_def result_ok_def)
qed

text \<open>What a worker holds, or has under way, for one tenant: at most the low mark and one lease.\<close>

definition worker_stock :: "string \<Rightarrow> proc \<Rightarrow> int" where
  "worker_stock t p =
     (case p of None \<Rightarrow> 0 | Some (l, ib) \<Rightarrow> pool_tokens l t + slots t (threads l) ib)"

lemma slot_bounds:
  assumes th: "thread_inv C L l th" and r: "\<And>x. r = Some x \<Longrightarrow> result_ok L (lease_of_reply (Inr x))"
    and L: "0 \<le> L"
  shows "0 \<le> slot t th r" and "slot t th r \<le> (if renews t th then L else 0)"
  using assms by (cases th; cases r; auto simp: reply_grant_def result_ok_def)+

lemma slots_bounds:
  assumes "\<forall>x \<in> set ths. thread_inv C L l x"
    and "\<And>i x. ib i = Some x \<Longrightarrow> result_ok L (lease_of_reply (Inr x))" and "0 \<le> L"
  shows "0 \<le> slots t ths ib \<and> slots t ths ib \<le> int (length (filter (renews t) ths)) * L"
  using assms(1)
proof (induction ths rule: rev_induct)
  case Nil
  then show ?case by (simp add: slots_def)
next
  case (snoc x ths)
  have "0 \<le> slot t x (ib (length ths))" "slot t x (ib (length ths)) \<le> (if renews t x then L else 0)"
    using slot_bounds [of C L l x "ib (length ths)" t] snoc.prems assms(2,3) by auto
  then show ?case using snoc by (auto simp: distrib_right split: if_splits)
qed

lemma worker_stock:
  assumes sz: "sizes_ok C L" and w: "worker_inv C L p"
  shows "0 \<le> worker_stock t p" and "worker_stock t p \<le> (if p = None then 0 else low_mark C L + L)"
proof -
  have "0 \<le> worker_stock t p \<and> worker_stock t p \<le> (if p = None then 0 else low_mark C L + L)"
  proof (cases p)
    case None
    then show ?thesis by (simp add: worker_stock_def)
  next
    case (Some x)
    obtain l ib where x: "x = (l, ib)" by fastforce
    have inv: "linv C L l" and ib: "inbox_ok L l ib" using w by (simp_all add: Some x)
    have L: "0 \<le> L" using sz by (simp add: sizes_ok_def)
    have "result_ok L (lease_of_reply (Inr r))" if r: "ib i = Some r" for i r
    proof -
      obtain u where "coordinator_leaser L u (lease_of_reply (Inr r))"
        using ib r unfolding inbox_ok_def by blast
      then show ?thesis using wl.grant_bounds [of L u] L by simp
    qed
    then have sl: "0 \<le> slots t (threads l) ib" "slots t (threads l) ib \<le> int (in_flight t l) * L"
      using slots_bounds [of "threads l" C L l ib t] inv L by (auto simp: linv_def in_flight_def)
    show ?thesis
    proof (cases "pools l t")
      case None
      then have "in_flight t l = 0" using inv by (simp add: linv_def)
      then show ?thesis
        using sl None low_mark_bounds(1) [OF sz] L by (simp add: Some x worker_stock_def pool_tokens_def)
    next
      case p: (Some q)
      then show ?thesis
        using linv_pool [OF inv p] sl
        by (auto simp: Some x worker_stock_def pool_tokens_def pool_inv_def split: if_splits)
    qed
  qed
  then show "0 \<le> worker_stock t p" and "worker_stock t p \<le> (if p = None then 0 else low_mark C L + L)"
    by auto
qed

text \<open>A lease call returns: with the reply, or with an error in its place.\<close>

lemma worker_return:
  assumes sz: "sizes_ok C L" and L: "1 \<le> L" and w: "worker_inv C L (Some (l, ib))"
    and st: "lstep (LeaseReturn i res now r) l = Inr l'"
    and res: "ib i = Some rp \<and> res = lease_of_reply (Inr rp) \<or> res = lease_of_reply (Inl err)"
  shows "worker_inv C L (Some (l', ib(i := None)))"
    and "proc_pot t (Some (l', ib(i := None))) \<le> proc_pot t (Some (l, ib))"
proof -
  obtain u where th: "thread_at l i = Some (RenewCall u)"
    and l': "l' = goto i (RenewReturn u res now r) (l\<lparr>clock := now\<rparr>)"
    using st by (auto simp: step_lease_return_def split: option.splits thread.splits if_splits)
  have lz: "coordinator_leaser L u res"
    using res
  proof
    assume "ib i = Some rp \<and> res = lease_of_reply (Inr rp)"
    then show ?thesis using w th unfolding worker_inv_Some inbox_ok_def by fastforce
  qed (auto simp: coordinator_leaser_def)
  have "linv C L l'"
    using wl.step_inv [of C L l _ l', OF _ _ _ st] sz w L th lz by (simp add: event_ok_def)
  moreover have "inbox_ok L l' (ib(i := None))"
    using w by (auto simp: inbox_ok_def l' thread_at_def nth_list_update split: if_splits)
  ultimately show "worker_inv C L (Some (l', ib(i := None)))" by simp
  have "slots t (threads l') (ib(i := None)) =
      slots t (threads l) ib - slot t (RenewCall u) (ib i) + slot t (RenewReturn u res now r) None"
    using th slots_update [of i "threads l" "ib(i := None)" ib t "RenewReturn u res now r"]
    by (simp add: thread_at_Some l')
  moreover have "grant_of res \<le> reply_grant (ib i)"
    using res reply_grant_nonneg [of L l ib i] w
    by (auto simp: reply_grant_def lease_of_reply_errors grant_of_def split: option.splits)
  ultimately show "proc_pot t (Some (l', ib(i := None))) \<le> proc_pot t (Some (l, ib))"
    by (auto simp: proc_pot_def l' pool_tokens_def)
qed

text \<open>The coordinator serves a call of the worker.\<close>

lemma worker_serve:
  assumes ok: "server_ok c" and L: "Size (c_Lease (co_cfg c)) = L" and w: "worker_inv C L (Some (l, ib))"
    and th: "thread_at l i = Some (RenewCall u)" and ib: "ib i = None"
    and h: "handleLease now (rq_body (lease_request wname u)) c = (r, c')"
  shows "worker_inv C L (Some (l, ib(i := Some r)))"
    and "proc_pot t (Some (l, ib(i := Some r))) \<le>
      proc_pot t (Some (l, ib)) + (if u = t then granted_to t (rq_body (lease_request wname u)) r else 0)"
proof -
  have "coordinator_leaser L u (lease_of_reply (Inr r))"
    using ok L h unfolding coordinator_leaser_def by (metis fst_conv)
  then show "worker_inv C L (Some (l, ib(i := Some r)))"
    using w th by (auto simp: inbox_ok_def)
  have "slots t (threads l) (ib(i := Some r)) =
      slots t (threads l) ib - slot t (RenewCall u) None + slot t (RenewCall u) (Some r)"
    using th ib slots_update [of i "threads l" "ib(i := Some r)" ib t "RenewCall u"]
      list_update_id [of "threads l" i]
    by (auto simp: thread_at_Some)
  then show "proc_pot t (Some (l, ib(i := Some r))) \<le>
      proc_pot t (Some (l, ib)) + (if u = t then granted_to t (rq_body (lease_request wname u)) r else 0)"
    using handleLease_reply_grant(2) [OF ok h] by (auto simp: proc_pot_def reply_grant_def)
qed

section \<open>The coordinator\<close>

text \<open>What may be granted over \<open>d\<close> of the coordinator's clock with \<open>n\<close> restarts and
  \<open>k\<close> lease requests.\<close>

definition budget :: "rat \<Rightarrow> nat \<Rightarrow> nat \<Rightarrow> int \<Rightarrow> rat" where
  "budget rate n k d =
     rate * (1 + of_nat n) + rate * (1 + 1 / 2 ^ 49) * secs d + of_nat k * (rate / 2 ^ 53 + 2 * tiny64)"

lemma budget_time: "0 \<le> rate \<Longrightarrow> d \<le> d' \<Longrightarrow> budget rate n k d \<le> budget rate n k d'"
  by (simp add: budget_def mult_left_mono secs_mono)

lemma budget_add_time:
  "budget rate n k (d + e) = budget rate n k d + rate * (1 + 1 / 2 ^ 49) * secs e"
  by (simp add: budget_def secs_add distrib_left)

lemma budget_Suc_restart: "budget rate (Suc n) k d = budget rate n k d + rate"
  by (simp add: budget_def algebra_simps)

lemma budget_Suc_lease: "budget rate n (Suc k) d = budget rate n k d + (rate / 2 ^ 53 + 2 * tiny64)"
  unfolding budget_def of_nat_Suc distrib_right mult_1 by (simp only: add_ac)

lemma budget_ge:
  assumes "0 \<le> rate" and "0 \<le> d"
  shows "rate \<le> budget rate n k d"
proof -
  have "0 \<le> rate * of_nat n" "0 \<le> rate * (1 + 1 / 2 ^ 49) * secs d"
      "0 \<le> of_nat k * (rate / 2 ^ 53 + 2 * tiny64)"
    using assms tiny64_nonneg by simp_all
  then show ?thesis by (simp add: budget_def distrib_left)
qed

text \<open>One bucket, seen from the state \<open>b\<close> in which the window begins.\<close>

definition granted_since :: "sys \<Rightarrow> sys \<Rightarrow> string \<Rightarrow> int" where
  "granted_since b s t = g_granted s t - g_granted b t"

definition window_budget :: "duration \<Rightarrow> sys \<Rightarrow> sys \<Rightarrow> rat \<Rightarrow> time \<Rightarrow> rat" where
  "window_budget lag b s rate now =
     budget rate (restarts s - restarts b) (leases s - leases b) (max now (cnow b - lag) - (cnow b - lag))"

definition tenant_inv :: "duration \<Rightarrow> sys \<Rightarrow> sys \<Rightarrow> string \<Rightarrow> tenantState \<Rightarrow> bool" where
  "tenant_inv lag b s t ts \<longleftrightarrow>
     b_last (bucket ts) \<le> cnow s \<and>
     (b_last (bucket ts) < cnow b - lag \<longrightarrow> granted_since b s t = 0) \<and>
     of_int (granted_since b s t) + b_tokens (bucket ts) \<le>
       window_budget lag b s (b_rate (bucket ts)) (b_last (bucket ts))"

definition coord_inv :: "Config \<Rightarrow> duration \<Rightarrow> sys \<Rightarrow> sys \<Rightarrow> bool" where
  "coord_inv cfg lag b s \<longleftrightarrow>
     0 \<le> lag \<and> cnow b \<le> cnow s \<and> restarts b \<le> restarts s \<and> leases b \<le> leases s \<and>
     (\<forall>t rate. map_of (c_Tenants cfg) t = Some rate \<longrightarrow> 
        of_int (granted_since b s t) \<le> window_budget lag b s rate (cnow s)) \<and>
     (\<forall>t. map_of (c_Tenants cfg) t = None \<longrightarrow> granted_since b s t = 0) \<and>
     (\<forall>c. coord s = Some c \<longrightarrow> server_ok c \<and> co_cfg c = cfg \<and>
        (\<forall>t ts. co_tenants c t = Some ts \<longrightarrow> tenant_inv lag b s t ts))"

lemma coord_inv_same:
  assumes "coord_inv cfg lag b s" and "coord s' = coord s" and "cnow s' = cnow s"
    and "restarts s' = restarts s" and "leases s' = leases s" and "g_granted s' = g_granted s"
  shows "coord_inv cfg lag b s'"
  using assms(1)
  unfolding coord_inv_def tenant_inv_def granted_since_def window_budget_def assms(2-6) .

text \<open>One served request, for one tenant.\<close>

lemma tenant_serve:
  assumes ok: "server_ok c" and h: "handleLease now bd c = (r, c')" and ts: "co_tenants c t = Some ts"
    and inv: "tenant_inv lag b s t ts" and now: "cnow s - lag \<le> now" and b: "cnow b \<le> cnow s" "leases b \<le> leases s"
  obtains ts' where "co_tenants c' t = Some ts'" and "tenant_inv lag b (serve now bd r c' s) t ts'"
proof -
  obtain ts' where ts': "co_tenants c' t = Some ts'"
    and lev: "b_tokens (bucket ts') + of_int (granted_to t bd r) \<le>
      b_tokens (bucket ts) + bucket_speed (bucket ts) * secs (b_last (bucket ts') - b_last (bucket ts)) +
      bucket_slack (bucket ts)"
    and cap: "b_tokens (bucket ts') + of_int (granted_to t bd r) \<le> b_cap (bucket ts)"
    and last: "b_last (bucket ts) \<le> b_last (bucket ts')"
    and dich: "granted_to t bd r = 0 \<and> ts' = ts \<or> b_last (bucket ts') = max (b_last (bucket ts)) now"
    and speed: "bucket_speed (bucket ts') = bucket_speed (bucket ts)"
    using handleLease_level [OF ok h ts] by metis
  let ?s = "serve now bd r c' s" and ?r = "b_rate (bucket ts)" and ?o = "cnow b - lag"
  have r': "b_rate (bucket ts') = ?r" using speed by (simp add: bucket_speed_def)
  have r0: "0 < ?r" and cr: "b_cap (bucket ts) = ?r" using ok ts by (auto simp: server_ok_def bucket_ok_def)
  have gs: "granted_since b ?s t = granted_since b s t + granted_to t bd r"
    by (simp add: granted_since_def serve_def)
  have wb: "window_budget lag b ?s ?r x = window_budget lag b s ?r x + bucket_slack (bucket ts)" for x
    using b(2) by (simp add: window_budget_def serve_def Suc_diff_le budget_Suc_lease bucket_slack_def cr)
  have bl: "b_last (bucket ts) \<le> cnow s" using inv by (simp add: tenant_inv_def)
  have "of_int (granted_since b ?s t) + b_tokens (bucket ts') \<le>
      window_budget lag b ?s (b_rate (bucket ts')) (b_last (bucket ts'))"
  proof (cases "b_last (bucket ts) < cnow b - lag")
    case True
    have "of_int (granted_since b ?s t) + b_tokens (bucket ts') \<le> ?r"
      using inv True cap cr by (simp add: gs tenant_inv_def)
    also have "\<dots> \<le> window_budget lag b ?s ?r (b_last (bucket ts'))"
      unfolding window_budget_def using r0 by (intro budget_ge) auto
    finally show ?thesis by (simp add: r')
  next
    case False
    then have m: "max (b_last (bucket ts)) ?o - ?o = b_last (bucket ts) - ?o"
        "max (b_last (bucket ts')) ?o - ?o =
          b_last (bucket ts) - ?o + (b_last (bucket ts') - b_last (bucket ts))"
      using last by auto
    have "window_budget lag b s ?r (b_last (bucket ts')) = window_budget lag b s ?r (b_last (bucket ts)) +
        bucket_speed (bucket ts) * secs (b_last (bucket ts') - b_last (bucket ts))"
      unfolding window_budget_def m by (simp only: budget_add_time bucket_speed_def)
    then show ?thesis using inv lev by (simp add: gs r' wb tenant_inv_def)
  qed
  moreover have "granted_since b ?s t = 0" if "b_last (bucket ts') < cnow b - lag"
    using that dich b now inv last by (auto simp: gs tenant_inv_def)
  moreover have "b_last (bucket ts') \<le> cnow ?s" using dich bl now by (auto simp: serve_def)
  ultimately show thesis using that [OF ts'] by (simp add: tenant_inv_def)
qed

lemma window_coord [simp]:
  "granted_since b (s\<lparr>coord := x\<rparr>) t = granted_since b s t"
  "window_budget lag b (s\<lparr>coord := x\<rparr>) rate now = window_budget lag b s rate now"
  by (simp_all add: granted_since_def window_budget_def)

lemma New_cfg [simp]: "co_cfg (Coordinator_New started now cfg) = cfg"
  by (simp add: Coordinator_New_def)

text \<open>What the buckets say bounds what was granted, also after the buckets are gone.\<close>

lemma tenant_inv_granted:
  assumes "tenant_inv lag b s t ts" and "bucket_ok (bucket ts)" and "cnow b \<le> cnow s"
  shows "of_int (granted_since b s t) \<le> window_budget lag b s (b_rate (bucket ts)) (cnow s)"
proof -
  have "window_budget lag b s (b_rate (bucket ts)) (b_last (bucket ts)) \<le>
      window_budget lag b s (b_rate (bucket ts)) (cnow s)"
    unfolding window_budget_def
    using assms by (intro budget_time) (auto simp: tenant_inv_def bucket_ok_def)
  then show ?thesis using assms(1,2) by (simp add: tenant_inv_def bucket_ok_def)
qed

lemma tenant_of_config:
  assumes "server_ok c"
  shows "map_of (c_Tenants (co_cfg c)) t = Some rate \<Longrightarrow>
      \<exists>ts. co_tenants c t = Some ts \<and> b_rate (bucket ts) = rate \<and> bucket_ok (bucket ts)"
    and "map_of (c_Tenants (co_cfg c)) t = None \<longleftrightarrow> co_tenants c t = None"
proof -
  have d: "dom (co_tenants c) = fst ` set (c_Tenants (co_cfg c))" using assms by (simp add: server_ok_def)
  then show n: "map_of (c_Tenants (co_cfg c)) t = None \<longleftrightarrow> co_tenants c t = None"
    by (metis map_of_eq_None_iff domIff)
  assume "map_of (c_Tenants (co_cfg c)) t = Some rate"
  moreover then obtain ts where "co_tenants c t = Some ts" using n by fastforce
  ultimately show "\<exists>ts. co_tenants c t = Some ts \<and> b_rate (bucket ts) = rate \<and> bucket_ok (bucket ts)"
    using assms by (auto simp: server_ok_def)
qed

lemma coord_inv_serve:
  assumes inv: "coord_inv cfg lag b s" and c: "coord s = Some c" and now: "cnow s - lag \<le> now"
    and h: "handleLease now bd c = (r, c')"
  shows "coord_inv cfg lag b (serve now bd r c' s)" (is "coord_inv cfg lag b ?s")
proof -
  have ok: "server_ok c" and cfg: "co_cfg c = cfg"
    and ti: "\<And>t ts. co_tenants c t = Some ts \<Longrightarrow> tenant_inv lag b s t ts"
    and b: "cnow b \<le> cnow s" "leases b \<le> leases s" "restarts b \<le> restarts s" "0 \<le> lag"
    using inv c by (auto simp: coord_inv_def)
  have ok': "server_ok c'" using ok h by (rule server_ok_handleLease)
  have cfg': "co_cfg c' = cfg" using h cfg by simp
  have ti': "tenant_inv lag b ?s t ts'" if ts': "co_tenants c' t = Some ts'" for t ts'
  proof -
    obtain ts where ts: "co_tenants c t = Some ts"
      using ts' handleLease_dom [OF h] by (metis domD domI)
    show ?thesis using tenant_serve [OF ok h ts ti [OF ts] now b(1,2)] ts' by (metis option.inject)
  qed
  have bnow: "cnow b \<le> cnow ?s" using b now by (simp add: serve_def)
  have "of_int (granted_since b ?s t) \<le> window_budget lag b ?s rate (cnow ?s)"
    if "map_of (c_Tenants cfg) t = Some rate" for t rate
    using tenant_of_config(1) [OF ok', of t rate] that tenant_inv_granted [OF ti' _ bnow] cfg' by auto
  moreover have "granted_since b ?s t = 0" if t: "map_of (c_Tenants cfg) t = None" for t
  proof -
    have "granted_to t bd r = 0"
      using granted_to_unknown [OF h] tenant_of_config(2) [OF ok] t cfg by blast
    then show ?thesis using inv t by (simp add: coord_inv_def granted_since_def serve_def)
  qed
  ultimately show ?thesis
    using ok' cfg' ti' b bnow by (simp add: coord_inv_def serve_def)
qed

lemma coord_inv_crash: "coord_inv cfg lag b s \<Longrightarrow> coord_inv cfg lag b (s\<lparr>coord := None\<rparr>)"
  by (simp add: coord_inv_def)

lemma New_bucket:
  assumes "config_typed cfg" and "co_tenants (Coordinator_New started now cfg) t = Some ts"
  shows "b_last (bucket ts) = now" and "b_tokens (bucket ts) = b_cap (bucket ts)"
    and "map_of (c_Tenants cfg) t = Some (b_rate (bucket ts))"
  using assms
  by (auto simp: Coordinator_New_def new_tenants_map config_typed_def Bucket_New_def split: option.splits)

lemma coord_inv_start:
  assumes inv: "coord_inv cfg lag b s" and now: "cnow s \<le> now"
    and cfg: "config_valid cfg" "config_typed cfg" "rates_ok cfg"
  shows "coord_inv cfg lag b (s\<lparr>coord := Some (Coordinator_New started now cfg), cnow := now,
    restarts := Suc (restarts s)\<rparr>)" (is "coord_inv cfg lag b ?s")
proof -
  have ok: "server_ok (Coordinator_New started now cfg)" using cfg by (rule server_ok_New)
  have b: "cnow b \<le> cnow s" "restarts b \<le> restarts s" "leases b \<le> leases s" "0 \<le> lag"
    using inv by (auto simp: coord_inv_def)
  have r0: "0 < rate" if "map_of (c_Tenants cfg) t = Some rate" for t rate
    using cfg(1) that by (auto simp: config_valid_def dest: map_of_SomeD)
  have wb: "window_budget lag b s rate (cnow s) + rate \<le> window_budget lag b ?s rate now" if "0 < rate" for rate
  proof -
    have "window_budget lag b s rate (cnow s) \<le> window_budget lag b s rate now"
      unfolding window_budget_def using that now by (intro budget_time) auto
    then show ?thesis using b by (simp add: window_budget_def Suc_diff_le budget_Suc_restart)
  qed
  have gs: "granted_since b ?s t = granted_since b s t" for t by (simp add: granted_since_def)
  have g: "of_int (granted_since b s t) \<le> window_budget lag b s rate (cnow s)"
    if "map_of (c_Tenants cfg) t = Some rate" for t rate
    using inv that by (simp add: coord_inv_def)
  have ti: "tenant_inv lag b ?s t ts" if ts: "co_tenants (Coordinator_New started now cfg) t = Some ts" for t ts
  proof -
    note nb = New_bucket [OF cfg(2) ts]
    have "b_cap (bucket ts) = b_rate (bucket ts)" using ok ts by (auto simp: server_ok_def)
    then show ?thesis
      using g [OF nb(3)] wb [OF r0 [OF nb(3)]] nb b now by (simp add: tenant_inv_def gs)
  qed
  have "of_int (granted_since b ?s t) \<le> window_budget lag b ?s rate (cnow ?s)"
    if "map_of (c_Tenants cfg) t = Some rate" for t rate
    using g [OF that] wb [OF r0 [OF that]] r0 [OF that] by (simp add: gs)
  then show ?thesis
    using inv ok ti b now by (simp add: coord_inv_def gs)
qed

lemma coord_inv_refl:
  assumes "coord_inv cfg lag b s" and "config_valid cfg"
  shows "coord_inv cfg lag s s"
proof -
  have z: "rate \<le> window_budget lag s s rate x" if "0 \<le> rate" for rate x
    unfolding window_budget_def using that by (intro budget_ge) auto
  have "tenant_inv lag s s t ts" if "coord s = Some c" "co_tenants c t = Some ts" for c t ts
  proof -
    have "server_ok c" "tenant_inv lag b s t ts" using assms(1) that unfolding coord_inv_def by blast+
    then have "bucket_ok (bucket ts)" "b_cap (bucket ts) = b_rate (bucket ts)"
        "b_last (bucket ts) \<le> cnow s"
      using that(2) by (auto simp: server_ok_def tenant_inv_def)
    then show ?thesis
      using z [of "b_rate (bucket ts)" "b_last (bucket ts)"]
      by (simp add: tenant_inv_def granted_since_def bucket_ok_def)
  qed
  moreover have g: "granted_since s s t = 0" for t by (simp add: granted_since_def)
  moreover have "of_int (granted_since s s t) \<le> window_budget lag s s rate (cnow s)"
    if "map_of (c_Tenants cfg) t = Some rate" for t rate
  proof -
    have "0 \<le> rate" using assms(2) map_of_SomeD [OF that] by (auto simp: config_valid_def)
    then show ?thesis using z [of rate "cnow s"] by (simp add: g)
  qed
  ultimately show ?thesis using assms(1) unfolding coord_inv_def by blast
qed

section \<open>The whole system\<close>

definition total_pot :: "sys \<Rightarrow> string \<Rightarrow> int" where
  "total_pot s t = g_retired s t + sum_list (map (proc_pot t) (procs s))"

definition lease_size :: "Config \<Rightarrow> int" where
  "lease_size cfg = Size (c_Lease cfg)"

text \<open>A configuration the deployment may use, with requests of cost at most \<open>C\<close>.\<close>

definition deployable :: "Config \<Rightarrow> int \<Rightarrow> duration \<Rightarrow> bool" where
  "deployable cfg C lag \<longleftrightarrow>
     config_valid cfg \<and> config_typed cfg \<and> rates_ok cfg \<and> sizes_ok C (lease_size cfg) \<and> 0 \<le> lag"

definition sys_inv :: "Config \<Rightarrow> int \<Rightarrow> duration \<Rightarrow> sys \<Rightarrow> sys \<Rightarrow> bool" where
  "sys_inv cfg C lag b s \<longleftrightarrow>
     coord_inv cfg lag b s \<and> (\<forall>p \<in> set (procs s). worker_inv C (lease_size cfg) p)"

lemma proc_at_Some: "proc_at s w = Some x \<Longrightarrow> w < length (procs s) \<and> procs s ! w = Some x"
  by (simp add: proc_at_def split: if_splits)

lemma proc_at_inv: "sys_inv cfg C lag b s \<Longrightarrow> proc_at s w = Some x \<Longrightarrow> worker_inv C (lease_size cfg) (Some x)"
  unfolding sys_inv_def using proc_at_Some nth_mem by metis

lemma total_pot_set:
  assumes "proc_at s w = Some x" and "procs s' = (procs s)[w := p]"
  shows "total_pot s' t - g_retired s' t = total_pot s t - g_retired s t - proc_pot t (Some x) + proc_pot t p"
  using proc_at_Some [OF assms(1)] assms(2)
  by (simp add: total_pot_def sum_list_map_update)

lemma workers_set:
  assumes "sys_inv cfg C lag b s" and "procs s' = (procs s)[w := p]" and "worker_inv C (lease_size cfg) p"
    and "coord_inv cfg lag b s'"
  shows "sys_inv cfg C lag b s'"
  using assms set_update_subset_insert [of "procs s" w p] unfolding sys_inv_def by auto

definition step_ok :: "Config \<Rightarrow> int \<Rightarrow> duration \<Rightarrow> sys \<Rightarrow> sys \<Rightarrow> sys \<Rightarrow> bool" where
  "step_ok cfg C lag b s s' \<longleftrightarrow>
     sys_inv cfg C lag b s' \<and>
     (\<forall>t. total_pot s' t - total_pot s t \<le> g_granted s' t - g_granted s t)"

text \<open>A step of one worker on its own, a return of a lease call, a crash.\<close>

lemma step_ok_worker:
  assumes inv: "sys_inv cfg C lag b s" and w: "proc_at s w = Some x"
    and wi: "worker_inv C (lease_size cfg) p"
    and pot: "\<And>t. proc_pot t p + g_retired s' t \<le> proc_pot t (Some x) + g_retired s t"
    and s': "procs s' = (procs s)[w := p]" "coord s' = coord s" "cnow s' = cnow s"
      "restarts s' = restarts s" "leases s' = leases s" "g_granted s' = g_granted s"
  shows "step_ok cfg C lag b s s'"
proof -
  have "coord_inv cfg lag b s" using inv by (simp add: sys_inv_def)
  then have "coord_inv cfg lag b s'" by (rule coord_inv_same) (fact s')+
  then have "sys_inv cfg C lag b s'" using workers_set [OF inv s'(1) wi] by blast
  moreover have "total_pot s' t \<le> total_pot s t" for t
    using total_pot_set [OF w s'(1), of t] pot [of t] by linarith
  ultimately show ?thesis by (simp add: step_ok_def s'(6))
qed

lemma step_ok_serve:
  assumes inv: "sys_inv cfg C lag b s" and c: "coord s = Some c" and now: "cnow s - lag \<le> now"
    and h: "handleLease now bd c = (r, c')"
    and w: "proc_at s w = Some x" and wi: "worker_inv C (lease_size cfg) p"
    and pot: "\<And>t. proc_pot t p \<le> proc_pot t (Some x) + granted_to t bd r"
  shows "step_ok cfg C lag b s (set_proc w p (serve now bd r c' s))" (is "step_ok cfg C lag b s ?s")
proof -
  have "coord_inv cfg lag b s" using inv by (simp add: sys_inv_def)
  then have "coord_inv cfg lag b (serve now bd r c' s)" by (rule coord_inv_serve [OF _ c now h])
  then have "coord_inv cfg lag b ?s" by (rule coord_inv_same) (simp_all add: set_proc_def)
  moreover have ps: "procs ?s = (procs s)[w := p]" by (simp add: set_proc_def serve_def)
  ultimately have "sys_inv cfg C lag b ?s" using workers_set [OF inv ps wi] by blast
  moreover have "total_pot ?s t - total_pot s t \<le> g_granted ?s t - g_granted s t" for t
    using total_pot_set [OF w ps, of t] pot [of t] by (simp add: set_proc_def serve_def)
  ultimately show ?thesis by (simp add: step_ok_def)
qed

lemma granted_to_nonneg:
  assumes "server_ok c" and "handleLease now bd c = (r, c')"
  shows "0 \<le> granted_to t bd r"
proof (cases "co_tenants c t")
  case None
  then show ?thesis using granted_to_unknown [OF assms(2)] by simp
next
  case (Some ts)
  then show ?thesis using handleLease_level [OF assms Some] by metis
qed

lemma worker_inv_Run: "worker_inv C L (Some (worker_Run now, Map.empty))"
  by (simp add: worker_Run_def linv_init inbox_ok_def)

lemma proc_pot_Run: "proc_pot t (Some (worker_Run now, Map.empty)) = 0"
  by (simp add: proc_pot_def worker_Run_def pool_tokens_def slots_def linit_def NewLimiter_def)

lemma sstep_ok:
  assumes st: "sstep cfg C lag s s'" and d: "deployable cfg C lag" and inv: "sys_inv cfg C lag b s"
  shows "step_ok cfg C lag b s s'"
proof -
  have sz: "sizes_ok C (lease_size cfg)" and L: "1 \<le> lease_size cfg"
    and cfg: "config_valid cfg" "config_typed cfg" "rates_ok cfg"
    using d by (auto simp: deployable_def config_valid_def lease_size_def)
  have ci: "coord_inv cfg lag b s" using inv by (simp add: sys_inv_def)
  have co: "server_ok c" "Size (c_Lease (co_cfg c)) = lease_size cfg" if "coord s = Some c" for c
    using ci that by (auto simp: coord_inv_def lease_size_def)
  from st show ?thesis
  proof cases
    case (local w l ib ev l')
    show ?thesis
      by (rule step_ok_worker [OF inv local(2)])
        (use worker_local [OF sz L proc_at_inv [OF inv local(2)] local(3,4)] local(1) in
          \<open>auto simp: set_proc_def\<close>)
  next
    case (serve c now w l ib i u bd wname r c')
    note ws = worker_serve [OF co(1) [OF serve(2)] co(2) [OF serve(2)] proc_at_inv [OF inv serve(4)]
        serve(5,6) serve(8) [unfolded serve(7)]]
    have "proc_pot t (Some (l, ib(i := Some r))) \<le> proc_pot t (Some (l, ib)) + granted_to t bd r" for t
      using ws(2) [of t] granted_to_nonneg [OF co(1) [OF serve(2)] serve(8), of t]
      by (auto simp: serve(7) split: if_splits)
    then show ?thesis
      unfolding serve(1) using ws(1) by (intro step_ok_serve [OF inv serve(2,3,8,4)]) auto
  next
    case (stray c now bd r c')
    have "coord_inv cfg lag b s'" unfolding stray(1) by (rule coord_inv_serve [OF ci stray(2-4)])
    then show ?thesis
      using inv granted_to_nonneg [OF co(1) [OF stray(2)] stray(4)] stray(1)
      by (simp add: step_ok_def sys_inv_def serve_def total_pot_def)
  next
    case (deliver w l ib i r now rand l')
    show ?thesis
      by (rule step_ok_worker [OF inv deliver(2)])
        (use worker_return [OF sz L proc_at_inv [OF inv deliver(2)] deliver(4), of r] deliver(1,3) in
          \<open>auto simp: set_proc_def\<close>)
  next
    case (fail w l ib i err now rand l')
    show ?thesis
      by (rule step_ok_worker [OF inv fail(2)])
        (use worker_return [OF sz L proc_at_inv [OF inv fail(2)] fail(3), of undefined err] fail(1) in
          \<open>auto simp: set_proc_def\<close>)
  next
    case (start_worker now)
    have "coord_inv cfg lag b s'" using ci by (rule coord_inv_same) (simp_all add: start_worker)
    then show ?thesis
      using inv proc_pot_Run worker_inv_Run
      by (auto simp: step_ok_def sys_inv_def start_worker total_pot_def)
  next
    case (crash_worker w l ib)
    have "0 \<le> pool_tokens l t + slots t (threads l) ib" for t
      using worker_stock(1) [OF sz proc_at_inv [OF inv crash_worker(2)], of t] by (simp add: worker_stock_def)
    then show ?thesis
      by (intro step_ok_worker [OF inv crash_worker(2), of None])
        (auto simp: crash_worker(1) set_proc_def proc_pot_def)
  next
    case (crash_coord c)
    then show ?thesis
      using inv coord_inv_crash [OF ci] by (simp add: step_ok_def sys_inv_def total_pot_def)
  next
    case (start_coord now started)
    then show ?thesis
      using inv coord_inv_start [OF ci start_coord(3) cfg]
      by (simp add: step_ok_def sys_inv_def total_pot_def)
  qed
qed

lemma ssteps_ok:
  assumes "ssteps cfg C lag s s'" and "deployable cfg C lag" and "sys_inv cfg C lag b s"
  shows "step_ok cfg C lag b s s'"
  using assms
proof (induction rule: ssteps.induct)
  case (nil s)
  then show ?case by (simp add: step_ok_def)
next
  case (snoc s s' s'')
  have 1: "step_ok cfg C lag b s s'" by (rule snoc.IH [OF snoc.prems])
  then have "step_ok cfg C lag b s' s''"
    using sstep_ok [OF snoc.hyps(2) snoc.prems(1), of b] unfolding step_ok_def by blast
  then have "total_pot s'' t - total_pot s' t \<le> g_granted s'' t - g_granted s' t"
      "total_pot s' t - total_pot s t \<le> g_granted s' t - g_granted s t" for t
    using 1 unfolding step_ok_def by blast+
  have "total_pot s'' t - total_pot s t \<le> g_granted s'' t - g_granted s t" for t
    using \<open>\<And>t. total_pot s' t - total_pot s t \<le> g_granted s' t - g_granted s t\<close> [of t]
      \<open>\<And>t. total_pot s'' t - total_pot s' t \<le> g_granted s'' t - g_granted s' t\<close> [of t]
    by linarith
  with \<open>step_ok cfg C lag b s' s''\<close> show ?case by (simp add: step_ok_def)
qed

definition sreach :: "Config \<Rightarrow> int \<Rightarrow> duration \<Rightarrow> sys \<Rightarrow> bool" where
  "sreach cfg C lag s \<longleftrightarrow> (\<exists>started t0. ssteps cfg C lag (sys_init cfg started t0) s)"

lemma sys_inv_init:
  assumes "deployable cfg C lag"
  shows "sys_inv cfg C lag (sys_init cfg started t0) (sys_init cfg started t0)"
proof -
  let ?s = "sys_init cfg started t0"
  have cfg: "config_valid cfg" "config_typed cfg" "rates_ok cfg"
    using assms by (auto simp: deployable_def)
  let ?e = "?s\<lparr>coord := None\<rparr>"
  have r0: "0 < rate" if "map_of (c_Tenants cfg) t = Some rate" for t rate
    using cfg(1) that by (auto simp: config_valid_def dest: map_of_SomeD)
  have wb: "rate \<le> window_budget lag ?s ?s rate t0" if "0 < rate" for rate
    unfolding window_budget_def using that by (intro budget_ge) auto
  have ok: "server_ok (Coordinator_New started t0 cfg)" using cfg by (rule server_ok_New)
  have f: "coord ?s = Some (Coordinator_New started t0 cfg)" "cnow ?s = t0"
    by (simp_all add: sys_init_def)
  have z: "granted_since ?s ?s t = 0" for t by (simp add: granted_since_def)
  have "tenant_inv lag ?s ?s t ts" if "co_tenants (Coordinator_New started t0 cfg) t = Some ts" for t ts
  proof -
    have "b_cap (bucket ts) = b_rate (bucket ts)" using ok that by (auto simp: server_ok_def)
    then show ?thesis
      using New_bucket [OF cfg(2) that] wb [OF r0] f by (auto simp: tenant_inv_def z)
  qed
  moreover have "of_int (granted_since ?s ?s t) \<le> window_budget lag ?s ?s rate (cnow ?s)"
    if "map_of (c_Tenants cfg) t = Some rate" for t rate
    using wb [OF r0 [OF that]] r0 [OF that] by (simp add: z f)
  ultimately have "coord_inv cfg lag ?s ?s"
    using ok assms by (simp add: coord_inv_def f z deployable_def)
  then show ?thesis by (simp add: sys_inv_def) (simp add: sys_init_def)
qed

lemma sys_inv_reach:
  assumes "sreach cfg C lag s" and d: "deployable cfg C lag"
  shows "sys_inv cfg C lag s s"
proof -
  obtain started t0 where "ssteps cfg C lag (sys_init cfg started t0) s"
    using assms(1) by (auto simp: sreach_def)
  then have "sys_inv cfg C lag (sys_init cfg started t0) s"
    using ssteps_ok [OF _ d sys_inv_init [OF d]] by (simp add: step_ok_def)
  then show ?thesis
    using coord_inv_refl d unfolding sys_inv_def deployable_def by blast
qed

lemma total_pot_split:
  "total_pot s t = total_admitted s t + sum_list (map (worker_stock t) (procs s))"
proof -
  have "proc_pot t p = proc_admitted t p + worker_stock t p" for p
    by (cases p) (auto simp: proc_pot_def proc_admitted_def worker_stock_def)
  then have "sum_list (map (proc_pot t) ps) =
      sum_list (map (proc_admitted t) ps) + sum_list (map (worker_stock t) ps)" for ps
    by (induction ps) auto
  then show ?thesis by (simp add: total_pot_def total_admitted_def)
qed

definition live_workers :: "sys \<Rightarrow> nat" where
  "live_workers s = length (filter (\<lambda>p. p \<noteq> None) (procs s))"

lemma stock_bounds:
  assumes "sys_inv cfg C lag b s" and "deployable cfg C lag"
  shows "0 \<le> sum_list (map (worker_stock t) (procs s))"
    and "sum_list (map (worker_stock t) (procs s)) \<le>
      int (live_workers s) * (low_mark C (lease_size cfg) + lease_size cfg)"
proof -
  let ?M = "low_mark C (lease_size cfg) + lease_size cfg"
  have sz: "sizes_ok C (lease_size cfg)" using assms(2) by (simp add: deployable_def)
  have w: "\<forall>p \<in> set (procs s). worker_inv C (lease_size cfg) p" using assms(1) by (simp add: sys_inv_def)
  then show "0 \<le> sum_list (map (worker_stock t) (procs s))"
    using worker_stock(1) [OF sz] by (intro sum_list_nonneg) auto
  have "sum_list (map (worker_stock t) ps) \<le> int (length (filter (\<lambda>p. p \<noteq> None) ps)) * ?M"
    if "\<forall>p \<in> set ps. worker_inv C (lease_size cfg) p" for ps
    using that
  proof (induction ps)
    case (Cons p ps)
    then show ?case using worker_stock(2) [OF sz, of p t] by (auto simp: distrib_right split: if_splits)
  qed simp
  then show "sum_list (map (worker_stock t) (procs s)) \<le> int (live_workers s) * ?M"
    using w by (simp add: live_workers_def)
qed

text \<open>Between two states, what is admitted is paid for by the stock of the workers that were live
  when the window began and by what the coordinators granted since.\<close>

lemma window_admitted:
  assumes "sreach cfg C lag b" and d: "deployable cfg C lag" and st: "ssteps cfg C lag b s"
  shows "total_admitted s t - total_admitted b t \<le>
      int (live_workers b) * (low_mark C (lease_size cfg) + lease_size cfg) + granted_since b s t"
    and "map_of (c_Tenants cfg) t = Some rate \<Longrightarrow>
      of_int (granted_since b s t) \<le>
        budget rate (restarts s - restarts b) (leases s - leases b) (cnow s - cnow b + lag)"
    and "map_of (c_Tenants cfg) t = None \<Longrightarrow> granted_since b s t = 0"
proof -
  have ib: "sys_inv cfg C lag b b" by (rule sys_inv_reach [OF assms(1,2)])
  have ok: "step_ok cfg C lag b b s" by (rule ssteps_ok [OF st d ib])
  then have iv: "sys_inv cfg C lag b s" by (simp add: step_ok_def)
  have "total_pot s t - total_pot b t \<le> granted_since b s t"
    using ok by (simp add: step_ok_def granted_since_def)
  then show "total_admitted s t - total_admitted b t \<le>
      int (live_workers b) * (low_mark C (lease_size cfg) + lease_size cfg) + granted_since b s t"
    using stock_bounds(1) [OF iv d, of t] stock_bounds(2) [OF ib d, of t]
    by (simp add: total_pot_split)
  have ci: "coord_inv cfg lag b s" using iv by (simp add: sys_inv_def)
  then show "map_of (c_Tenants cfg) t = None \<Longrightarrow> granted_since b s t = 0" by (simp add: coord_inv_def)
  have "max (cnow s) (cnow b - lag) - (cnow b - lag) = cnow s - cnow b + lag"
    using ci by (simp add: coord_inv_def)
  then have "window_budget lag b s rate (cnow s) =
      budget rate (restarts s - restarts b) (leases s - leases b) (cnow s - cnow b + lag)"
    by (simp only: window_budget_def)
  then show "map_of (c_Tenants cfg) t = Some rate \<Longrightarrow>
      of_int (granted_since b s t) \<le>
        budget rate (restarts s - restarts b) (leases s - leases b) (cnow s - cnow b + lag)"
    using ci unfolding coord_inv_def by metis
qed

text \<open>Tokens are granted by serving lease requests only.\<close>

lemma sstep_leases: "sstep cfg C lag s s' \<Longrightarrow> leases s \<le> leases s' \<and> (leases s' = leases s \<longrightarrow> g_granted s' = g_granted s)"
  by (erule sstep.cases) (auto simp: set_proc_def serve_def)

lemma ssteps_leases:
  "ssteps cfg C lag s s' \<Longrightarrow> leases s \<le> leases s' \<and> (leases s' = leases s \<longrightarrow> g_granted s' = g_granted s)"
  by (induction rule: ssteps.induct) (auto dest!: sstep_leases)

section \<open>Runs\<close>

lemma ssteps_trans: "ssteps cfg C lag s s' \<Longrightarrow> ssteps cfg C lag s' s'' \<Longrightarrow> ssteps cfg C lag s s''"
  by (rotate_tac 1, induction rule: ssteps.induct) (auto intro: ssteps.snoc)

lemma ssteps_one: "sstep cfg C lag s s' \<Longrightarrow> ssteps cfg C lag s s'"
  by (rule ssteps.snoc [OF ssteps.nil])

lemma set_proc_proc_at [simp]: "proc_at s w = Some x \<Longrightarrow> proc_at (set_proc w (Some y) s) w = Some y"
  by (simp add: proc_at_def set_proc_def split: if_splits)

lemma set_proc_set_proc [simp]: "set_proc w p (set_proc w q s) = set_proc w p s"
  by (simp add: set_proc_def)

text \<open>A run of one limiter is a run of the system.\<close>

lemma ssteps_lrun:
  "lrun evs l = Inr l' \<Longrightarrow> list_all (local_event C) evs \<Longrightarrow> proc_at s w = Some (l, ib) \<Longrightarrow>
    ssteps cfg C lag s (set_proc w (Some (l', ib)) s)"
proof (induction evs arbitrary: l s)
  case Nil
  then have "set_proc w (Some (l', ib)) s = s"
    by (auto simp: set_proc_def proc_at_def list_update_same_conv split: if_splits)
  then show ?case by (simp add: ssteps.nil)
next
  case (Cons e es)
  obtain m where m: "lstep e l = Inr m" "lrun es m = Inr l'"
    using Cons.prems(1) by (auto split: sum.splits)
  have "ssteps cfg C lag s (set_proc w (Some (m, ib)) s)"
    using Cons.prems m by (intro ssteps_one sstep.local) auto
  moreover have "ssteps cfg C lag (set_proc w (Some (m, ib)) s) (set_proc w (Some (l', ib)) s)"
    using Cons.IH [OF m(2), of "set_proc w (Some (m, ib)) s"] Cons.prems by auto
  ultimately show ?case by (rule ssteps_trans)
qed

end
