(* ===== verification/Driver.thy ===== *)
theory Driver
  imports Worker_Server
begin

text \<open>
  Package \<open>internal/loadgen\<close>, file \<open>driver.go\<close>: the results a load generator
  accumulates and the paced dispatch loop of one load. A method of \<open>TenantResult\<close> runs under its
  mutex and is a function of the result; its counters are 64-bit integers and wrap around. An index or slice out of
  range panics, which is \<open>None\<close>.

  The loop of \<open>runTenant\<close> is a machine whose events are a tick of its timer, the end of the context, one iteration of
  the dispatch loop, and the end of a request's goroutine; requests end between any two iterations. How \<open>Run\<close> drives
  several such loops to their end is the subject of theory \<open>Drive\<close>.
\<close>

section \<open>Definitions\<close>

record TenantLoad =
  tl_Tenant :: string
  tl_RPS :: float64
  tl_Concurrency :: int
  tl_Cost :: int

record SecBucket =
  sb_Admitted :: int
  sb_Rejected :: int
  sb_Errors :: int

definition zero_bucket :: SecBucket where
  "zero_bucket = \<lparr>sb_Admitted = 0, sb_Rejected = 0, sb_Errors = 0\<rparr>"

record TenantResult =
  Sent :: int
  tr_Admitted :: int
  tr_AdmittedTokens :: int
  tr_Rejected :: int
  ClientDrops :: int
  tr_Errors :: "(string \<times> int) list"
  latencies :: "float64 list"
  Buckets :: "SecBucket list"

definition zero_result :: TenantResult where
  "zero_result = \<lparr>Sent = 0, tr_Admitted = 0, tr_AdmittedTokens = 0, tr_Rejected = 0, ClientDrops = 0,
     tr_Errors = [], latencies = [], Buckets = []\<rparr>"

text \<open>\<open>m[k]++\<close> on a map given as the list of its entries.\<close>

fun incr :: "string \<Rightarrow> (string \<times> int) list \<Rightarrow> (string \<times> int) list" where
  "incr k [] = [(k, 1)]"
| "incr k ((k', n) # m) = (if k' = k then (k', i64 (n + 1)) # m else (k', n) # incr k m)"

definition grow_buckets :: "nat \<Rightarrow> SecBucket list \<Rightarrow> SecBucket list" where
  "grow_buckets sec bs = bs @ replicate (Suc sec - length bs) zero_bucket"

definition upd_bucket :: "nat \<Rightarrow> (SecBucket \<Rightarrow> SecBucket) \<Rightarrow> SecBucket list \<Rightarrow> SecBucket list" where
  "upd_bucket sec f bs = bs[sec := f (bs ! sec)]"

definition record_result :: "int \<Rightarrow> int \<Rightarrow> float64 \<Rightarrow> string option \<Rightarrow> int \<Rightarrow> TenantResult \<Rightarrow> TenantResult option" where
  "record_result sec code latMs transportErr cost r =
     (if sec < 0 then None
      else
        let k = nat sec; r = r\<lparr>Buckets := grow_buckets k (Buckets r)\<rparr> in
        Some
          (if transportErr \<noteq> None
           then r\<lparr>tr_Errors := incr ''transport'' (tr_Errors r),
                  Buckets := upd_bucket k (\<lambda>b. b\<lparr>sb_Errors := i64 (sb_Errors b + 1)\<rparr>) (Buckets r)\<rparr>
           else if code = StatusOK
           then r\<lparr>tr_Admitted := i64 (tr_Admitted r + 1), tr_AdmittedTokens := i64 (tr_AdmittedTokens r + cost),
                  Buckets := upd_bucket k (\<lambda>b. b\<lparr>sb_Admitted := i64 (sb_Admitted b + 1)\<rparr>) (Buckets r),
                  latencies := latencies r @ [latMs]\<rparr>
           else if code = StatusTooManyRequests
           then r\<lparr>tr_Rejected := i64 (tr_Rejected r + 1),
                  Buckets := upd_bucket k (\<lambda>b. b\<lparr>sb_Rejected := i64 (sb_Rejected b + 1)\<rparr>) (Buckets r),
                  latencies := latencies r @ [latMs]\<rparr>
           else r\<lparr>tr_Errors := incr (itoa code) (tr_Errors r),
                  Buckets := upd_bucket k (\<lambda>b. b\<lparr>sb_Errors := i64 (sb_Errors b + 1)\<rparr>) (Buckets r)\<rparr>))"

definition Percentile :: "float64 \<Rightarrow> TenantResult \<Rightarrow> float64 option" where
  "Percentile p r =
     (if latencies r = [] then Some 0
      else
        let sorted = sort (latencies r);
            idx = int_of_float (fmul (fdiv p 100) (float_of_int (int (length sorted) - 1))) in
        if 0 \<le> idx \<and> idx < int (length sorted) then Some (sorted ! nat idx) else None)"

definition ErrorCount :: "TenantResult \<Rightarrow> int" where
  "ErrorCount r = foldl (\<lambda>n (k, v). i64 (n + v)) 0 (tr_Errors r)"

definition WindowRate :: "int \<Rightarrow> int \<Rightarrow> (SecBucket \<Rightarrow> int) \<Rightarrow> TenantResult \<Rightarrow> float64 option" where
  "WindowRate from to metric r =
     (let to = (if int (length (Buckets r)) < to then int (length (Buckets r)) else to) in
      if to \<le> from then Some 0
      else if from < 0 then None
      else let sum = foldl (\<lambda>n b. i64 (n + metric b)) 0 (drop (nat from) (take (nat to) (Buckets r))) in
           Some (fdiv (float_of_int sum) (float_of_int (to - from))))"

type_synonym Results = "(string \<times> TenantResult) list"

definition TenantsSorted :: "Results \<Rightarrow> string list" where
  "TenantsSorted rs = sort (map fst rs)"

text \<open>\<open>Run\<close> makes one result per tenant; loads of the same tenant share it.\<close>

fun initial_results :: "TenantLoad list \<Rightarrow> Results" where
  "initial_results [] = []"
| "initial_results (l # ls) =
     (let rs = initial_results ls in
      if tl_Tenant l \<in> fst ` set rs then rs else (tl_Tenant l, zero_result) # rs)"

definition load_cost :: "TenantLoad \<Rightarrow> int" where
  "load_cost l = (if tl_Cost l < 1 then 1 else tl_Cost l)"

definition check_path :: "string \<Rightarrow> int \<Rightarrow> string" where
  "check_path tenant cost =
     ''/v1/check/'' @ tenant @ (if 1 < cost then ''?cost='' @ itoa cost else '''')"

definition check_url :: "string \<Rightarrow> TenantLoad \<Rightarrow> string" where
  "check_url workerURL l = workerURL @ check_path (tl_Tenant l) (load_cost l)"

text \<open>The dispatch loop of one load. \<open>p_todo\<close> counts the iterations of the inner loop still to
  run, \<open>p_busy\<close> the slots of the semaphore in use; \<open>p_drops\<close>, \<open>p_released\<close> and \<open>p_launched\<close>
  are history variables.\<close>

record pacer =
  p_quota :: float64
  p_last :: time
  p_todo :: int
  p_busy :: int
  p_drops :: int
  p_stopped :: bool
  p_released :: int
  p_launched :: int

datatype pace_event = Tick time | Cancel | Dispatch | Finish

definition pacer_init :: "time \<Rightarrow> pacer" where
  "pacer_init now = \<lparr>p_quota = 0, p_last = now, p_todo = 0, p_busy = 0, p_drops = 0, p_stopped = False,
     p_released = 0, p_launched = 0\<rparr>"

text \<open>A negative capacity makes the creation of the semaphore channel panic.\<close>

definition pacer_start :: "TenantLoad \<Rightarrow> time \<Rightarrow> pacer option" where
  "pacer_start l now = (if tl_Concurrency l < 0 then None else Some (pacer_init now))"

definition pacer_tick :: "TenantLoad \<Rightarrow> time \<Rightarrow> duration \<Rightarrow> time \<Rightarrow> pacer \<Rightarrow> pacer" where
  "pacer_tick l start dur now p =
     (if dur \<le> time_sub now start then p\<lparr>p_stopped := True\<rparr>
      else
        let quota = fadd (p_quota p) (fmul (Seconds (time_sub now (p_last p))) (tl_RPS l));
            n = int_of_float quota in
        p\<lparr>p_quota := fsub quota (float_of_int n), p_last := now, p_todo := max 0 n,
          p_released := p_released p + max 0 n\<rparr>)"

definition pacer_dispatch :: "TenantLoad \<Rightarrow> pacer \<Rightarrow> pacer" where
  "pacer_dispatch l p =
     (if p_busy p < tl_Concurrency l
      then p\<lparr>p_todo := p_todo p - 1, p_busy := p_busy p + 1, p_launched := p_launched p + 1\<rparr>
      else p\<lparr>p_todo := p_todo p - 1, p_drops := p_drops p + 1\<rparr>)"

text \<open>The \<open>select\<close> is reached only when the inner loop is done; a goroutine can end at any time.\<close>

fun pacer_step :: "TenantLoad \<Rightarrow> time \<Rightarrow> duration \<Rightarrow> pace_event \<Rightarrow> pacer \<Rightarrow> pacer option" where
  "pacer_step l start dur (Tick now) p =
     (if p_todo p = 0 \<and> \<not> p_stopped p \<and> p_last p \<le> now then Some (pacer_tick l start dur now p) else None)"
| "pacer_step l start dur Cancel p =
     (if p_todo p = 0 \<and> \<not> p_stopped p then Some (p\<lparr>p_stopped := True\<rparr>) else None)"
| "pacer_step l start dur Dispatch p =
     (if 0 < p_todo p \<and> \<not> p_stopped p then Some (pacer_dispatch l p) else None)"
| "pacer_step l start dur Finish p =
     (if 0 < p_busy p then Some (p\<lparr>p_busy := p_busy p - 1\<rparr>) else None)"

fun pacer_run :: "TenantLoad \<Rightarrow> time \<Rightarrow> duration \<Rightarrow> pace_event list \<Rightarrow> pacer \<Rightarrow> pacer option" where
  "pacer_run l start dur [] p = Some p"
| "pacer_run l start dur (e # es) p =
     (case pacer_step l start dur e p of None \<Rightarrow> None | Some p' \<Rightarrow> pacer_run l start dur es p')"

text \<open>One request. Its goroutine first counts it and notes the time; later the answer (a transport error or a
  status) and the time it took are recorded, unless the context has ended by then and the request failed.\<close>

record exchange =
  x_t0 :: time
  x_reply :: "string + int"
  x_cancelled :: bool
  x_latency :: duration

definition one_begin :: "TenantResult \<Rightarrow> TenantResult" where
  "one_begin r = r\<lparr>Sent := i64 (Sent r + 1)\<rparr>"

definition sec_of :: "time \<Rightarrow> exchange \<Rightarrow> int" where
  "sec_of start x = int_of_float (Seconds (time_sub (x_t0 x) start))"

definition lat_ms :: "exchange \<Rightarrow> float64" where
  "lat_ms x = fdiv (float_of_int (x_latency x sdiv 1000)) 1000"

definition one_end :: "int \<Rightarrow> time \<Rightarrow> exchange \<Rightarrow> TenantResult \<Rightarrow> TenantResult option" where
  "one_end cost start x r =
     (case x_reply x of
        Inl err \<Rightarrow> if x_cancelled x then Some r else record_result (sec_of start x) 0 0 (Some err) cost r
      | Inr status \<Rightarrow> record_result (sec_of start x) status (lat_ms x) None cost r)"

section \<open>The results\<close>

text \<open>A request that was sent after the start falls into a bucket.\<close>

lemma sec_nonneg:
  assumes "start \<le> t0"
  shows "0 \<le> int_of_float (Seconds (time_sub t0 start))"
proof -
  let ?d = "time_sub t0 start"
  have d0: "0 \<le> ?d" using assms by (rule time_sub_nonneg)
  have "0 \<le> secs ?d * (1 - 1 / 2 ^ 51)" using d0 by simp
  also have "\<dots> \<le> Seconds ?d" by (rule Seconds_bounds) (use d0 in auto)
  finally have s0: "0 \<le> Seconds ?d" .
  have "secs ?d \<le> secs max_i64" by (rule secs_mono) (simp add: time_sub_def min_i64_def max_i64_def)
  moreover have "Seconds ?d \<le> secs ?d * (1 + 1 / 2 ^ 50)" by (rule Seconds_bounds) (use d0 in auto)
  ultimately have "Seconds ?d \<le> secs max_i64 * (1 + 1 / 2 ^ 50)"
    by (meson mult_right_mono order_trans zero_le_divide_1_iff zero_le_power zero_le_numeral add_nonneg_nonneg zero_le_one)
  also have "\<dots> < 2 ^ 63" by (simp add: secs_def max_i64_def)
  finally show ?thesis using s0 by (simp add: int_of_float_floor)
qed

text \<open>What becomes of a request in the results: nothing if it was cut off by the end of the context, otherwise an
  error under its key, an admission or a rejection.\<close>

datatype verdict = VLost | VError string | VAdmitted | VRejected

definition verdict_of :: "exchange \<Rightarrow> verdict" where
  "verdict_of x =
     (case x_reply x of
        Inl err \<Rightarrow> if x_cancelled x then VLost else VError ''transport''
      | Inr status \<Rightarrow>
          if status = StatusOK then VAdmitted
          else if status = StatusTooManyRequests then VRejected
          else VError (itoa status))"

fun is_error :: "verdict \<Rightarrow> bool" where
  "is_error (VError k) = True"
| "is_error _ = False"

definition number :: "(exchange \<Rightarrow> bool) \<Rightarrow> (int \<times> exchange) list \<Rightarrow> int" where
  "number P xs = int (length (filter (P \<circ> snd) xs))"

definition error_of :: "TenantResult \<Rightarrow> string \<Rightarrow> int" where
  "error_of r k = (case map_of (tr_Errors r) k of None \<Rightarrow> 0 | Some n \<Rightarrow> n)"

definition bucket_of :: "TenantResult \<Rightarrow> nat \<Rightarrow> SecBucket" where
  "bucket_of r s = (if s < length (Buckets r) then Buckets r ! s else zero_bucket)"

definition exact_bucket :: "time \<Rightarrow> (int \<times> exchange) list \<Rightarrow> nat \<Rightarrow> SecBucket" where
  "exact_bucket start xs s =
     (let n = (\<lambda>P. i64 (number (\<lambda>x. P (verdict_of x) \<and> sec_of start x = int s) xs)) in
      \<lparr>sb_Admitted = n ((=) VAdmitted), sb_Rejected = n ((=) VRejected), sb_Errors = n is_error\<rparr>)"

text \<open>A result that stands for the requests \<open>xs\<close>, given with their costs in the order in which they ended:
  every counter, the errors by key, every second of the series, and the latencies.\<close>

definition exact_result :: "time \<Rightarrow> (int \<times> exchange) list \<Rightarrow> TenantResult \<Rightarrow> bool" where
  "exact_result start xs r \<longleftrightarrow>
     tr_Admitted r = i64 (number (\<lambda>x. verdict_of x = VAdmitted) xs) \<and>
     tr_AdmittedTokens r = i64 (sum_list (map fst (filter (\<lambda>cx. verdict_of (snd cx) = VAdmitted) xs))) \<and>
     tr_Rejected r = i64 (number (\<lambda>x. verdict_of x = VRejected) xs) \<and>
     (\<forall>k. error_of r k = i64 (number (\<lambda>x. verdict_of x = VError k) xs)) \<and>
     ErrorCount r = i64 (number (\<lambda>x. is_error (verdict_of x)) xs) \<and>
     latencies r = map (lat_ms \<circ> snd) (filter (\<lambda>cx. verdict_of (snd cx) \<in> {VAdmitted, VRejected}) xs) \<and>
     (\<forall>s. bucket_of r s = exact_bucket start xs s)"

lemma number_snoc: "number P (xs @ [(c, x)]) = number P xs + (if P x then 1 else 0)"
  by (simp add: number_def)

lemma i64_zero [simp]: "i64 0 = 0"
  by (simp add: i64_def)

lemma number_Nil [simp]: "number P [] = 0"
  by (simp add: number_def)

lemma error_of_incr:
  "(case map_of (incr k m) k' of None \<Rightarrow> 0 | Some n \<Rightarrow> n) =
    (let n = (case map_of m k' of None \<Rightarrow> 0 | Some n \<Rightarrow> n) in if k' = k then i64 (n + 1) else n)"
  by (induction k m rule: incr.induct) (auto simp: Let_def i64_def)

lemma foldl_i64:
  "foldl (\<lambda>n (k, v). i64 (n + v)) (i64 a) m = i64 (a + sum_list (map snd m))"
  by (induction m arbitrary: a) (auto simp: i64_add_left add.assoc)

lemma ErrorCount_sum: "ErrorCount r = i64 (sum_list (map snd (tr_Errors r)))"
  using foldl_i64 [of 0 "tr_Errors r"] by (simp add: ErrorCount_def)

lemma incr_sum: "i64 (sum_list (map snd (incr k m)) + b) = i64 (sum_list (map snd m) + 1 + b)"
proof (induction k m arbitrary: b rule: incr.induct)
  case (2 k k' n m)
  show ?case
  proof (cases "k' = k")
    case True
    then show ?thesis
      using i64_add_left [of "n + 1" "sum_list (map snd m) + b"] by (simp add: ac_simps)
  next
    case False
    then show ?thesis using 2 [OF False, of "b + n"] by (simp add: ac_simps)
  qed
qed simp

lemma bucket_of_upd:
  "bucket_of (r1\<lparr>Buckets := upd_bucket k f (grow_buckets k (Buckets r))\<rparr>) s =
    (if s = k then f (bucket_of r s) else bucket_of r s)"
  by (auto simp: bucket_of_def upd_bucket_def nth_list_update grow_buckets_def nth_append)

lemma bucket_of_latencies [simp]: "bucket_of (r\<lparr>latencies := l\<rparr>) s = bucket_of r s"
  by (simp add: bucket_of_def)

lemma one_end_eq:
  assumes "0 \<le> sec_of start x"
  shows "one_end cost start x r = Some
    (let k = nat (sec_of start x); b = (\<lambda>f. upd_bucket k f (grow_buckets k (Buckets r))) in
     case verdict_of x of
       VLost \<Rightarrow> r
     | VError e \<Rightarrow> r\<lparr>tr_Errors := incr e (tr_Errors r), Buckets := b (\<lambda>b. b\<lparr>sb_Errors := i64 (sb_Errors b + 1)\<rparr>)\<rparr>
     | VAdmitted \<Rightarrow> r\<lparr>tr_Admitted := i64 (tr_Admitted r + 1), tr_AdmittedTokens := i64 (tr_AdmittedTokens r + cost),
         Buckets := b (\<lambda>b. b\<lparr>sb_Admitted := i64 (sb_Admitted b + 1)\<rparr>), latencies := latencies r @ [lat_ms x]\<rparr>
     | VRejected \<Rightarrow> r\<lparr>tr_Rejected := i64 (tr_Rejected r + 1),
         Buckets := b (\<lambda>b. b\<lparr>sb_Rejected := i64 (sb_Rejected b + 1)\<rparr>), latencies := latencies r @ [lat_ms x]\<rparr>)"
  using assms by (auto simp: one_end_def record_result_def verdict_of_def Let_def status_defs split: sum.splits)

lemma exact_bucket_snoc:
  "exact_bucket start (xs @ [(c, x)]) s =
    (let b = exact_bucket start xs s in
     if sec_of start x \<noteq> int s then b
     else case verdict_of x of
       VLost \<Rightarrow> b
     | VError e \<Rightarrow> b\<lparr>sb_Errors := i64 (sb_Errors b + 1)\<rparr>
     | VAdmitted \<Rightarrow> b\<lparr>sb_Admitted := i64 (sb_Admitted b + 1)\<rparr>
     | VRejected \<Rightarrow> b\<lparr>sb_Rejected := i64 (sb_Rejected b + 1)\<rparr>)"
  by (cases "verdict_of x") (simp_all add: exact_bucket_def Let_def number_snoc i64_add_left)

lemma exact_buckets_end:
  assumes "\<forall>s. bucket_of r s = exact_bucket start xs s" and sec: "0 \<le> sec_of start x"
    and "one_end cost start x r = Some r'"
  shows "bucket_of r' s = exact_bucket start (xs @ [(cost, x)]) s"
proof -
  let ?k = "nat (sec_of start x)"
  have k: "s = ?k \<longleftrightarrow> sec_of start x = int s" using sec by auto
  show ?thesis
    using assms(1,3) k unfolding one_end_eq [OF sec] exact_bucket_snoc
    by (cases "verdict_of x") (auto simp: Let_def bucket_of_upd)
qed

lemma exact_result_end:
  assumes ex: "exact_result start xs r" and sec: "0 \<le> sec_of start x" and e: "one_end cost start x r = Some r'"
  shows "exact_result start (xs @ [(cost, x)]) r'"
proof -
  have "\<forall>s. bucket_of r' s = exact_bucket start (xs @ [(cost, x)]) s"
    using exact_buckets_end [OF _ sec e] ex by (simp add: exact_result_def)
  moreover have "error_of r' k = i64 (number (\<lambda>x. verdict_of x = VError k) (xs @ [(cost, x)]))" for k
  proof -
    have "error_of r k = i64 (number (\<lambda>x. verdict_of x = VError k) xs)" using ex by (simp add: exact_result_def)
    then show ?thesis
      using e unfolding one_end_eq [OF sec]
      by (cases "verdict_of x") (auto simp: Let_def error_of_def error_of_incr number_snoc i64_add_left)
  qed
  moreover have "ErrorCount r' = i64 (number (\<lambda>x. is_error (verdict_of x)) (xs @ [(cost, x)]))"
  proof -
    have n: "ErrorCount r = i64 (number (\<lambda>x. is_error (verdict_of x)) xs)" using ex by (simp add: exact_result_def)
    have "ErrorCount (r1\<lparr>tr_Errors := incr k (tr_Errors r)\<rparr>) = i64 (ErrorCount r + 1)" for r1 k
      using incr_sum [of k "tr_Errors r" 0] by (simp add: ErrorCount_sum i64_add_left)
    moreover have "ErrorCount r1 = ErrorCount r2" if "tr_Errors r1 = tr_Errors r2" for r1 r2
      using that by (simp add: ErrorCount_def)
    ultimately have "ErrorCount r' = (if is_error (verdict_of x) then i64 (ErrorCount r + 1) else ErrorCount r)"
      using e unfolding one_end_eq [OF sec] by (cases "verdict_of x") (auto simp: Let_def ErrorCount_sum)
    then show ?thesis by (simp add: n number_snoc i64_add_left)
  qed
  ultimately show ?thesis
    using e ex unfolding one_end_eq [OF sec] exact_result_def
    by (cases "verdict_of x") (auto simp: Let_def number_snoc i64_add_left)
qed

lemma one_end_keeps:
  assumes "0 \<le> sec_of start x" and "one_end cost start x r = Some r'"
  shows "Sent r' = Sent r" and "ClientDrops r' = ClientDrops r"
  using assms(2) unfolding one_end_eq [OF assms(1)] by (cases "verdict_of x"; auto simp: Let_def)+

lemma exact_result_upd [simp]:
  "exact_result start xs (r\<lparr>Sent := n\<rparr>) = exact_result start xs r"
  "exact_result start xs (r\<lparr>ClientDrops := n\<rparr>) = exact_result start xs r"
  by (simp_all add: exact_result_def error_of_def bucket_of_def ErrorCount_def)

lemma exact_result_zero: "exact_result start [] zero_result"
  by (simp add: exact_result_def zero_result_def error_of_def bucket_of_def ErrorCount_def exact_bucket_def zero_bucket_def)

lemma initial_results_of:
  "map_of (initial_results ls) t = (if t \<in> tl_Tenant ` set ls then Some zero_result else None)"
  "distinct (map fst (initial_results ls))" "fst ` set (initial_results ls) = tl_Tenant ` set ls"
proof (induction ls)
  case (Cons l ls)
  {
    case 1
    show ?case using Cons by (auto simp: Let_def)
  next
    case 2
    show ?case using Cons by (auto simp: Let_def)
  next
    case 3
    show ?case using Cons by (auto simp: Let_def)
  }
qed simp_all

section \<open>Percentiles\<close>

definition rank_index :: "float64 \<Rightarrow> nat \<Rightarrow> int" where
  "rank_index p n = int_of_float (fmul (fdiv p 100) (float_of_int (int n - 1)))"

lemma rank_index_range:
  assumes "0 \<le> p" and "p \<le> 100" and "0 < n" and "n \<le> 2 ^ 53"
  shows "0 \<le> rank_index p n" and "rank_index p n < int n"
    and "rank_index p n = \<lfloor>rnd (rnd (p / 100) * of_int (int n - 1))\<rfloor>"
proof -
  let ?q = "rnd (p / 100)" and ?m = "int n - 1"
  have m: "0 \<le> ?m" "?m \<le> 2 ^ 53" using assms(3,4) by simp_all
  have fi: "float_of_int ?m = of_int ?m" using m by (intro float_of_int_exact) simp
  have q: "0 \<le> ?q" "?q \<le> 1"
    using assms(1,2) rnd_le [of 1 "p / 100"] by (auto intro: rnd_nonneg simp: is_float64_def)
  let ?x = "rnd (?q * of_int ?m)"
  have "?q * of_int ?m \<le> 1 * of_int ?m" using q m(1) by (intro mult_right_mono) auto
  then have "?x \<le> rnd (of_int ?m)" using rnd_mono by fastforce
  moreover have "rnd (of_int ?m) = of_int ?m" using m by (intro rnd_of_int) simp
  ultimately have x: "?x \<le> of_int ?m" "0 \<le> ?x" using m q by (simp_all only: rnd_nonneg mult_nonneg_nonneg of_int_0_le_iff)
  have "(of_int ?m :: rat) \<le> of_int (2 ^ 53)" using m(2) by (simp only: of_int_le_iff)
  then have "?x < 2 ^ 63" using x(1) by simp
  then show e: "rank_index p n = \<lfloor>?x\<rfloor>"
    using x(2) by (simp add: rank_index_def fmul_def fdiv_def fi int_of_float_floor)
  have "\<lfloor>?x\<rfloor> \<le> ?m" using x(1) floor_mono [OF x(1)] by simp
  then show "0 \<le> rank_index p n" "rank_index p n < int n" using x(2) e by simp_all
qed

lemma rank_index_mono:
  assumes "0 \<le> p" and "p \<le> q" and "q \<le> 100" and "0 < n" and "n \<le> 2 ^ 53"
  shows "rank_index p n \<le> rank_index q n"
proof -
  have "rnd (p / 100) \<le> rnd (q / 100)" using assms(2) by (intro rnd_mono) (simp add: divide_right_mono)
  then have "rnd (p / 100) * of_int (int n - 1) \<le> rnd (q / 100) * of_int (int n - 1)"
    using assms(4) by (intro mult_right_mono) auto
  then show ?thesis using rank_index_range(3) [of _ n] assms by (simp add: floor_mono rnd_mono)
qed

lemma Percentile_eq:
  assumes "0 \<le> p" and "p \<le> 100" and "latencies r \<noteq> []" and "length (latencies r) \<le> 2 ^ 53"
  shows "Percentile p r = Some (sort (latencies r) ! nat (rank_index p (length (latencies r))))"
  using rank_index_range [of p "length (latencies r)"] assms
  by (simp add: Percentile_def Let_def rank_index_def)

text \<open>The element of rank \<open>k\<close>: at most \<open>k\<close> are smaller, more than \<open>k\<close> are not greater.\<close>

lemma sorted_rank:
  fixes xs :: "'a::linorder list"
  assumes "sorted xs" and "k < length xs"
  shows "length (filter (\<lambda>x. x < xs ! k) xs) \<le> k" and "k < length (filter (\<lambda>x. x \<le> xs ! k) xs)"
proof -
  have "filter (\<lambda>x. x < xs ! k) (drop k xs) = []"
    using assms by (auto simp: filter_empty_conv in_set_conv_nth not_less sorted_nth_mono)
  then have "filter (\<lambda>x. x < xs ! k) xs = filter (\<lambda>x. x < xs ! k) (take k xs)"
    by (metis append_Nil2 append_take_drop_id filter_append)
  then show "length (filter (\<lambda>x. x < xs ! k) xs) \<le> k"
    using length_filter_le [of "\<lambda>x. x < xs ! k" "take k xs"] assms(2) by simp
  have "filter (\<lambda>x. x \<le> xs ! k) (take (Suc k) xs) = take (Suc k) xs"
    using assms by (auto simp: filter_id_conv in_set_conv_nth sorted_nth_mono)
  then have "Suc k \<le> length (filter (\<lambda>x. x \<le> xs ! k) (take (Suc k) xs))" using assms(2) by simp
  also have "\<dots> \<le> length (filter (\<lambda>x. x \<le> xs ! k) xs)"
    by (metis append_take_drop_id filter_append length_append le_add1)
  finally show "k < length (filter (\<lambda>x. x \<le> xs ! k) xs)" by simp
qed

lemma length_filter_sort: "length (filter P (sort xs)) = length (filter P xs)"
  by (simp add: filter_sort)

section \<open>The request a load sends\<close>

text \<open>Tenant names that stand in a path as they are: printable characters other than the delimiters
  and the percent sign, and no dot segment.\<close>

definition url_safe :: "string \<Rightarrow> bool" where
  "url_safe t \<longleftrightarrow>
     t \<notin> {'''', ''.'', ''..''} \<and>
     (\<forall>c \<in> set t. 32 < (of_char c :: nat) \<and> (of_char c :: nat) < 127 \<and> c \<notin> {CHR ''/'', CHR ''?'', CHR ''#'', CHR ''%''})"

lemma get_request_check_path:
  assumes "url_safe t" and "1 \<le> cost"
  shows "get_request (check_path t cost) =
    \<lparr>rq_method = ''GET'', rq_path = [''v1'', ''check'', t],
     rq_query = (if cost = 1 then [] else [(''cost'', itoa cost)]), rq_header = [], rq_body = Text ''''\<rparr>"
proof -
  have t: "CHR ''/'' \<notin> set t" "CHR ''?'' \<notin> set t" using assms(1) by (auto simp: url_safe_def)
  let ?p = "''/v1/check/'' @ t"
  have q: "CHR ''?'' \<notin> set ?p" using t by simp
  have path: "tl (split_on CHR ''/'' ?p) = [''v1'', ''check'', t]" using split_on_none [OF t(1)] by simp
  show ?thesis
  proof (cases "cost = 1")
    case True
    then show ?thesis
      using before_none [OF q] path by (simp add: get_request_def check_path_def parse_query_def)
  next
    case False
    then have c: "check_path t cost = ?p @ CHR ''?'' # (''cost='' @ itoa cost)"
      using assms(2) by (simp add: check_path_def)
    have i: "CHR ''&'' \<notin> set (itoa cost)" using itoa_pos_chars assms(2) by simp
    have "CHR ''&'' \<notin> set (''cost='' @ itoa cost)" using i by simp
    then have "split_on CHR ''&'' (''cost='' @ itoa cost) = [''cost='' @ itoa cost]" by (rule split_on_none)
    moreover have "before CHR ''='' (''cost'' @ CHR ''='' # itoa cost) = ''cost'' \<and>
        after CHR ''='' (''cost'' @ CHR ''='' # itoa cost) = itoa cost"
      by (rule before_append) simp
    ultimately have "parse_query (''cost='' @ itoa cost) = [(''cost'', itoa cost)]"
      by (simp add: parse_query_def)
    then show ?thesis
      using before_append [OF q, of "''cost='' @ itoa cost"] path False unfolding c get_request_def by simp
  qed
qed

section \<open>Pacing\<close>

text \<open>Slots, iterations and requests are accounted for, and the quota stays below one request.\<close>

definition pacer_ok :: "TenantLoad \<Rightarrow> pacer \<Rightarrow> bool" where
  "pacer_ok l p \<longleftrightarrow>
     0 \<le> p_busy p \<and> p_busy p \<le> tl_Concurrency l \<and> 0 \<le> p_todo p \<and> 0 \<le> p_drops p \<and>
     p_busy p \<le> p_launched p \<and> p_launched p + p_drops p + p_todo p = p_released p"

lemma pacer_ok_init: "0 \<le> tl_Concurrency l \<Longrightarrow> pacer_ok l (pacer_init now)"
  by (simp add: pacer_ok_def pacer_init_def)

lemma pacer_ok_step: "pacer_ok l p \<Longrightarrow> pacer_step l start dur e p = Some p' \<Longrightarrow> pacer_ok l p'"
  by (cases e) (auto simp: pacer_ok_def pacer_tick_def pacer_dispatch_def Let_def split: if_splits)

lemma pacer_ok_run: "pacer_ok l p \<Longrightarrow> pacer_run l start dur es p = Some p' \<Longrightarrow> pacer_ok l p'"
  by (induction es arbitrary: p) (auto split: option.splits intro: pacer_ok_step)

text \<open>One tick releases the whole part of the quota and keeps the rest; the quota grows with the clock
  at the offered rate. Float64 adds a relative error of \<open>2 ^ -48\<close> and \<open>2 ^ -52\<close> per tick.\<close>

definition quota_ok :: "TenantLoad \<Rightarrow> pacer \<Rightarrow> bool" where
  "quota_ok l p \<longleftrightarrow> is_float64 (p_quota p) \<and> 0 \<le> p_quota p \<and> p_quota p < 1"

lemma tick_quota:
  assumes ok: "quota_ok l p" and d: "0 \<le> d" "in_i64 d" and rps: "0 \<le> tl_RPS l" and big: "tl_RPS l * secs d \<le> 2 ^ 50"
    and q: "q = fadd (p_quota p) (fmul (Seconds d) (tl_RPS l))" and n: "n = int_of_float q"
    and q': "q' = fsub q (float_of_int n)"
  shows "0 \<le> n" and "is_float64 q'" and "0 \<le> q'" and "q' < 1"
    and "q' + of_int n \<le> p_quota p + tl_RPS l * (1 + 1 / 2 ^ 48) * secs d + 1 / 2 ^ 52"
    and "p_quota p + tl_RPS l * (1 - 1 / 2 ^ 48) * secs d - 1 / 2 ^ 52 \<le> q' + of_int n"
proof -
  let ?Q = "p_quota p" and ?p = "fmul (Seconds d) (tl_RPS l)" and ?x = "tl_RPS l * secs d"
  have Q: "is_float64 ?Q" "0 \<le> ?Q" "?Q < 1" using ok by (auto simp: quota_ok_def)
  have x0: "0 \<le> ?x" using rps d by simp
  have p0: "0 \<le> ?p" by (rule increment_bounds [OF d rps])
  have p1: "?p \<le> ?x * (1 + 1 / 2 ^ 49) + tiny64" using increment_bounds(2) [OF d rps] by (simp add: mult_ac)
  have p2: "?x * (1 - 1 / 2 ^ 49) - tiny64 \<le> ?p" using increment_lower [OF d rps] by (simp add: mult_ac)
  have qu: "q \<le> (?Q + ?p) * (1 + 1 / 2 ^ 53) + tiny64" and ql: "(?Q + ?p) * (1 - 1 / 2 ^ 53) - tiny64 \<le> q"
    unfolding q fadd_def using Q p0 by (intro rnd_upper rnd_lower; simp)+
  have q0: "0 \<le> q" unfolding q fadd_def using Q p0 by (simp add: rnd_nonneg)
  have fq: "is_float64 q" by (simp add: q fadd_def)
  note ts = tiny64_small tiny64_nonneg
  have up: "q \<le> ?Q + ?x * (1 + 1 / 2 ^ 48) + 1 / 2 ^ 52"
    using qu p1 Q x0 ts by (simp add: field_simps)
  have lo: "?Q + ?x * (1 - 1 / 2 ^ 48) - 1 / 2 ^ 52 \<le> q"
    using ql p2 Q x0 ts by (simp add: field_simps)
  have "?x * (1 + 1 / 2 ^ 48) \<le> 2 ^ 50 * (1 + 1 / 2 ^ 48)" using big by (intro mult_right_mono) auto
  then have qb: "q \<le> 2 ^ 53" using up Q by simp
  have nf: "n = \<lfloor>q\<rfloor>" unfolding n using q0 qb by (intro int_of_float_floor) auto
  show n0: "0 \<le> n" using q0 by (simp add: nf)
  have nq: "of_int n \<le> q" "q < of_int n + 1" unfolding nf by linarith+
  have "(of_int n :: rat) \<le> of_int (2 ^ 53)" using nq(1) qb by simp
  then have "float_of_int n = of_int n" using n0 by (intro float_of_int_exact) (simp only: of_int_le_iff abs_of_nonneg)
  moreover have fd: "is_float64 (q - of_int n)" by (rule is_float64_diff_int [OF fq n0 nq(1) qb])
  ultimately have e: "q' = q - of_int n" unfolding q' fsub_def by (simp add: rnd_id)
  show "is_float64 q'" "0 \<le> q'" "q' < 1" using fd nq by (simp_all add: e)
  show "q' + of_int n \<le> ?Q + tl_RPS l * (1 + 1 / 2 ^ 48) * secs d + 1 / 2 ^ 52"
    and "?Q + tl_RPS l * (1 - 1 / 2 ^ 48) * secs d - 1 / 2 ^ 52 \<le> q' + of_int n"
    using up lo by (simp_all add: e mult_ac)
qed

text \<open>The whole run: requests released and the quota left are the offered rate times the time.\<close>

definition pace_inv :: "TenantLoad \<Rightarrow> time \<Rightarrow> time \<Rightarrow> nat \<Rightarrow> pacer \<Rightarrow> bool" where
  "pace_inv l start t0 k p \<longleftrightarrow>
     quota_ok l p \<and> start \<le> t0 \<and> t0 \<le> p_last p \<and>
     of_int (p_released p) + p_quota p \<le>
       tl_RPS l * (1 + 1 / 2 ^ 48) * secs (p_last p - t0) + of_nat k / 2 ^ 52 \<and>
     tl_RPS l * (1 - 1 / 2 ^ 48) * secs (p_last p - t0) - of_nat k / 2 ^ 52 \<le>
       of_int (p_released p) + p_quota p"

lemma pace_inv_init: "start \<le> t0 \<Longrightarrow> pace_inv l start t0 0 (pacer_init t0)"
  by (simp add: pace_inv_def quota_ok_def pacer_init_def secs_def is_float64_def)

fun is_tick :: "pace_event \<Rightarrow> bool" where
  "is_tick (Tick now) = True"
| "is_tick _ = False"

lemma pace_inv_mono: "pace_inv l start t0 k p \<Longrightarrow> pace_inv l start t0 (Suc k) p"
  by (auto simp: pace_inv_def field_simps)

lemma pace_inv_tick:
  assumes inv: "pace_inv l start t0 k p" and rps: "0 \<le> tl_RPS l" and dur: "dur \<le> max_i64"
    and big: "tl_RPS l * secs dur \<le> 2 ^ 50" and now: "p_last p \<le> now" and d0: "0 \<le> dur"
  shows "pace_inv l start t0 (Suc k) (pacer_tick l start dur now p)"
proof (cases "dur \<le> time_sub now start")
  case True
  then show ?thesis
    using pace_inv_mono [OF inv] by (simp add: pacer_tick_def pace_inv_def quota_ok_def)
next
  case False
  let ?d = "time_sub now (p_last p)"
  have inv': "quota_ok l p" "start \<le> t0" "t0 \<le> p_last p" using inv by (auto simp: pace_inv_def)
  have ns: "now - start < dur"
    using False inv' now dur by (auto simp: time_sub_def min_def max_def split: if_splits)
  have d: "?d = now - p_last p" using now ns inv' dur by (intro time_sub_exact) auto
  have "secs ?d \<le> secs dur" using ns inv' by (intro secs_mono) (simp add: d)
  then have bigd: "tl_RPS l * secs ?d \<le> 2 ^ 50" using big rps by (meson mult_left_mono order_trans)
  define q where "q = fadd (p_quota p) (fmul (Seconds ?d) (tl_RPS l))"
  define n where "n = int_of_float q"
  define q' where "q' = fsub q (float_of_int n)"
  have dd: "0 \<le> ?d" "in_i64 ?d" using now by (simp_all add: d) (simp flip: d)
  note t = tick_quota [OF inv'(1) dd rps bigd q_def n_def q'_def]
  have p': "pacer_tick l start dur now p =
      p\<lparr>p_quota := q', p_last := now, p_todo := n, p_released := p_released p + n\<rparr>"
    using False t(1) by (simp add: pacer_tick_def Let_def q_def n_def q'_def)
  have s: "secs (now - t0) = secs (p_last p - t0) + secs ?d" unfolding d by (simp flip: secs_add)
  show ?thesis
    using inv t inv'(2,3) now unfolding p' pace_inv_def quota_ok_def
    by (simp add: s distrib_left add_divide_distrib)
qed

lemma pace_inv_step:
  assumes inv: "pace_inv l start t0 k p" and rps: "0 \<le> tl_RPS l" and dur: "0 \<le> dur" "dur \<le> max_i64"
    and big: "tl_RPS l * secs dur \<le> 2 ^ 50" and step: "pacer_step l start dur e p = Some p'"
  shows "pace_inv l start t0 (k + (if is_tick e then 1 else 0)) p'"
proof (cases e)
  case (Tick now)
  then have "p_last p \<le> now" and "p' = pacer_tick l start dur now p"
    using step by (auto split: if_splits)
  then show ?thesis using pace_inv_tick [OF inv rps dur(2) big _ dur(1)] Tick by simp
qed (use inv step in \<open>auto simp: pace_inv_def quota_ok_def pacer_dispatch_def split: if_splits\<close>)

lemma pace_inv_run:
  assumes "pace_inv l start t0 k p" and rps: "0 \<le> tl_RPS l" and dur: "0 \<le> dur" "dur \<le> max_i64"
    and big: "tl_RPS l * secs dur \<le> 2 ^ 50" and "pacer_run l start dur es p = Some p'"
  shows "pace_inv l start t0 (k + length (filter is_tick es)) p'"
  using assms(1,6)
proof (induction es arbitrary: k p)
  case (Cons e es)
  then obtain p1 where p1: "pacer_step l start dur e p = Some p1" "pacer_run l start dur es p1 = Some p'"
    by (auto split: option.splits)
  from Cons.IH [OF pace_inv_step [OF Cons.prems(1) rps dur big p1(1)] p1(2)]
  show ?case by (cases "is_tick e") auto
qed simp

section \<open>Properties\<close>

text \<open>C40. For \<open>p\<close> between 0 and 100 and a non-empty result, \<open>Percentile p\<close> never panics and
  is an order statistic of the recorded latencies: with \<open>k\<close> the whole part of the float64 product
  \<open>p / 100\<close> times \<open>n - 1\<close>, at most \<open>k\<close> latencies are below it and more than \<open>k\<close> are at
  most it; and it is monotone in \<open>p\<close>.\<close>

theorem Percentile_order_statistic:
  assumes "0 \<le> p" and "p \<le> q" and "q \<le> 100" and "latencies r \<noteq> []" and "length (latencies r) \<le> 2 ^ 53"
  shows "\<exists>v w k. Percentile p r = Some v \<and> Percentile q r = Some w \<and> v \<le> w \<and> v \<in> set (latencies r) \<and>
    int k = \<lfloor>fmul (fdiv p 100) (of_nat (length (latencies r) - 1))\<rfloor> \<and> k < length (latencies r) \<and>
    length (filter (\<lambda>x. x < v) (latencies r)) \<le> k \<and> k < length (filter (\<lambda>x. x \<le> v) (latencies r))"
proof -
  let ?s = "sort (latencies r)" and ?n = "length (latencies r)"
  let ?i = "rank_index p ?n" and ?j = "rank_index q ?n"
  have n: "0 < ?n" using assms(4) by simp
  have i: "0 \<le> ?i" "?i < int ?n" and f: "?i = \<lfloor>rnd (rnd (p / 100) * of_int (int ?n - 1))\<rfloor>"
    using rank_index_range [of p ?n] n assms by auto
  have j: "?j < int ?n" using rank_index_range [of q ?n] n assms by auto
  have ij: "?i \<le> ?j" using rank_index_mono [of p q ?n] n assms by auto
  have vw: "?s ! nat ?i \<le> ?s ! nat ?j" using i j ij by (intro sorted_nth_mono) auto
  have k: "nat ?i < length ?s" using i by simp
  have pq: "Percentile p r = Some (?s ! nat ?i)" "Percentile q r = Some (?s ! nat ?j)"
    using Percentile_eq [of p r] Percentile_eq [of q r] assms by auto
  have m: "(of_int (int ?n - 1) :: rat) = of_nat (?n - 1)" using n by (metis Suc_leI One_nat_def of_int_of_nat_eq of_nat_1 of_nat_diff)
  have "int (nat ?i) = ?i" using i(1) by simp
  also have "\<dots> = \<lfloor>fmul (fdiv p 100) (of_nat (?n - 1))\<rfloor>" unfolding f m fmul_def fdiv_def ..
  finally have e: "int (nat ?i) = \<lfloor>fmul (fdiv p 100) (of_nat (?n - 1))\<rfloor>" .
  have r: "length (filter (\<lambda>x. x < ?s ! nat ?i) (latencies r)) \<le> nat ?i"
    "nat ?i < length (filter (\<lambda>x. x \<le> ?s ! nat ?i) (latencies r))"
    using sorted_rank [OF sorted_sort k] by (simp_all only: length_filter_sort)
  show ?thesis
    by (rule exI [of _ "?s ! nat ?i"], rule exI [of _ "?s ! nat ?j"], rule exI [of _ "nat ?i"])
      (use pq vw k e r nth_mem [OF k] in \<open>simp only: set_sort length_sort simp_thms\<close>)
qed

theorem Percentile_order_statistic_witness:
  "\<exists>v w. Percentile 50 (zero_result\<lparr>latencies := [3, 1, 2]\<rparr>) = Some v \<and>
     Percentile 100 (zero_result\<lparr>latencies := [3, 1, 2]\<rparr>) = Some w \<and> v \<le> w \<and> v \<in> {1, 2, 3}"
  using Percentile_order_statistic [of 50 100 "zero_result\<lparr>latencies := [3, 1, 2]\<rparr>"] by auto

text \<open>C39. The dispatch loop of one load, under every interleaving of ticks, iterations and ends of requests:
  at most \<open>Concurrency\<close> requests are in flight, every released request is launched, dropped or still to
  be dispatched, and the number released is the offered rate times the time since the loop started, up to one
  request and the rounding of float64 (relative \<open>2 ^ -48\<close>, and \<open>2 ^ -52\<close> per tick).\<close>

theorem pacing_accurate:
  assumes "start \<le> t0" and "0 \<le> tl_Concurrency l" and "0 \<le> tl_RPS l" and "0 \<le> dur" and "dur \<le> max_i64"
    and "tl_RPS l * secs dur \<le> 2 ^ 50" and "pacer_run l start dur es (pacer_init t0) = Some p"
    and "k = length (filter is_tick es)"
  shows "p_busy p \<le> tl_Concurrency l \<and> p_launched p + p_drops p + p_todo p = p_released p \<and>
    of_int (p_released p) \<le> tl_RPS l * (1 + 1 / 2 ^ 48) * secs (p_last p - t0) + of_nat k / 2 ^ 52 \<and>
    tl_RPS l * (1 - 1 / 2 ^ 48) * secs (p_last p - t0) - of_nat k / 2 ^ 52 - 1 < of_int (p_released p)"
proof -
  have "pacer_ok l p" using pacer_ok_run [OF pacer_ok_init] assms by blast
  moreover have "pace_inv l start t0 k p"
    using pace_inv_run [OF pace_inv_init [OF assms(1)]] assms by fastforce
  ultimately show ?thesis by (auto simp: pacer_ok_def pace_inv_def quota_ok_def)
qed

theorem pacing_accurate_witness:
  "\<exists>p. pacer_run \<lparr>tl_Tenant = ''tenant-a'', tl_RPS = 2, tl_Concurrency = 1, tl_Cost = 1\<rparr> 0 5000000000
      [Tick 1000000000, Dispatch, Dispatch, Finish] (pacer_init 0) = Some p \<and>
    p_launched p = 1 \<and> p_drops p = 1 \<and> p_busy p \<le> 1 \<and> (1 :: rat) < of_int (p_released p) + 1 / 2"
proof -
  let ?l = "\<lparr>tl_Tenant = ''tenant-a'', tl_RPS = 2, tl_Concurrency = 1, tl_Cost = 1\<rparr>"
  let ?es = "[Tick 1000000000, Dispatch, Dispatch, Finish]"
  have run: "pacer_run ?l 0 5000000000 ?es (pacer_init 0) =
      Some \<lparr>p_quota = 0, p_last = 1000000000, p_todo = 0, p_busy = 0, p_drops = 1, p_stopped = False,
        p_released = 2, p_launched = 1\<rparr>"
    by (simp add: pacer_init_def pacer_tick_def pacer_dispatch_def time_sub_def Let_def
        Seconds_def Second_def fadd_def fsub_def fmul_def fdiv_def min_i64_def max_i64_def float_of_int_exact
        int_of_float_floor signed_divide_int_def signed_modulo_int_def)
  show ?thesis
    using pacing_accurate [OF _ _ _ _ _ _ run refl] run by (simp add: secs_def max_i64_def)
qed

text \<open>C38. The URL a load builds names the check it means: the worker's handler, given the request the driver
  sends for a tenant and a cost between 1 and 1000, starts exactly the check of that tenant with that cost.\<close>

theorem check_url_roundtrip:
  assumes "url_safe tenant" and "1 \<le> cost" and "cost \<le> 1000"
  shows "worker_Handler wid names now (get_request (check_path tenant cost)) s =
    Inr (lstep (Call tenant cost now) s)"
  using assms Atoi_itoa [of cost] itoa_pos_chars [of cost]
  by (auto simp: get_request_check_path worker_Handler_def worker_routes_def method_match_def url_safe_def
      handleCheck_begin_def query_cost_def get_param_def in_i64_def min_i64_def max_i64_def)

theorem check_url_roundtrip_witness:
  "worker_Handler ''w'' [] 7 (get_request (check_path ''tenant-a'' 5)) (linit 0) =
    Inr (lstep (Call ''tenant-a'' 5 7) (linit 0))"
  using check_url_roundtrip [of "''tenant-a''" 5] by (simp add: url_safe_def)

end
