(* ===== verification/Fmt.thy ===== *)
theory Fmt
  imports GoTime Strconv
begin

text \<open>
  What the load generator uses of \<open>fmt\<close>, \<open>strings\<close>, \<open>time.Duration.String\<close> and
  \<open>strconv.ParseFloat\<close>: padded columns, fixed-point numbers, the text of a duration, joined lists
  and decimal literals. A fixed-point number is the exact binary value rounded to the given number of
  decimals, ties to even, as \<open>strconv\<close> does it.

  \<open>ParseFloat\<close> reads decimal literals. The spellings \<open>inf\<close>, \<open>nan\<close> and the hexadecimal
  literals, whose values have no place in \<^typ>\<open>float64\<close> or no use as a tuning knob, are not modelled.
\<close>

section \<open>Definitions\<close>

text \<open>\<open>%9s\<close> and \<open>%-9s\<close>; a longer text is not cut.\<close>

definition pad_left :: "nat \<Rightarrow> string \<Rightarrow> string" where
  "pad_left w s = replicate (w - length s) CHR '' '' @ s"

definition pad_right :: "nat \<Rightarrow> string \<Rightarrow> string" where
  "pad_right w s = s @ replicate (w - length s) CHR '' ''"

text \<open>\<open>%.<k>f\<close>.\<close>

definition zero_pad :: "nat \<Rightarrow> string \<Rightarrow> string" where
  "zero_pad w s = replicate (w - length s) CHR ''0'' @ s"

definition fixed :: "nat \<Rightarrow> float64 \<Rightarrow> string" where
  "fixed k x =
     (let v = nat (round_even (\<bar>x\<bar> * 10 ^ k)) in
      (if x < 0 then ''-'' else '''') @ digits (v div 10 ^ k) @
      (if k = 0 then '''' else CHR ''.'' # zero_pad k (digits (v mod 10 ^ k))))"

fun join :: "string \<Rightarrow> string list \<Rightarrow> string" where
  "join sep [] = ''''"
| "join sep [s] = s"
| "join sep (s # t # ts) = s @ sep @ join sep (t # ts)"

definition nl :: string where
  "nl = [CHR 0x0A]"

text \<open>The text of a duration: hours, minutes and seconds from one second on, below it the unit that makes
  the number at least one. The fraction loses its trailing zeros.\<close>

definition strip_zeros :: "string \<Rightarrow> string" where
  "strip_zeros s = rev (dropWhile (\<lambda>c. c = CHR ''0'') (rev s))"

definition frac :: "nat \<Rightarrow> nat \<Rightarrow> string" where
  "frac u k =
     (let f = strip_zeros (zero_pad k (digits (u mod 10 ^ k))) in
      digits (u div 10 ^ k) @ (if f = '''' then '''' else CHR ''.'' # f))"

definition Duration_String :: "duration \<Rightarrow> string" where
  "Duration_String d =
     (let u = nat \<bar>d\<bar>; sign = (if d < 0 then ''-'' else '''') in
      if u = 0 then ''0s''
      else if u < 1000 then sign @ frac u 0 @ ''ns''
      else if u < 1000000 then sign @ frac u 3 @ [char_of (194 :: nat), char_of (181 :: nat)] @ ''s''
      else if u < 1000000000 then sign @ frac u 6 @ ''ms''
      else
        let mins = u div 60000000000; s = frac (u mod 60000000000) 9 @ ''s'' in
        sign @ (if mins = 0 then s
                else if mins < 60 then digits mins @ ''m'' @ s
                else digits (mins div 60) @ ''h'' @ digits (mins mod 60) @ ''m'' @ s))"

text \<open>Decimal literals: sign, digits with a point somewhere, exponent.\<close>

definition split_at :: "char set \<Rightarrow> string \<Rightarrow> string \<times> string option" where
  "split_at cs s =
     (case dropWhile (\<lambda>c. c \<notin> cs) s of
        [] \<Rightarrow> (s, None)
      | _ # rest \<Rightarrow> (takeWhile (\<lambda>c. c \<notin> cs) s, Some rest))"

definition unsigned_decimal :: "string \<Rightarrow> rat option" where
  "unsigned_decimal s =
     (let (m, e) = split_at {CHR ''e'', CHR ''E''} s;
          (w, f) = split_at {CHR ''.''} m;
          f = (case f of None \<Rightarrow> '''' | Some f \<Rightarrow> f);
          ex = (case e of None \<Rightarrow> Some 0 | Some e \<Rightarrow> signed_val e) in
      case (unsigned_val (w @ f), ex) of
        (Some v, Some k) \<Rightarrow> Some (of_int v * 10 powi (k - int (length f)))
      | _ \<Rightarrow> None)"

definition decimal :: "string \<Rightarrow> rat option" where
  "decimal s =
     (case s of
        [] \<Rightarrow> None
      | c # cs \<Rightarrow> if c = CHR ''-'' then map_option uminus (unsigned_decimal cs)
                  else if c = CHR ''+'' then unsigned_decimal cs
                  else unsigned_decimal s)"

definition ParseFloat :: "string \<Rightarrow> float64 option" where
  "ParseFloat s =
     (case decimal s of
        Some q \<Rightarrow> if \<bar>rnd q\<bar> < 2 ^ 1024 then Some (rnd q) else None
      | None \<Rightarrow> None)"

section \<open>Columns\<close>

lemma length_pad_left [simp]: "length (pad_left w s) = max w (length s)"
  by (simp add: pad_left_def)

lemma length_pad_right [simp]: "length (pad_right w s) = max w (length s)"
  by (simp add: pad_right_def)

lemma join_snoc: "ss \<noteq> [] \<Longrightarrow> join sep (ss @ [s]) = join sep ss @ sep @ s"
  by (induction sep ss rule: join.induct) auto

section \<open>Integer literals\<close>

text \<open>An override that is a plain integer of at most 53 bits is read exactly.\<close>

lemma digits_ge: "c \<in> set (digits n) \<Longrightarrow> 48 \<le> (of_char c :: nat) \<and> (of_char c :: nat) \<le> 57"
  using digits_chars [of n] by fastforce

lemma split_at_none: "set s \<inter> cs = {} \<Longrightarrow> split_at cs s = (s, None)"
proof -
  assume "set s \<inter> cs = {}"
  then have e: "dropWhile (\<lambda>c. c \<notin> cs) s = []" by (auto simp: dropWhile_eq_Nil_conv)
  show ?thesis unfolding split_at_def e by simp
qed

lemma unsigned_decimal_digits: "unsigned_decimal (digits n) = Some (of_nat n)"
proof -
  have "set (digits n) \<inter> {CHR ''e'', CHR ''E''} = {}" "set (digits n) \<inter> {CHR ''.''} = {}"
    using digits_ge [of _ n] by force+
  moreover have "unsigned_val (digits n) = Some (int n)"
    using digits_head [of n] digits_val_digits [of n] by (auto simp: unsigned_val_def)
  ultimately show ?thesis
    by (simp add: unsigned_decimal_def split_at_none)
qed

lemma ParseFloat_itoa:
  assumes "\<bar>k\<bar> \<le> 2 ^ 53"
  shows "ParseFloat (itoa k) = Some (of_int k)"
proof -
  have "decimal (itoa k) = Some (of_int k)"
  proof (cases "k < 0")
    case True
    then show ?thesis by (simp add: itoa_def decimal_def unsigned_decimal_digits)
  next
    case False
    obtain c cs where d: "digits (nat k) = c # cs" using digits_head by blast
    have "48 \<le> (of_char c :: nat)" using digits_ge [of c "nat k"] by (simp add: d)
    then have "c \<noteq> CHR ''-''" "c \<noteq> CHR ''+''" by auto
    then have "decimal (digits (nat k)) = unsigned_decimal (digits (nat k))" by (simp add: decimal_def d)
    then show ?thesis using False by (simp add: itoa_def unsigned_decimal_digits)
  qed
  moreover have "rnd (of_int k) = of_int k" using assms by simp
  moreover have "\<bar>of_int k\<bar> < (2 ^ 1024 :: rat)"
  proof -
    have "(of_int \<bar>k\<bar> :: rat) \<le> of_int (2 ^ 53)" using assms by (simp only: of_int_le_iff)
    then show ?thesis by simp
  qed
  ultimately show ?thesis by (simp add: ParseFloat_def)
qed

end
