(* ===== verification/Report.thy ===== *)
theory Report
  imports Driver Fmt
begin

text \<open>
  Package \<open>internal/loadgen\<close>, file \<open>report.go\<close>: the pass criteria of a scenario, the
  per-tenant table, the time-series charts, and the counters scraped from the coordinator. A function
  that writes to the \<open>Stream\<close> returns the text it writes.

  The counters of the results are read under their mutexes; \<open>sumSeries\<close> reads every result twice,
  and a result may have grown in between, so it is a function of two snapshots.
\<close>

section \<open>Definitions\<close>

record Check =
  ck_Name :: string
  ck_OK :: bool
  ck_Detail :: string

definition check :: "string \<Rightarrow> bool \<Rightarrow> string \<Rightarrow> Check" where
  "check name ok detail = \<lparr>ck_Name = name, ck_OK = ok, ck_Detail = detail\<rparr>"

text \<open>The loop carries the text so far, \<open>pass\<close> and \<open>failed\<close>.\<close>

fun checks_loop :: "Check list \<Rightarrow> string \<times> bool \<times> string list \<Rightarrow> string \<times> bool \<times> string list" where
  "checks_loop [] st = st"
| "checks_loop (c # cs) (out, pass, failed) =
     (let (mark, pass, failed) =
        (if \<not> ck_OK c then (''FAIL'', False, failed @ [ck_Name c]) else (''PASS'', pass, failed)) in
      checks_loop cs
        (out @ ''  ['' @ mark @ ''] '' @ ck_Name c @ '': '' @ ck_Detail c @ nl, pass, failed))"

definition renderChecks :: "Check list \<Rightarrow> string \<times> bool" where
  "renderChecks checks =
     (let (out, pass, failed) = checks_loop checks (nl @ ''CHECKS'' @ nl, True, []);
          out = out @ nl in
      if pass then (out @ ''PASS'' @ nl, pass)
      else (out @ ''FAIL: '' @ join ''; '' failed @ nl, pass))"

definition table_header :: string where
  "table_header =
     nl @ pad_right 11 ''TENANT'' @ '' '' @ pad_left 9 ''SENT'' @ '' '' @ pad_left 9 ''ADMITTED'' @ '' '' @
     pad_left 9 ''ADM.TOK'' @ '' '' @ pad_left 9 ''REJECTED'' @ '' '' @ pad_left 7 ''DROPS'' @ '' '' @
     pad_left 9 ''p50(ms)'' @ '' '' @ pad_left 9 ''p99(ms)'' @ ''   '' @ ''ERRORS'' @ nl"

definition error_column :: "TenantResult \<Rightarrow> string" where
  "error_column r =
     (let errs = sort (map (\<lambda>(code, n). code @ '':'' @ itoa n) (tr_Errors r)) in
      if 0 < length errs then join '' '' errs else ''-'')"

definition table_row :: "string \<Rightarrow> TenantResult \<Rightarrow> string option" where
  "table_row name r =
     (case (Percentile 50 r, Percentile 99 r) of
        (Some p50, Some p99) \<Rightarrow>
          Some (pad_right 11 name @ '' '' @ pad_left 9 (itoa (Sent r)) @ '' '' @ pad_left 9 (itoa (tr_Admitted r)) @ '' '' @
            pad_left 9 (itoa (tr_AdmittedTokens r)) @ '' '' @ pad_left 9 (itoa (tr_Rejected r)) @ '' '' @
            pad_left 7 (itoa (ClientDrops r)) @ '' '' @ pad_left 9 (fixed 1 p50) @ '' '' @ pad_left 9 (fixed 1 p99) @
            ''   '' @ error_column r @ nl)
      | _ \<Rightarrow> None)"

fun table_rows :: "Results \<Rightarrow> string list \<Rightarrow> string option" where
  "table_rows rs [] = Some ''''"
| "table_rows rs (name # names) =
     (case map_of rs name of
        None \<Rightarrow> None
      | Some r \<Rightarrow>
          (case (table_row name r, table_rows rs names) of
             (Some row, Some rows) \<Rightarrow> Some (row @ rows)
           | _ \<Rightarrow> None))"

definition renderTable :: "Results \<Rightarrow> string option" where
  "renderTable rs = map_option ((@) table_header) (table_rows rs (TenantsSorted rs))"

text \<open>The chart: columns of one second, or of the mean of two where the run is long.\<close>

fun pair_cols :: "int list \<Rightarrow> int list" where
  "pair_cols [] = []"
| "pair_cols [v] = [v]"
| "pair_cols (v # w # vs) = i64 (v + w) sdiv 2 # pair_cols vs"

definition chart_colSec :: "int list \<Rightarrow> nat" where
  "chart_colSec series = (if 70 < length series then 2 else 1)"

definition chart_cols :: "int list \<Rightarrow> int list" where
  "chart_cols series = (if chart_colSec series = 2 then pair_cols series else series)"

definition chart_max :: "int list \<Rightarrow> int" where
  "chart_max cols = foldl (\<lambda>m v. if m < v then v else m) 1 cols"

definition chart_cell :: "int \<Rightarrow> int \<Rightarrow> int \<Rightarrow> char" where
  "chart_cell mx row v =
     (let hi = fdiv (fmul (float_of_int mx) (float_of_int row)) 8;
          lo = fdiv (fmul (float_of_int mx) (fsub (float_of_int row) (1 / 2))) 8 in
      if hi \<le> float_of_int v then CHR ''#''
      else if lo \<le> float_of_int v then CHR ''.''
      else CHR '' '')"

definition chart_line :: "int \<Rightarrow> int list \<Rightarrow> int \<Rightarrow> string" where
  "chart_line mx cols row =
     pad_left 6 (if row = 8 then itoa mx else '''') @ '' |'' @ map (chart_cell mx row) cols @ nl"

function axis_marks :: "nat \<Rightarrow> nat \<Rightarrow> string \<Rightarrow> string" where
  "axis_marks colSec s axis =
     (if 0 < colSec \<and> s * colSec div 10 \<le> length axis * colSec div 10
      then axis_marks colSec (s + 10) (let i = s div colSec in if i < length axis then axis[i := CHR ''|''] else axis)
      else axis)"
  by pat_completeness auto

definition chart_axis :: "nat \<Rightarrow> nat \<Rightarrow> string" where
  "chart_axis colSec n = axis_marks colSec 0 (replicate n CHR '' '')"

definition renderChart :: "string \<Rightarrow> int list \<Rightarrow> string" where
  "renderChart title series =
     (if length series = 0 then ''''
      else
        let colSec = chart_colSec series; cols = chart_cols series; mx = chart_max cols in
        nl @ title @ '' (peak '' @ itoa mx @ ''/s)'' @ nl @
        concat (map (chart_line mx cols) (rev [1..8])) @
        pad_left 6 ''0'' @ '' +'' @ replicate (length cols) CHR ''-'' @ nl @
        pad_left 6 '''' @ ''  '' @ chart_axis colSec (length cols) @ nl @
        pad_left 6 '''' @ ''  (x: seconds, '' @ digits colSec @ ''s/col)'' @ nl)"

text \<open>The sum of a metric per second. \<open>rs0\<close> is what the first loop saw, \<open>rs\<close> the second.\<close>

fun add_series :: "(SecBucket \<Rightarrow> int) \<Rightarrow> SecBucket list \<Rightarrow> int list \<Rightarrow> int list" where
  "add_series metric (b # bs) (n # out) = i64 (n + metric b) # add_series metric bs out"
| "add_series metric [] out = out"
| "add_series metric bs [] = []"

fun longest :: "Results \<Rightarrow> nat" where
  "longest [] = 0"
| "longest ((t, r) # rs) = max (length (Buckets r)) (longest rs)"

definition sumSeries :: "Results \<Rightarrow> Results \<Rightarrow> (SecBucket \<Rightarrow> int) \<Rightarrow> int list" where
  "sumSeries rs0 rs metric =
     foldl (\<lambda>out (t, r). add_series metric (Buckets r) out) (replicate (longest rs0) 0) rs"

text \<open>The coordinator's counters over HTTP. A struct in a map is decoded into a fresh zero value.\<close>

record StatsReply =
  sr_StartedMs :: int
  sr_Tenants :: "(string \<times> TenantStats) list"

definition zero_TenantStats :: TenantStats where
  "zero_TenantStats = \<lparr>st_LeaseRequests = 0, st_ZeroGrants = 0, st_TokensGranted = 0\<rparr>"

definition set_TenantStats :: "string \<Rightarrow> json \<Rightarrow> TenantStats \<Rightarrow> TenantStats option" where
  "set_TenantStats k v t =
     (if key_match ''leaseRequests'' k then map_option (\<lambda>i. t\<lparr>st_LeaseRequests := i\<rparr>) (decode_int v (st_LeaseRequests t))
      else if key_match ''zeroGrants'' k then map_option (\<lambda>i. t\<lparr>st_ZeroGrants := i\<rparr>) (decode_int v (st_ZeroGrants t))
      else if key_match ''tokensGranted'' k then map_option (\<lambda>i. t\<lparr>st_TokensGranted := i\<rparr>) (decode_int v (st_TokensGranted t))
      else Some t)"

fun put :: "'k \<Rightarrow> 'v \<Rightarrow> ('k \<times> 'v) list \<Rightarrow> ('k \<times> 'v) list" where
  "put k v [] = [(k, v)]"
| "put k v ((k', v') # m) = (if k' = k then (k, v) # m else (k', v') # put k v m)"

fun decode_map ::
  "(json \<Rightarrow> 'v option) \<Rightarrow> json \<Rightarrow> (string \<times> 'v) list \<Rightarrow> (string \<times> 'v) list option" where
  "decode_map f (JObj ms) m = decode_members (\<lambda>k v m. map_option (\<lambda>x. put k x m) (f v)) ms m"
| "decode_map f JNull m = Some []"
| "decode_map f _ m = None"

definition decode_TenantStats :: "json \<Rightarrow> TenantStats option" where
  "decode_TenantStats v = decode_struct set_TenantStats zero_TenantStats (Json v)"

definition set_Stats :: "string \<Rightarrow> json \<Rightarrow> StatsReply \<Rightarrow> StatsReply option" where
  "set_Stats k v s =
     (if key_match ''startedMs'' k then map_option (\<lambda>i. s\<lparr>sr_StartedMs := i\<rparr>) (decode_int v (sr_StartedMs s))
      else if key_match ''tenants'' k
      then map_option (\<lambda>m. s\<lparr>sr_Tenants := m\<rparr>) (decode_map decode_TenantStats v (sr_Tenants s))
      else Some s)"

datatype scrape_error = GetError string | StatusError int | DecodeError

type_synonym 'w http_get = "string \<Rightarrow> 'w \<Rightarrow> (string + response) \<times> 'w"

definition stats_of_reply :: "string + response \<Rightarrow> scrape_error + StatsReply" where
  "stats_of_reply rep =
     (case rep of
        Inl err \<Rightarrow> Inl (GetError err)
      | Inr resp \<Rightarrow>
          if rs_status resp \<noteq> StatusOK then Inl (StatusError (rs_status resp))
          else (case decode_struct set_Stats \<lparr>sr_StartedMs = 0, sr_Tenants = []\<rparr> (rs_body resp) of
                  None \<Rightarrow> Inl DecodeError
                | Some s \<Rightarrow> Inr s))"

definition CoordStats :: "'w http_get \<Rightarrow> string \<Rightarrow> 'w \<Rightarrow> (scrape_error + StatsReply) \<times> 'w" where
  "CoordStats get coordURL w = (let (rep, w) = get (coordURL @ ''/v1/stats'') w in (stats_of_reply rep, w))"

definition totalLeaseRequests :: "StatsReply option \<Rightarrow> int" where
  "totalLeaseRequests s =
     (case s of
        None \<Rightarrow> 0
      | Some s \<Rightarrow> foldl (\<lambda>n (name, t). i64 (n + st_LeaseRequests t)) 0 (sr_Tenants s))"

definition totalSent :: "Results \<Rightarrow> int" where
  "totalSent rs = foldl (\<lambda>n (name, r). i64 (n + Sent r)) 0 rs"

termination axis_marks
proof (relation "measure (\<lambda>(c, s, axis). length axis + 10 - s)")
  show "((colSec, s + 10, let i = s div colSec in if i < length axis then axis[i := CHR ''|''] else axis),
      colSec, s, axis) \<in> measure (\<lambda>(c, s, axis). length axis + 10 - s)"
    if "0 < colSec \<and> s * colSec div 10 \<le> length axis * colSec div 10" for colSec s axis
  proof -
    have "a div 10 \<le> b div 10 \<Longrightarrow> a < b + 10" for a b :: nat by linarith
    then have "s * colSec < length axis * colSec + 10" using that by blast
    also have "\<dots> \<le> (length axis + 10) * colSec" using that by (simp add: distrib_right)
    finally have "s < length axis + 10" by simp
    then show ?thesis by (simp add: Let_def)
  qed
qed simp

declare axis_marks.simps [simp del]

section \<open>The verdict\<close>

definition check_line :: "Check \<Rightarrow> string" where
  "check_line c = ''  ['' @ (if ck_OK c then ''PASS'' else ''FAIL'') @ ''] '' @ ck_Name c @ '': '' @ ck_Detail c @ nl"

definition failed_names :: "Check list \<Rightarrow> string list" where
  "failed_names cs = map ck_Name (filter (\<lambda>c. \<not> ck_OK c) cs)"

lemma checks_loop_eq:
  "checks_loop cs (out, pass, failed) =
    (out @ concat (map check_line cs), pass \<and> list_all ck_OK cs, failed @ failed_names cs)"
  by (induction cs arbitrary: out pass failed) (auto simp: check_line_def failed_names_def)

lemma renderChecks_eq:
  "renderChecks cs =
    (nl @ ''CHECKS'' @ nl @ concat (map check_line cs) @ nl @
       (if list_all ck_OK cs then ''PASS'' @ nl else ''FAIL: '' @ join ''; '' (failed_names cs) @ nl),
     list_all ck_OK cs)"
  by (simp add: renderChecks_def checks_loop_eq)

section \<open>The series\<close>

lemma add_series_nth:
  "length (add_series metric bs out) = length out"
  "i < length out \<Longrightarrow> in_i64 (out ! i) \<Longrightarrow>
    add_series metric bs out ! i = i64 (out ! i + (if i < length bs then metric (bs ! i) else 0))"
  by (induction metric bs out arbitrary: i rule: add_series.induct) (auto simp: nth_Cons i64_id split: nat.splits)

lemma foldl_add_series:
  "length (foldl (\<lambda>out (t, r). add_series metric (Buckets r) out) out rs) = length out"
  "i < length out \<Longrightarrow> in_i64 (out ! i) \<Longrightarrow> foldl (\<lambda>out (t, r). add_series metric (Buckets r) out) out rs ! i =
    i64 (out ! i + sum_list (map (\<lambda>(t, r). if i < length (Buckets r) then metric (Buckets r ! i) else 0) rs))"
  by (induction rs arbitrary: out) (auto simp: add_series_nth i64_id i64_add_left add.assoc)

text \<open>Two snapshots or one: every entry is the sum over the results that reach this second, and seconds
  that appeared after the first loop are left out.\<close>

lemma length_sumSeries [simp]: "length (sumSeries rs0 rs metric) = longest rs0"
  by (simp add: sumSeries_def foldl_add_series)

lemma sumSeries_nth:
  "i < longest rs0 \<Longrightarrow> sumSeries rs0 rs metric ! i =
    i64 (sum_list (map (\<lambda>(t, r). if i < length (Buckets r) then metric (Buckets r ! i) else 0) rs))"
  by (simp add: sumSeries_def foldl_add_series in_i64_nonneg)

lemma longest_ge: "(t, r) \<in> set rs \<Longrightarrow> length (Buckets r) \<le> longest rs"
  by (induction rs rule: longest.induct) auto

lemma totalSent_eq: "totalSent rs = i64 (sum_list (map (Sent \<circ> snd) rs))"
proof -
  have "foldl (\<lambda>n (name, r). i64 (n + Sent r)) (i64 k) rs = i64 (k + sum_list (map (Sent \<circ> snd) rs))" for k
    by (induction rs arbitrary: k) (auto simp: i64_add_left add.assoc)
  from this [of 0] show ?thesis by (simp add: totalSent_def)
qed

section \<open>The axis\<close>

lemma length_axis_marks [simp]: "length (axis_marks c s axis) = length axis"
  by (induction c s axis rule: axis_marks.induct) (subst axis_marks.simps, simp add: Let_def)

lemma axis_marks_nth:
  assumes "i < length axis" and "0 < c"
  shows "axis_marks c s axis ! i = CHR ''|'' \<longleftrightarrow>
    axis ! i = CHR ''|'' \<or>
    (\<exists>k. (s + 10 * k) * c div 10 \<le> length axis * c div 10 \<and> (s + 10 * k) div c = i)"
  using assms
proof (induction c s axis rule: axis_marks.induct)
  case (1 c s axis)
  let ?P = "\<lambda>s k. (s + 10 * k) * c div 10 \<le> length axis * c div 10 \<and> (s + 10 * k) div c = i"
  have mono: "s * c div 10 \<le> (s + 10 * k) * c div 10" for k by (simp add: div_le_mono)
  show ?case
  proof (cases "s * c div 10 \<le> length axis * c div 10")
    case True
    let ?a = "let i = s div c in if i < length axis then axis[i := CHR ''|''] else axis"
    have len: "length ?a = length axis" by (simp add: Let_def)
    have IH: "axis_marks c (s + 10) ?a ! i = CHR ''|'' \<longleftrightarrow> ?a ! i = CHR ''|'' \<or> (\<exists>k. ?P (s + 10) k)"
      using "1.IH" True "1.prems" unfolding len by simp
    have ai: "?a ! i = CHR ''|'' \<longleftrightarrow> axis ! i = CHR ''|'' \<or> s div c = i"
      using "1.prems"(1) by (auto simp: Let_def nth_list_update)
    have "(\<exists>k. ?P s k) \<longleftrightarrow> ?P s 0 \<or> (\<exists>k. ?P s (Suc k))" by (metis not0_implies_Suc)
    also have "(\<lambda>k. ?P s (Suc k)) = ?P (s + 10)" by (simp add: add.assoc)
    also have "?P s 0 \<longleftrightarrow> s div c = i" using True by simp
    finally have "(\<exists>k. ?P s k) \<longleftrightarrow> s div c = i \<or> (\<exists>k. ?P (s + 10) k)" .
    then show ?thesis
      unfolding axis_marks.simps [of c s axis] using True "1.prems"(2) IH ai by (simp only: simp_thms if_True) blast
  next
    case False
    then have "\<not> ?P s k" for k using mono [of k] by linarith
    then have "\<not> (\<exists>k. ?P s k)" by blast
    then show ?thesis unfolding axis_marks.simps [of c s axis] using False by (simp only: simp_thms if_False)
  qed
qed

text \<open>The axis of a chart with one second per column has a mark every ten seconds. With two seconds per
  column the marks are ten seconds apart, but they stop half way: the loop's variable counts seconds and
  is compared as if it counted columns.\<close>

lemma chart_axis_marks:
  assumes "i < n"
  shows "chart_axis 1 n ! i = CHR ''|'' \<longleftrightarrow> 10 dvd i" and "chart_axis 2 n ! i = CHR ''|'' \<longleftrightarrow> 5 dvd i \<and> 2 * i \<le> n"
proof -
  have "chart_axis 1 n ! i = CHR ''|'' \<longleftrightarrow> (\<exists>k. k \<le> n div 10 \<and> 10 * k = i)"
    using assms by (simp add: chart_axis_def axis_marks_nth)
  also have "\<dots> \<longleftrightarrow> 10 dvd i" using assms by (auto simp: dvd_def)
  finally show "chart_axis 1 n ! i = CHR ''|'' \<longleftrightarrow> 10 dvd i" .
  have "10 * k * 2 div 10 \<le> n * 2 div 10 \<and> 10 * k div 2 = i \<longleftrightarrow> i = 5 * k \<and> 2 * i \<le> n" for k :: nat
    by auto
  then have "chart_axis 2 n ! i = CHR ''|'' \<longleftrightarrow> (\<exists>k. i = 5 * k \<and> 2 * i \<le> n)"
    using assms by (simp add: chart_axis_def axis_marks_nth)
  then show "chart_axis 2 n ! i = CHR ''|'' \<longleftrightarrow> 5 dvd i \<and> 2 * i \<le> n" by (auto simp: dvd_def)
qed

section \<open>Scraping the coordinator\<close>

lemma put_new: "k \<notin> fst ` set m \<Longrightarrow> put k v m = m @ [(k, v)]"
  by (induction k v m rule: put.induct) auto

lemma map_of_put [simp]: "map_of (put k v m) = (map_of m)(k \<mapsto> v)"
  by (induction k v m rule: put.induct) auto

lemma decode_members_map:
  assumes "\<forall>(k, x) \<in> set xs. f (g x) = Some x" and "distinct (map fst (m @ xs))"
  shows "decode_members (\<lambda>k v m. map_option (\<lambda>x. put k x m) (f v)) (map (\<lambda>(k, x). (k, g x)) xs) m = Some (m @ xs)"
  using assms
proof (induction xs arbitrary: m)
  case (Cons kx xs)
  obtain k x where kx: "kx = (k, x)" by fastforce
  have "put k x m = m @ [(k, x)]" using Cons.prems(2) by (intro put_new) (auto simp: kx)
  then show ?case using Cons.IH [of "m @ [(k, x)]"] Cons.prems by (simp add: kx)
qed simp

definition stats_ok :: "TenantStats \<Rightarrow> bool" where
  "stats_ok t \<longleftrightarrow> in_i64 (st_LeaseRequests t) \<and> in_i64 (st_ZeroGrants t) \<and> in_i64 (st_TokensGranted t)"

lemma key_match_stats [simp]:
  "key_match ''leaseRequests'' ''leaseRequests''" "\<not> key_match ''leaseRequests'' ''zeroGrants''"
  "key_match ''zeroGrants'' ''zeroGrants''" "\<not> key_match ''leaseRequests'' ''tokensGranted''"
  "\<not> key_match ''zeroGrants'' ''tokensGranted''" "key_match ''tokensGranted'' ''tokensGranted''"
  "key_match ''startedMs'' ''startedMs''" "\<not> key_match ''startedMs'' ''tenants''" "key_match ''tenants'' ''tenants''"
  by (simp_all add: key_match_def lower_char_def)

lemma decode_encode_TenantStats: "stats_ok t \<Longrightarrow> decode_TenantStats (encode_TenantStats t) = Some t"
  by (simp add: decode_TenantStats_def encode_TenantStats_def set_TenantStats_def stats_ok_def)

lemma map_filter_total:
  "\<forall>n \<in> set ns. \<exists>t. m n = Some t \<Longrightarrow>
    List.map_filter (\<lambda>n. map_option (\<lambda>t. (n, g t)) (m n)) ns = map (\<lambda>(n, t). (n, g t)) (map (\<lambda>n. (n, the (m n))) ns)"
  by (induction ns) (auto simp: List.map_filter_simps)

lemma decode_encode_Stats:
  assumes "distinct names" and ok: "\<forall>n \<in> set names. \<exists>t. st_Tenants st n = Some t \<and> stats_ok t"
    and "in_i64 (StartedMs st)"
  shows "decode_struct set_Stats \<lparr>sr_StartedMs = 0, sr_Tenants = []\<rparr> (Json (encode_Stats names st)) =
    Some \<lparr>sr_StartedMs = StartedMs st, sr_Tenants = map (\<lambda>n. (n, the (st_Tenants st n))) (sort names)\<rparr>"
proof -
  let ?xs = "map (\<lambda>n. (n, the (st_Tenants st n))) (sort names)"
  have "decode_members (\<lambda>k v m. map_option (\<lambda>x. put k x m) (decode_TenantStats v))
      (map (\<lambda>(n, t). (n, encode_TenantStats t)) ?xs) [] = Some ([] @ ?xs)"
    using ok assms(1) by (intro decode_members_map) (auto simp: decode_encode_TenantStats comp_def)
  moreover have "List.map_filter (\<lambda>n. map_option (\<lambda>t. (n, encode_TenantStats t)) (st_Tenants st n)) (sort names) =
      map (\<lambda>(n, t). (n, encode_TenantStats t)) ?xs"
    using ok by (intro map_filter_total) auto
  ultimately show ?thesis using assms(3) by (simp add: encode_Stats_def set_Stats_def)
qed

lemma totalLeaseRequests_eq:
  "totalLeaseRequests (Some s) = i64 (sum_list (map (st_LeaseRequests \<circ> snd) (sr_Tenants s)))"
proof -
  have "foldl (\<lambda>n (name, t). i64 (n + st_LeaseRequests t)) (i64 k) xs =
      i64 (k + sum_list (map (st_LeaseRequests \<circ> snd) xs))" for k and xs :: "(string \<times> TenantStats) list"
    by (induction xs arbitrary: k) (auto simp: i64_add_left add.assoc)
  from this [of 0] show ?thesis by (simp add: totalLeaseRequests_def i64_id in_i64_nonneg)
qed

text \<open>A coordinator whose counters are in range; \<open>server_ok\<close> gives the agreement of its two maps.\<close>

definition scrapable :: "CServer \<Rightarrow> bool" where
  "scrapable s \<longleftrightarrow>
     distinct (map fst (c_Tenants (co_cfg s))) \<and> dom (co_tenants s) = fst ` set (c_Tenants (co_cfg s)) \<and>
     in_i64 (UnixMilli (co_started s)) \<and>
     (\<forall>n \<in> fst ` set (c_Tenants (co_cfg s)). stats_ok (tenant_stats (the (co_tenants s n))))"

lemma scraped_map:
  assumes "dom (co_tenants s) = set ns"
  shows "map_of (map (\<lambda>n. (n, the (st_Tenants (coordinator_stats s) n))) (sort ns)) = st_Tenants (coordinator_stats s)"
proof
  fix n
  have "map_of (map (\<lambda>n. (n, the (st_Tenants (coordinator_stats s) n))) (sort ns)) n =
      ((Some \<circ> (\<lambda>n. the (st_Tenants (coordinator_stats s) n))) |` set ns) n"
    using map_of_map_restrict [of "\<lambda>n. the (st_Tenants (coordinator_stats s) n)" "sort ns"] by simp
  also have "\<dots> = st_Tenants (coordinator_stats s) n"
  proof (cases "n \<in> set ns")
    case True
    then obtain ts where "co_tenants s n = Some ts" using assms by blast
    then show ?thesis using True by (simp add: coordinator_stats_def)
  next
    case False
    then have "co_tenants s n = None" using assms by blast
    then show ?thesis using False by (simp add: coordinator_stats_def restrict_map_def)
  qed
  finally show "map_of (map (\<lambda>n. (n, the (st_Tenants (coordinator_stats s) n))) (sort ns)) n =
      st_Tenants (coordinator_stats s) n" .
qed

text \<open>C36. What the load generator scrapes is what the coordinator counted: the answer of the coordinator's own
  handler to \<open>GET /v1/stats\<close>, decoded by \<open>CoordStats\<close>, has the start time and every tenant's
  counters, and \<open>totalLeaseRequests\<close> is the sum of the tenants' lease requests.\<close>

theorem stats_roundtrip:
  assumes "scrapable s" and get: "get (coordURL @ ''/v1/stats'') w = (Inr (fst (coordinator_Handler now (get_request ''/v1/stats'') s)), w')"
  shows "\<exists>rep. CoordStats get coordURL w = (Inr rep, w') \<and>
    sr_StartedMs rep = StartedMs (coordinator_stats s) \<and>
    map_of (sr_Tenants rep) = st_Tenants (coordinator_stats s) \<and>
    totalLeaseRequests (Some rep) = i64 (\<Sum>n \<in> dom (co_tenants s). leaseRequests (the (co_tenants s n)))"
proof -
  let ?ns = "map fst (c_Tenants (co_cfg s))" and ?st = "coordinator_stats s"
  let ?rep = "\<lparr>sr_StartedMs = StartedMs ?st, sr_Tenants = map (\<lambda>n. (n, the (st_Tenants ?st n))) (sort ?ns)\<rparr>"
  have d: "distinct ?ns" and dm: "dom (co_tenants s) = set ?ns" and
    ok: "in_i64 (UnixMilli (co_started s))" "\<forall>n \<in> set ?ns. stats_ok (tenant_stats (the (co_tenants s n)))"
    using assms(1) by (simp_all add: scrapable_def)
  have some: "\<exists>t. co_tenants s n = Some t" if "n \<in> set ?ns" for n using that dm by blast
  have "\<forall>n \<in> set ?ns. \<exists>t. st_Tenants ?st n = Some t \<and> stats_ok t"
    using some ok(2) by (fastforce simp: coordinator_stats_def)
  then have dec: "decode_struct set_Stats \<lparr>sr_StartedMs = 0, sr_Tenants = []\<rparr> (Json (encode_Stats ?ns ?st)) = Some ?rep"
    using d ok(1) by (intro decode_encode_Stats) (auto simp: coordinator_stats_def)
  have h: "fst (coordinator_Handler now (get_request ''/v1/stats'') s) = coordinator_handleStats s"
    by (simp add: coordinator_Handler_def coordinator_routes_def get_request_def before_def method_match_def)
  have "CoordStats get coordURL w = (Inr ?rep, w')"
    using get dec by (simp add: CoordStats_def stats_of_reply_def h coordinator_handleStats_def)
  moreover have "map_of (sr_Tenants ?rep) = st_Tenants ?st" using some dm by (simp add: scraped_map)
  moreover have "totalLeaseRequests (Some ?rep) = i64 (\<Sum>n \<in> dom (co_tenants s). leaseRequests (the (co_tenants s n)))"
  proof -
    have "st_LeaseRequests (the (st_Tenants ?st n)) = leaseRequests (the (co_tenants s n))" if "n \<in> set ?ns" for n
      using some [OF that] by (auto simp: coordinator_stats_def tenant_stats_def)
    then have "sum_list (map (st_LeaseRequests \<circ> snd) (sr_Tenants ?rep)) =
        sum_list (map (\<lambda>n. leaseRequests (the (co_tenants s n))) (sort ?ns))"
      by (intro arg_cong [of _ _ sum_list]) auto
    also have "\<dots> = (\<Sum>n \<in> set (sort ?ns). leaseRequests (the (co_tenants s n)))"
      using d by (intro sum_list_distinct_conv_sum_set) simp
    finally show ?thesis by (simp add: totalLeaseRequests_eq dm)
  qed
  ultimately show ?thesis by auto
qed

theorem stats_roundtrip_witness:
  "scrapable sample_server \<and>
   (\<exists>rep. CoordStats (\<lambda>url w. (Inr (fst (coordinator_Handler 0 (get_request ''/v1/stats'') sample_server)), w))
       ''http://c'' () = (Inr rep, ()) \<and> totalLeaseRequests (Some rep) = 0)"
proof -
  have ok: "scrapable sample_server"
    by (simp add: scrapable_def sample_server_def Coordinator_New_def stats_ok_def tenant_stats_def UnixMilli_def
        in_i64_def min_i64_def max_i64_def Second_def Millisecond_def insert_commute)
  have "leaseRequests (the (co_tenants sample_server n)) = 0" if "n \<in> dom (co_tenants sample_server)" for n
    using that by (auto simp: sample_server_def Coordinator_New_def split: if_splits)
  then show ?thesis
    using stats_roundtrip [OF ok, of "\<lambda>url w. (Inr (fst (coordinator_Handler 0 (get_request ''/v1/stats'') sample_server)), w)"
        "''http://c''" "()" 0 "()"] ok by (auto simp: i64_id in_i64_nonneg)
qed

end
