(* ===== verification/Kube.thy ===== *)
theory Kube
  imports Report
begin

text \<open>
  Package \<open>internal/loadgen\<close>, file \<open>kube.go\<close>: the load generator creates, scales and kills the
  coordinator and the workers through the Kubernetes API.

  The cluster is a world of any type \<open>'w\<close>. What the code calls outside the repository (the client of one
  namespace, \<open>retry.OnError\<close>, HTTP, the clock, timers and the context, temporary files) is the record
  \<open>cluster\<close> of functions on that world, a parameter of every operation. A timer wait returns nothing
  when the timer fires and the context's error when the context ends first. Loops that poll the cluster
  may run forever in a world whose clock stands still: they are partial functions, and not returning is
  \<open>None\<close>.
\<close>

section \<open>Objects\<close>

definition coordinatorName :: string where "coordinatorName = ''coordinator''"
definition workerName :: string where "workerName = ''ratelim-workers''"
definition configMapName :: string where "configMapName = ''ratelim-config''"
definition workerPort :: int where "workerPort = 8080"
definition coordinatorPort :: int where "coordinatorPort = 8081"
definition workerCPUDefault :: string where "workerCPUDefault = ''400m''"
definition workerCPUScaling :: string where "workerCPUScaling = ''50m''"

lemmas kube_names = coordinatorName_def workerName_def configMapName_def workerPort_def coordinatorPort_def
  workerCPUDefault_def workerCPUScaling_def

record Resources =
  res_CPU :: string
  res_Memory :: string

record VolumeMount =
  vm_Name :: string
  vm_MountPath :: string
  vm_ReadOnly :: bool

record Probe =
  pr_Path :: string
  pr_Port :: int
  pr_PeriodSeconds :: int

record Container =
  ct_Name :: string
  ct_Image :: string
  ct_Args :: "string list"
  ct_Ports :: "int list"
  ct_Env :: "(string \<times> string) list"
  ct_VolumeMounts :: "VolumeMount list"
  ct_Requests :: Resources
  ct_Limits :: Resources
  ct_ReadinessProbe :: Probe

type_synonym labels = "(string \<times> string) list"

datatype strategy = DefaultStrategy | Recreate

text \<open>A volume is its name and the config map behind it.\<close>

record DeploymentSpec =
  ds_Replicas :: int
  ds_Selector :: labels
  ds_Strategy :: strategy
  ds_PodLabels :: labels
  ds_Containers :: "Container list"
  ds_Volumes :: "(string \<times> string) list"

record DeploymentStatus =
  ObservedGeneration :: int
  Replicas :: int
  UpdatedReplicas :: int
  ReadyReplicas :: int

record Deployment =
  d_Name :: string
  d_Namespace :: string
  d_Labels :: labels
  d_Generation :: int
  d_Spec :: DeploymentSpec
  d_Status :: DeploymentStatus

record Service =
  sv_Name :: string
  sv_Namespace :: string
  sv_Selector :: labels
  sv_Ports :: "(int \<times> int) list"

record Pod =
  pod_Name :: string
  pod_Deleting :: bool
  pod_Phase :: string
  pod_IP :: string

record Kube =
  k_ns :: string
  k_image :: string

definition zero_status :: DeploymentStatus where
  "zero_status = \<lparr>ObservedGeneration = 0, Replicas = 0, UpdatedReplicas = 0, ReadyReplicas = 0\<rparr>"

definition coordinatorDeployment :: "Kube \<Rightarrow> Deployment" where
  "coordinatorDeployment k =
     (let labels = [(''app'', ''ratelim''), (''role'', ''coordinator'')] in
      \<lparr>d_Name = coordinatorName, d_Namespace = k_ns k, d_Labels = labels, d_Generation = 0,
       d_Spec =
         \<lparr>ds_Replicas = 1, ds_Selector = labels, ds_Strategy = DefaultStrategy, ds_PodLabels = labels,
          ds_Containers =
            [\<lparr>ct_Name = ''coordinator'', ct_Image = k_image k,
              ct_Args = [''coordinator'', ''--config'', ''/etc/ratelim/config.yaml'', ''--addr'', '':'' @ itoa coordinatorPort],
              ct_Ports = [coordinatorPort], ct_Env = [],
              ct_VolumeMounts = [\<lparr>vm_Name = ''config'', vm_MountPath = ''/etc/ratelim'', vm_ReadOnly = True\<rparr>],
              ct_Requests = \<lparr>res_CPU = ''50m'', res_Memory = ''64Mi''\<rparr>,
              ct_Limits = \<lparr>res_CPU = ''500m'', res_Memory = ''128Mi''\<rparr>,
              ct_ReadinessProbe = \<lparr>pr_Path = ''/healthz'', pr_Port = coordinatorPort, pr_PeriodSeconds = 2\<rparr>\<rparr>],
          ds_Volumes = [(''config'', configMapName)]\<rparr>,
       d_Status = zero_status\<rparr>)"

definition workerDeployment :: "Kube \<Rightarrow> int \<Rightarrow> string \<Rightarrow> Deployment" where
  "workerDeployment k replicas cpu =
     (let labels = [(''app'', ''ratelim''), (''role'', ''worker'')] in
      \<lparr>d_Name = workerName, d_Namespace = k_ns k, d_Labels = labels, d_Generation = 0,
       d_Spec =
         \<lparr>ds_Replicas = replicas, ds_Selector = labels, ds_Strategy = Recreate, ds_PodLabels = labels,
          ds_Containers =
            [\<lparr>ct_Name = ''worker'', ct_Image = k_image k,
              ct_Args = [''worker'', ''--coordinator'', ''http://'' @ coordinatorName @ '':'' @ itoa coordinatorPort,
                ''--addr'', '':'' @ itoa workerPort],
              ct_Ports = [workerPort], ct_Env = [(''GOMAXPROCS'', ''1'')], ct_VolumeMounts = [],
              ct_Requests = \<lparr>res_CPU = ''50m'', res_Memory = ''64Mi''\<rparr>,
              ct_Limits = \<lparr>res_CPU = cpu, res_Memory = ''128Mi''\<rparr>,
              ct_ReadinessProbe = \<lparr>pr_Path = ''/healthz'', pr_Port = workerPort, pr_PeriodSeconds = 2\<rparr>\<rparr>],
          ds_Volumes = []\<rparr>,
       d_Status = zero_status\<rparr>)"

definition service :: "Kube \<Rightarrow> string \<Rightarrow> string \<Rightarrow> int \<Rightarrow> Service" where
  "service k name selectorRole port =
     \<lparr>sv_Name = name, sv_Namespace = k_ns k, sv_Selector = [(''app'', ''ratelim''), (''role'', selectorRole)],
      sv_Ports = [(port, port)]\<rparr>"

section \<open>The cluster\<close>

datatype api_error =
    NotFound string
  | Conflict string
  | AlreadyExists string
  | ApiFailure string

fun IsNotFound :: "api_error \<Rightarrow> bool" where
  "IsNotFound (NotFound _) = True"
| "IsNotFound _ = False"

fun IsConflict :: "api_error \<Rightarrow> bool" where
  "IsConflict (Conflict _) = True"
| "IsConflict _ = False"

fun IsAlreadyExists :: "api_error \<Rightarrow> bool" where
  "IsAlreadyExists (AlreadyExists _) = True"
| "IsAlreadyExists _ = False"

datatype kube_error =
    Api api_error
  | Context string
  | Wrap string kube_error
  | NotReady string int duration
  | NotServing string duration
  | NotReachable duration
  | TooFewWorkers nat
  | FileError string
  | BadConfig load_error

type_synonym ('w, 'a) act = "'w \<Rightarrow> 'a \<times> 'w"

record 'w cluster =
  cl_getDeployment :: "string \<Rightarrow> ('w, api_error + Deployment) act"
  cl_createDeployment :: "Deployment \<Rightarrow> ('w, api_error option) act"
  cl_updateDeployment :: "Deployment \<Rightarrow> ('w, api_error option) act"
  cl_patchDeployment :: "string \<Rightarrow> string \<Rightarrow> ('w, api_error option) act"
  cl_createService :: "Service \<Rightarrow> ('w, api_error option) act"
  cl_listPods :: "string \<Rightarrow> ('w, api_error + Pod list) act"
  cl_patchPod :: "string \<Rightarrow> string \<Rightarrow> ('w, api_error option) act"
  cl_deletePod :: "string \<Rightarrow> int \<Rightarrow> ('w, api_error option) act"
  cl_getConfigMap :: "string \<Rightarrow> ('w, api_error + (string \<times> string) list) act"
  cl_OnError :: "(api_error \<Rightarrow> bool) \<Rightarrow> ('w, api_error option) act \<Rightarrow> ('w, api_error option) act"
  cl_get :: "'w http_get"
  cl_now :: "('w, time) act"
  cl_wait :: "duration \<Rightarrow> ('w, string option) act"
  cl_createTemp :: "('w, string + string) act"
  cl_writeString :: "string \<Rightarrow> string \<Rightarrow> ('w, string option) act"
  cl_readFile :: "'w \<Rightarrow> string \<Rightarrow> string + string"
  cl_remove :: "string \<Rightarrow> 'w \<Rightarrow> 'w"

section \<open>Operations\<close>

text \<open>\<open>LoadConfig\<close> writes the config map's entry to a temporary file, which it removes, and loads that.\<close>

definition LoadConfig ::
  "'w cluster \<Rightarrow> (string \<Rightarrow> string + Config) \<Rightarrow> ('w, kube_error + Config) act" where
  "LoadConfig cl unmarshalStrict w =
     (case cl_getConfigMap cl configMapName w of
        (Inl e, w) \<Rightarrow> (Inl (Api e), w)
      | (Inr data, w) \<Rightarrow>
          (case cl_createTemp cl w of
             (Inl e, w) \<Rightarrow> (Inl (FileError e), w)
           | (Inr tmp, w) \<Rightarrow>
               (case cl_writeString cl tmp (get_param data ''config.yaml'') w of
                  (Some e, w) \<Rightarrow> (Inl (FileError e), cl_remove cl tmp w)
                | (None, w) \<Rightarrow>
                    (case Load (cl_readFile cl w) unmarshalStrict tmp of
                       Inl e \<Rightarrow> (Inl (BadConfig e), cl_remove cl tmp w)
                     | Inr c \<Rightarrow> (Inr c, cl_remove cl tmp w)))))"

definition apply_attempt :: "'w cluster \<Rightarrow> Deployment \<Rightarrow> ('w, api_error option) act" where
  "apply_attempt cl d w =
     (case cl_getDeployment cl (d_Name d) w of
        (Inl e, w) \<Rightarrow> if IsNotFound e then cl_createDeployment cl d w else (Some e, w)
      | (Inr existing, w) \<Rightarrow> cl_updateDeployment cl (existing\<lparr>d_Spec := d_Spec d\<rparr>) w)"

definition retriable :: "api_error \<Rightarrow> bool" where
  "retriable e \<longleftrightarrow> IsConflict e \<or> IsAlreadyExists e"

definition applyDeployment :: "'w cluster \<Rightarrow> Deployment \<Rightarrow> ('w, kube_error option) act" where
  "applyDeployment cl d w =
     (let (e, w) = cl_OnError cl retriable (apply_attempt cl d) w in (map_option Api e, w))"

definition applyService :: "'w cluster \<Rightarrow> Service \<Rightarrow> ('w, kube_error option) act" where
  "applyService cl s w =
     (case cl_createService cl s w of
        (Some e, w) \<Rightarrow> if IsAlreadyExists e then (None, w) else (Some (Api e), w)
      | (None, w) \<Rightarrow> (None, w))"

definition Scale :: "'w cluster \<Rightarrow> string \<Rightarrow> int \<Rightarrow> ('w, kube_error option) act" where
  \<open>Scale cl deployment replicas w =
     (let (e, w) = cl_patchDeployment cl deployment (''{"spec":{"replicas":'' @ itoa replicas @ ''}}'') w in
      (map_option Api e, w))\<close>

definition deployment_ready :: "int \<Rightarrow> Deployment \<Rightarrow> bool" where
  "deployment_ready replicas d \<longleftrightarrow>
     ReadyReplicas (d_Status d) = replicas \<and> UpdatedReplicas (d_Status d) = replicas \<and>
     Replicas (d_Status d) = replicas \<and> d_Generation d = ObservedGeneration (d_Status d)"

partial_function (option) wait_deployment ::
  "'w cluster \<Rightarrow> string \<Rightarrow> int \<Rightarrow> duration \<Rightarrow> time \<Rightarrow> 'w \<Rightarrow> (kube_error option \<times> 'w) option" where
  "wait_deployment cl name replicas timeout deadline w =
     (case cl_getDeployment cl name w of (d, w1) \<Rightarrow>
        if (case d of Inl e \<Rightarrow> False | Inr d \<Rightarrow> deployment_ready replicas d) then Some (None, w1)
        else (case cl_now cl w1 of (t, w2) \<Rightarrow>
                if deadline < t then Some (Some (NotReady name replicas timeout), w2)
                else (case cl_wait cl Second w2 of (c, w3) \<Rightarrow>
                        (case c of
                           Some e \<Rightarrow> Some (Some (Context e), w3)
                         | None \<Rightarrow> wait_deployment cl name replicas timeout deadline w3))))"

definition WaitDeploymentReady ::
  "'w cluster \<Rightarrow> string \<Rightarrow> int \<Rightarrow> duration \<Rightarrow> 'w \<Rightarrow> (kube_error option \<times> 'w) option" where
  "WaitDeploymentReady cl name replicas timeout w =
     (let (t, w) = cl_now cl w in wait_deployment cl name replicas timeout (time_add t timeout) w)"

definition serving :: "string + response \<Rightarrow> bool" where
  "serving rep \<longleftrightarrow> (case rep of Inl _ \<Rightarrow> False | Inr resp \<Rightarrow> rs_status resp = StatusOK)"

partial_function (option) wait_http ::
  "'w cluster \<Rightarrow> string \<Rightarrow> duration \<Rightarrow> time \<Rightarrow> 'w \<Rightarrow> (kube_error option \<times> 'w) option" where
  "wait_http cl url timeout deadline w =
     (case cl_now cl w of (t, w1) \<Rightarrow>
        if t < deadline
        then (case cl_get cl url w1 of (rep, w2) \<Rightarrow>
                if serving rep then Some (None, w2)
                else (case cl_wait cl (500 * Millisecond) w2 of (c, w3) \<Rightarrow>
                        (case c of
                           Some e \<Rightarrow> Some (Some (Context e), w3)
                         | None \<Rightarrow> wait_http cl url timeout deadline w3)))
        else Some (Some (NotServing url timeout), w1))"

definition waitHTTPReady :: "'w cluster \<Rightarrow> string \<Rightarrow> duration \<Rightarrow> 'w \<Rightarrow> (kube_error option \<times> 'w) option" where
  "waitHTTPReady cl url timeout w =
     (let (t, w) = cl_now cl w in wait_http cl url timeout (time_add t timeout) w)"

text \<open>\<open>if err := step; err != nil { return ... }\<close>, for a step that may also not return.\<close>

fun andthen :: "(kube_error option \<times> 'w) option \<Rightarrow> ('w \<Rightarrow> (kube_error option \<times> 'w) option) \<Rightarrow> (kube_error option \<times> 'w) option" where
  "andthen None f = None"
| "andthen (Some (Some e, w)) f = Some (Some e, w)"
| "andthen (Some (None, w)) f = f w"

definition wrap :: "string \<Rightarrow> kube_error option \<times> 'w \<Rightarrow> (kube_error option \<times> 'w) option" where
  "wrap msg r = (case r of (e, w) \<Rightarrow> Some (map_option (Wrap msg) e, w))"

definition EnsureRateLimiter ::
  "'w cluster \<Rightarrow> Kube \<Rightarrow> int \<Rightarrow> string \<Rightarrow> 'w \<Rightarrow> (kube_error option \<times> 'w) option" where
  "EnsureRateLimiter cl k workers workerCPU w =
     (let workerCPU = (if workerCPU = '''' then workerCPUDefault else workerCPU) in
      andthen (wrap ''apply coordinator: '' (applyDeployment cl (coordinatorDeployment k) w)) (\<lambda>w.
      andthen (wrap ''apply coordinator service: ''
        (applyService cl (service k coordinatorName ''coordinator'' coordinatorPort) w)) (\<lambda>w.
      andthen (wrap ''apply workers: '' (applyDeployment cl (workerDeployment k workers workerCPU) w)) (\<lambda>w.
      andthen (wrap ''apply worker service: '' (applyService cl (service k workerName ''worker'' workerPort) w)) (\<lambda>w.
      andthen (WaitDeploymentReady cl coordinatorName 1 (120 * Second) w) (\<lambda>w.
      andthen (WaitDeploymentReady cl workerName workers (120 * Second) w) (\<lambda>w.
      waitHTTPReady cl (''http://'' @ workerName @ '':'' @ itoa workerPort @ ''/healthz'') (30 * Second) w)))))))"

definition pods :: "'w cluster \<Rightarrow> string \<Rightarrow> ('w, kube_error + Pod list) act" where
  "pods cl role w =
     (case cl_listPods cl (''app=ratelim,role='' @ role) w of
        (Inl e, w) \<Rightarrow> (Inl (Api e), w)
      | (Inr items, w) \<Rightarrow>
          (Inr (sort_key pod_Name (filter (\<lambda>p. \<not> pod_Deleting p \<and> pod_Phase p = ''Running'') items)), w))"

text \<open>The counters of a worker's \<open>/v1/stats\<close>; the status of the answer is not looked at.\<close>

definition set_decisions ::
  "string \<Rightarrow> json \<Rightarrow> (string \<times> (string \<times> int) list) list \<Rightarrow> (string \<times> (string \<times> int) list) list option" where
  "set_decisions k v m =
     (if key_match ''tenants'' k then decode_map (\<lambda>v. decode_map (\<lambda>v. decode_int v 0) v []) v m else Some m)"

definition counter_of :: "(string \<times> int) list \<Rightarrow> string \<Rightarrow> int" where
  "counter_of m k = (case map_of m k of None \<Rightarrow> 0 | Some n \<Rightarrow> n)"

definition decisions_of_reply :: "string + response \<Rightarrow> int option" where
  "decisions_of_reply rep =
     (case rep of
        Inl _ \<Rightarrow> None
      | Inr resp \<Rightarrow>
          map_option
            (foldl (\<lambda>n (tenant, m). i64 (n + i64 (counter_of m ''admitted'' + counter_of m ''rejected''))) 0)
            (decode_struct set_decisions [] (rs_body resp)))"

fun scrape_workers :: "'w cluster \<Rightarrow> Pod list \<Rightarrow> (string \<times> int) list \<Rightarrow> ('w, (string \<times> int) list) act" where
  "scrape_workers cl [] out w = (out, w)"
| "scrape_workers cl (p # ps) out w =
     (case cl_get cl (''http://'' @ pod_IP p @ '':'' @ itoa workerPort @ ''/v1/stats'') w of (rep, w) \<Rightarrow>
        (case decisions_of_reply rep of
           None \<Rightarrow> scrape_workers cl ps out w
         | Some n \<Rightarrow> scrape_workers cl ps (put (pod_Name p) n out) w))"

definition WorkerDecisions :: "'w cluster \<Rightarrow> ('w, kube_error + (string \<times> int) list) act" where
  "WorkerDecisions cl w =
     (case pods cl ''worker'' w of
        (Inl e, w) \<Rightarrow> (Inl e, w)
      | (Inr ps, w) \<Rightarrow> (let (out, w) = scrape_workers cl ps [] w in (Inr out, w)))"

fun probe :: "'w cluster \<Rightarrow> string \<Rightarrow> nat \<Rightarrow> 'w \<Rightarrow> 'w" where
  "probe cl url 0 w = w"
| "probe cl url (Suc n) w = probe cl url n (snd (cl_get cl url w))"

definition all_advanced :: "Pod list \<Rightarrow> (string \<times> int) list \<Rightarrow> (string \<times> int) list \<Rightarrow> bool" where
  "all_advanced ps base cur \<longleftrightarrow> list_all (\<lambda>p. counter_of base (pod_Name p) < counter_of cur (pod_Name p)) ps"

partial_function (option) wait_reachable ::
  "'w cluster \<Rightarrow> string \<Rightarrow> duration \<Rightarrow> (string \<times> int) list \<Rightarrow> time \<Rightarrow> 'w \<Rightarrow> (kube_error option \<times> 'w) option" where
  "wait_reachable cl workerURL timeout base deadline w =
     (case pods cl ''worker'' w of (r, w1) \<Rightarrow>
        (case r of
           Inl e \<Rightarrow> Some (Some e, w1)
         | Inr ps \<Rightarrow>
             (case WorkerDecisions cl (probe cl (workerURL @ ''/v1/check/tenant-hi'') (12 * length ps) w1) of (cur, w2) \<Rightarrow>
                if (case cur of Inl _ \<Rightarrow> False | Inr cur \<Rightarrow> all_advanced ps base cur) then Some (None, w2)
                else (case cl_now cl w2 of (t, w3) \<Rightarrow>
                        if deadline < t then Some (Some (NotReachable timeout), w3)
                        else (case cl_wait cl Second w3 of (c, w4) \<Rightarrow>
                                (case c of
                                   Some e \<Rightarrow> Some (Some (Context e), w4)
                                 | None \<Rightarrow> wait_reachable cl workerURL timeout base deadline w4))))))"

definition WaitAllWorkersReachable ::
  "'w cluster \<Rightarrow> string \<Rightarrow> duration \<Rightarrow> 'w \<Rightarrow> (kube_error option \<times> 'w) option" where
  "WaitAllWorkersReachable cl workerURL timeout w =
     (case WorkerDecisions cl w of
        (Inl e, w) \<Rightarrow> Some (Some e, w)
      | (Inr base, w) \<Rightarrow>
          (let (t, w) = cl_now cl w in wait_reachable cl workerURL timeout base (time_add t timeout) w))"

definition costPatch :: string where
  \<open>costPatch = ''{"metadata":{"annotations":{"controller.kubernetes.io/pod-deletion-cost":"-999"}}}''\<close>

text \<open>The victim's name and the error, as the function returns them.\<close>

definition KillOneWorkerNoReplacement :: "'w cluster \<Rightarrow> ('w, string \<times> kube_error option) act" where
  "KillOneWorkerNoReplacement cl w =
     (case pods cl ''worker'' w of
        (Inl e, w) \<Rightarrow> (('''', Some e), w)
      | (Inr ps, w) \<Rightarrow>
          if length ps < 2 then (('''', Some (TooFewWorkers (length ps))), w)
          else
            let victim = pod_Name (ps ! 0) in
            (case cl_patchPod cl victim costPatch w of
               (Some e, w) \<Rightarrow> (('''', Some (Api e)), w)
             | (None, w) \<Rightarrow>
                 (case Scale cl workerName (int (length ps) - 1) w of
                    (Some e, w) \<Rightarrow> (('''', Some e), w)
                  | (None, w) \<Rightarrow>
                      let (e, w) = cl_deletePod cl victim 0 w in ((victim, map_option Api e), w))))"

fun delete_pods :: "'w cluster \<Rightarrow> Pod list \<Rightarrow> ('w, kube_error option) act" where
  "delete_pods cl [] w = (None, w)"
| "delete_pods cl (p # ps) w =
     (case cl_deletePod cl (pod_Name p) 0 w of
        (Some e, w) \<Rightarrow> if \<not> IsNotFound e then (Some (Api e), w) else delete_pods cl ps w
      | (None, w) \<Rightarrow> delete_pods cl ps w)"

definition KillCoordinator :: "'w cluster \<Rightarrow> ('w, kube_error option) act" where
  "KillCoordinator cl w =
     (case Scale cl coordinatorName 0 w of
        (Some e, w) \<Rightarrow> (Some e, w)
      | (None, w) \<Rightarrow>
          (case pods cl ''coordinator'' w of
             (Inl e, w) \<Rightarrow> (Some e, w)
           | (Inr ps, w) \<Rightarrow> delete_pods cl ps w))"

definition RestoreCoordinator :: "'w cluster \<Rightarrow> 'w \<Rightarrow> (kube_error option \<times> 'w) option" where
  "RestoreCoordinator cl w =
     (case Scale cl coordinatorName 1 w of
        (Some e, w) \<Rightarrow> Some (Some e, w)
      | (None, w) \<Rightarrow> WaitDeploymentReady cl coordinatorName 1 (120 * Second) w)"

text \<open>The text of an error, as \<open>%v\<close> prints it; \<open>show\<close> prints the rate of a bad configuration.\<close>

fun api_text :: "api_error \<Rightarrow> string" where
  "api_text (NotFound m) = m"
| "api_text (Conflict m) = m"
| "api_text (AlreadyExists m) = m"
| "api_text (ApiFailure m) = m"

fun load_text :: "(float64 \<Rightarrow> string) \<Rightarrow> load_error \<Rightarrow> string" where
  "load_text show (ReadError m) = m"
| "load_text show (ParseError path m) = ''parsing '' @ path @ '': '' @ m"
| "load_text show (LeaseSizeError n) = ''lease.size must be >= 1, got '' @ itoa n"
| "load_text show (DurationError n) = ''lease.durationMs must be >= 100, got '' @ itoa n"
| "load_text show NoTenants = ''no tenants configured''"
| "load_text show (RateError name rate) = ''tenant '' @ [CHR 0x22] @ name @ [CHR 0x22] @ '': rate must be > 0, got '' @ show rate"

fun error_text :: "(float64 \<Rightarrow> string) \<Rightarrow> kube_error \<Rightarrow> string" where
  "error_text show (Api e) = api_text e"
| "error_text show (Context m) = m"
| "error_text show (Wrap msg e) = msg @ error_text show e"
| "error_text show (NotReady name n timeout) =
     ''deployment '' @ name @ '' not ready with '' @ itoa n @ '' replicas after '' @ Duration_String timeout"
| "error_text show (NotServing url timeout) = url @ '' not serving after '' @ Duration_String timeout"
| "error_text show (NotReachable timeout) =
     ''not all worker pods receiving service traffic after '' @ Duration_String timeout @ '' (kube-proxy endpoint propagation)''"
| "error_text show (TooFewWorkers n) = ''need >=2 running workers, have '' @ digits n"
| "error_text show (FileError m) = m"
| "error_text show (BadConfig e) = load_text show e"

section \<open>Polling returns\<close>

text \<open>A polling loop runs its body until the body gives a result. If every other run of the body brings a
  measure down, the loop returns, with a result the body gave.\<close>

lemma poll_returns:
  fixes m :: "'w \<Rightarrow> nat"
  assumes unfold: "\<And>w. f w = (case body w of Inl r \<Rightarrow> Some r | Inr w' \<Rightarrow> f w')"
    and down: "\<And>w w'. body w = Inr w' \<Longrightarrow> m w' < m w"
  shows "\<exists>w0 r. body w0 = Inl r \<and> f w = Some r"
proof (induction "m w" arbitrary: w rule: less_induct)
  case less
  show ?case
  proof (cases "body w")
    case (Inl r)
    then show ?thesis using unfold [of w] by auto
  next
    case (Inr w')
    then show ?thesis using less [OF down [OF Inr]] unfold [of w] by auto
  qed
qed

text \<open>What the loops rely on: the clock does not go back, and a timer that fired took its time.\<close>

definition clock_ok :: "'w cluster \<Rightarrow> ('w \<Rightarrow> time) \<Rightarrow> bool" where
  "clock_ok cl clk \<longleftrightarrow>
     (\<forall>w t w'. cl_now cl w = (t, w') \<longrightarrow> clk w \<le> t \<and> t \<le> clk w') \<and>
     (\<forall>d w w'. cl_wait cl d w = (None, w') \<longrightarrow> clk w + d \<le> clk w') \<and>
     (\<forall>n w r w'. cl_getDeployment cl n w = (r, w') \<longrightarrow> clk w \<le> clk w') \<and>
     (\<forall>s w r w'. cl_listPods cl s w = (r, w') \<longrightarrow> clk w \<le> clk w') \<and>
     (\<forall>u w r w'. cl_get cl u w = (r, w') \<longrightarrow> clk w \<le> clk w')"

lemma clock_okD:
  assumes "clock_ok cl clk"
  shows "cl_now cl w = (t, w') \<Longrightarrow> clk w \<le> t \<and> t \<le> clk w'"
    and "cl_wait cl d w = (None, w') \<Longrightarrow> clk w + d \<le> clk w'"
    and "cl_getDeployment cl n w = (r, w') \<Longrightarrow> clk w \<le> clk w'"
    and "cl_listPods cl s w = (l, w') \<Longrightarrow> clk w \<le> clk w'"
    and "cl_get cl u w = (g, w') \<Longrightarrow> clk w \<le> clk w'"
  using assms unfolding clock_ok_def by blast+

definition ready_reply :: "int \<Rightarrow> api_error + Deployment \<Rightarrow> bool" where
  "ready_reply replicas d \<longleftrightarrow> (case d of Inl e \<Rightarrow> False | Inr d \<Rightarrow> deployment_ready replicas d)"

definition deployment_body ::
  "'w cluster \<Rightarrow> string \<Rightarrow> int \<Rightarrow> duration \<Rightarrow> time \<Rightarrow> 'w \<Rightarrow> (kube_error option \<times> 'w) + 'w" where
  "deployment_body cl name replicas timeout deadline w =
     (let (d, w1) = cl_getDeployment cl name w in
      if ready_reply replicas d then Inl (None, w1)
      else let (t, w2) = cl_now cl w1 in
           if deadline < t then Inl (Some (NotReady name replicas timeout), w2)
           else (case cl_wait cl Second w2 of (Some e, w3) \<Rightarrow> Inl (Some (Context e), w3) | (None, w3) \<Rightarrow> Inr w3))"

lemma wait_deployment_unfold:
  "wait_deployment cl name n timeout deadline w =
    (case deployment_body cl name n timeout deadline w of
       Inl r \<Rightarrow> Some r | Inr w' \<Rightarrow> wait_deployment cl name n timeout deadline w')"
  by (subst wait_deployment.simps) (auto simp: deployment_body_def ready_reply_def split: prod.splits option.splits sum.splits)

lemma deployment_body_down:
  assumes ck: "clock_ok cl clk" and b: "deployment_body cl name n timeout deadline w = Inr w'"
  shows "nat (deadline + 1 - clk w') < nat (deadline + 1 - clk w)"
proof -
  obtain d w1 t w2 where s: "cl_getDeployment cl name w = (d, w1)" "cl_now cl w1 = (t, w2)" "t \<le> deadline"
      "cl_wait cl Second w2 = (None, w')"
    using b by (auto simp: deployment_body_def split: prod.splits option.splits if_splits)
  then show ?thesis
    using clock_okD(3) [OF ck s(1)] clock_okD(1) [OF ck s(2)] clock_okD(2) [OF ck s(4)] by (simp add: Second_def)
qed

text \<open>How a wait for a deployment can end.\<close>

definition wait_outcome :: "'w cluster \<Rightarrow> string \<Rightarrow> int \<Rightarrow> duration \<Rightarrow> time \<Rightarrow> kube_error option \<times> 'w \<Rightarrow> bool" where
  "wait_outcome cl name n timeout deadline r \<longleftrightarrow>
     (case r of
        (None, w') \<Rightarrow> \<exists>w1 d. cl_getDeployment cl name w1 = (Inr d, w') \<and> deployment_ready n d
      | (Some e, w') \<Rightarrow>
          (e = NotReady name n timeout \<and> (\<exists>w1 t. cl_now cl w1 = (t, w') \<and> deadline < t)) \<or>
          (\<exists>m w1. e = Context m \<and> cl_wait cl Second w1 = (Some m, w')))"

lemma deployment_body_outcome:
  "deployment_body cl name n timeout deadline w = Inl r \<Longrightarrow> wait_outcome cl name n timeout deadline r"
  by (auto simp: deployment_body_def wait_outcome_def ready_reply_def
      split: prod.splits option.splits if_splits sum.splits)

lemma wait_deployment_returns:
  assumes "clock_ok cl clk"
  shows "\<exists>r. wait_deployment cl name n timeout deadline w = Some r \<and> wait_outcome cl name n timeout deadline r"
  using poll_returns [of "wait_deployment cl name n timeout deadline" "deployment_body cl name n timeout deadline"
      "\<lambda>w. nat (deadline + 1 - clk w)" w] wait_deployment_unfold deployment_body_down [OF assms]
    deployment_body_outcome by metis

lemma WaitDeploymentReady_returns:
  assumes "clock_ok cl clk"
  shows "\<exists>r. WaitDeploymentReady cl name n timeout w = Some r \<and>
    wait_outcome cl name n timeout (fst (cl_now cl w) + timeout) r"
  using wait_deployment_returns [OF assms] by (auto simp: WaitDeploymentReady_def time_add_def split: prod.splits)

definition http_body ::
  "'w cluster \<Rightarrow> string \<Rightarrow> duration \<Rightarrow> time \<Rightarrow> 'w \<Rightarrow> (kube_error option \<times> 'w) + 'w" where
  "http_body cl url timeout deadline w =
     (let (t, w1) = cl_now cl w in
      if t < deadline
      then let (rep, w2) = cl_get cl url w1 in
           if serving rep then Inl (None, w2)
           else (case cl_wait cl (500 * Millisecond) w2 of (Some e, w3) \<Rightarrow> Inl (Some (Context e), w3) | (None, w3) \<Rightarrow> Inr w3)
      else Inl (Some (NotServing url timeout), w1))"

lemma wait_http_unfold:
  "wait_http cl url timeout deadline w =
    (case http_body cl url timeout deadline w of Inl r \<Rightarrow> Some r | Inr w' \<Rightarrow> wait_http cl url timeout deadline w')"
  by (subst wait_http.simps) (auto simp: http_body_def split: prod.splits option.splits)

lemma http_body_down:
  assumes ck: "clock_ok cl clk" and b: "http_body cl url timeout deadline w = Inr w'"
  shows "nat (deadline + 1 - clk w') < nat (deadline + 1 - clk w)"
proof -
  obtain t w1 rep w2 where s: "cl_now cl w = (t, w1)" "t < deadline" "cl_get cl url w1 = (rep, w2)"
      "cl_wait cl (500 * Millisecond) w2 = (None, w')"
    using b by (auto simp: http_body_def split: prod.splits option.splits if_splits)
  then show ?thesis
    using clock_okD(1) [OF ck s(1)] clock_okD(5) [OF ck s(3)] clock_okD(2) [OF ck s(4)] by (simp add: Millisecond_def)
qed

lemma waitHTTPReady_returns:
  assumes ck: "clock_ok cl clk"
  shows "\<exists>r w'. waitHTTPReady cl url timeout w = Some (r, w') \<and>
    (r = None \<longrightarrow> (\<exists>w1 resp. cl_get cl url w1 = (Inr resp, w') \<and> rs_status resp = StatusOK))"
proof -
  have "\<exists>w0 r. http_body cl url timeout deadline w0 = Inl r \<and> wait_http cl url timeout deadline w = Some r"
    for deadline w
    by (rule poll_returns [of _ _ "\<lambda>w. nat (deadline + 1 - clk w)"]) (rule wait_http_unfold, rule http_body_down [OF ck])
  moreover have "http_body cl url timeout deadline w0 = Inl (None, w') \<Longrightarrow>
      \<exists>w1 resp. cl_get cl url w1 = (Inr resp, w') \<and> rs_status resp = StatusOK" for deadline w0 w'
    by (auto simp: http_body_def serving_def split: prod.splits option.splits if_splits sum.splits)
  ultimately show ?thesis unfolding waitHTTPReady_def by (auto split: prod.splits) metis
qed

lemma pods_clk: "clock_ok cl clk \<Longrightarrow> pods cl role w = (r, w') \<Longrightarrow> clk w \<le> clk w'"
  by (auto simp: pods_def split: prod.splits sum.splits dest: clock_okD(4))

lemma probe_clk: "clock_ok cl clk \<Longrightarrow> clk w \<le> clk (probe cl url n w)"
proof (induction n arbitrary: w)
  case (Suc n)
  have "clk w \<le> clk (snd (cl_get cl url w))" using clock_okD(5) [OF Suc.prems, of url w] by (metis prod.collapse)
  also have "\<dots> \<le> clk (probe cl url n (snd (cl_get cl url w)))" by (rule Suc.IH [OF Suc.prems])
  finally show ?case by simp
qed simp

lemma scrape_clk: "clock_ok cl clk \<Longrightarrow> scrape_workers cl ps out w = (r, w') \<Longrightarrow> clk w \<le> clk w'"
proof (induction ps arbitrary: out w)
  case (Cons p ps)
  let ?u = "''http://'' @ pod_IP p @ '':'' @ itoa workerPort @ ''/v1/stats''"
  obtain rep w1 where g: "cl_get cl ?u w = (rep, w1)" by fastforce
  obtain out' where "scrape_workers cl ps out' w1 = (r, w')"
    using Cons.prems(2) g by (auto split: option.splits)
  then have "clk w1 \<le> clk w'" by (rule Cons.IH [OF Cons.prems(1)])
  then show ?case using clock_okD(5) [OF Cons.prems(1) g] by simp
qed simp

lemma WorkerDecisions_clk: "clock_ok cl clk \<Longrightarrow> WorkerDecisions cl w = (r, w') \<Longrightarrow> clk w \<le> clk w'"
  by (auto simp: WorkerDecisions_def split: prod.splits sum.splits dest: pods_clk)
    (meson order_trans pods_clk scrape_clk)

definition reachable_body ::
  "'w cluster \<Rightarrow> string \<Rightarrow> duration \<Rightarrow> (string \<times> int) list \<Rightarrow> time \<Rightarrow> 'w \<Rightarrow> (kube_error option \<times> 'w) + 'w" where
  "reachable_body cl workerURL timeout base deadline w =
     (case pods cl ''worker'' w of
        (Inl e, w1) \<Rightarrow> Inl (Some e, w1)
      | (Inr ps, w1) \<Rightarrow>
          let (cur, w2) = WorkerDecisions cl (probe cl (workerURL @ ''/v1/check/tenant-hi'') (12 * length ps) w1) in
          if (case cur of Inl _ \<Rightarrow> False | Inr cur \<Rightarrow> all_advanced ps base cur) then Inl (None, w2)
          else let (t, w3) = cl_now cl w2 in
               if deadline < t then Inl (Some (NotReachable timeout), w3)
               else (case cl_wait cl Second w3 of (Some e, w4) \<Rightarrow> Inl (Some (Context e), w4) | (None, w4) \<Rightarrow> Inr w4))"

lemma wait_reachable_unfold:
  "wait_reachable cl url timeout base deadline w =
    (case reachable_body cl url timeout base deadline w of
       Inl r \<Rightarrow> Some r | Inr w' \<Rightarrow> wait_reachable cl url timeout base deadline w')"
  by (subst wait_reachable.simps) (auto simp: reachable_body_def split: prod.splits option.splits sum.splits)

lemma reachable_body_down:
  assumes ck: "clock_ok cl clk" and b: "reachable_body cl url timeout base deadline w = Inr w'"
  shows "nat (deadline + 1 - clk w') < nat (deadline + 1 - clk w)"
proof -
  obtain ps w1 cur w2 t w3 where s: "pods cl ''worker'' w = (Inr ps, w1)"
      "WorkerDecisions cl (probe cl (url @ ''/v1/check/tenant-hi'') (12 * length ps) w1) = (cur, w2)"
      "cl_now cl w2 = (t, w3)" "t \<le> deadline" "cl_wait cl Second w3 = (None, w')"
    using b by (auto simp: reachable_body_def split: prod.splits option.splits if_splits sum.splits)
  have "clk w \<le> clk w2"
    using pods_clk [OF ck s(1)] probe_clk [OF ck, of w1] WorkerDecisions_clk [OF ck s(2)] by (meson order_trans)
  then show ?thesis using clock_okD(1) [OF ck s(3)] clock_okD(2) [OF ck s(5)] s(4) by (simp add: Second_def)
qed

text \<open>The wait for all workers returns, and with success only after every running worker's count of decisions
  rose above what it was at the start.\<close>

lemma WaitAllWorkersReachable_returns:
  assumes ck: "clock_ok cl clk"
  shows "\<exists>r w'. WaitAllWorkersReachable cl url timeout w = Some (r, w') \<and>
    (r = None \<longrightarrow> (\<exists>base ps cur w1 w2 w3 w4. WorkerDecisions cl w = (Inr base, w1) \<and> pods cl ''worker'' w2 = (Inr ps, w3) \<and>
       WorkerDecisions cl w4 = (Inr cur, w') \<and> all_advanced ps base cur))"
proof (cases "WorkerDecisions cl w")
  case (Pair r w1)
  show ?thesis
  proof (cases r)
    case (Inl e)
    then show ?thesis using Pair by (simp add: WaitAllWorkersReachable_def)
  next
    case (Inr base)
    obtain t w2 where t: "cl_now cl w1 = (t, w2)" by fastforce
    let ?d = "time_add t timeout"
    obtain w0 r' w' where b: "reachable_body cl url timeout base ?d w0 = Inl (r', w')"
        and l: "wait_reachable cl url timeout base ?d w2 = Some (r', w')"
      using poll_returns [of "wait_reachable cl url timeout base ?d" "reachable_body cl url timeout base ?d"
          "\<lambda>w. nat (?d + 1 - clk w)" w2, OF wait_reachable_unfold reachable_body_down [OF ck]] by force
    have "\<exists>ps cur w3 w4. pods cl ''worker'' w0 = (Inr ps, w3) \<and> WorkerDecisions cl w4 = (Inr cur, w') \<and> all_advanced ps base cur"
      if "r' = None"
      using b that by (auto simp: reachable_body_def split: prod.splits option.splits if_splits sum.splits)
    then show ?thesis using Pair Inr t l by (auto simp: WaitAllWorkersReachable_def)
  qed
qed

section \<open>Deployments and kills\<close>

text \<open>What \<open>applyDeployment\<close> relies on: the retry helper's result is that of one of its attempts; an
  object created or updated without error is stored; an object is returned under its own name.\<close>

definition store_ok :: "'w cluster \<Rightarrow> ('w \<Rightarrow> string \<Rightarrow> DeploymentSpec option) \<Rightarrow> bool" where
  "store_ok cl stored \<longleftrightarrow>
     (\<forall>p f w. \<exists>w0. cl_OnError cl p f w = f w0) \<and>
     (\<forall>d w w'. cl_createDeployment cl d w = (None, w') \<longrightarrow> stored w' (d_Name d) = Some (d_Spec d)) \<and>
     (\<forall>d w w'. cl_updateDeployment cl d w = (None, w') \<longrightarrow> stored w' (d_Name d) = Some (d_Spec d)) \<and>
     (\<forall>n w d w'. cl_getDeployment cl n w = (Inr d, w') \<longrightarrow> d_Name d = n)"

lemma applyDeployment_stores:
  assumes st: "store_ok cl stored" and a: "applyDeployment cl d w = (None, w')"
  shows "stored w' (d_Name d) = Some (d_Spec d)"
proof -
  obtain w0 where "cl_OnError cl retriable (apply_attempt cl d) w = apply_attempt cl d w0"
    using st unfolding store_ok_def by blast
  then have "apply_attempt cl d w0 = (None, w')" using a by (auto simp: applyDeployment_def split: prod.splits)
  then consider w1 where "cl_createDeployment cl d w1 = (None, w')"
    | ex w1 w2 where "cl_getDeployment cl (d_Name d) w1 = (Inr ex, w2)" "cl_updateDeployment cl (ex\<lparr>d_Spec := d_Spec d\<rparr>) w2 = (None, w')"
    by (auto simp: apply_attempt_def split: prod.splits sum.splits if_splits)
  then show ?thesis
  proof cases
    case 1
    then show ?thesis using st unfolding store_ok_def by blast
  next
    case 2
    have "d_Name (ex\<lparr>d_Spec := d_Spec d\<rparr>) = d_Name d" using st 2(1) unfolding store_ok_def by simp blast
    then show ?thesis using st 2(2) unfolding store_ok_def by fastforce
  qed
qed

text \<open>A successful kill of a worker: the victim is a running worker with the least name, there were at least
  two, and the deployment was scaled down by one before the victim was deleted without grace.\<close>

lemma KillOneWorker_success:
  assumes "KillOneWorkerNoReplacement cl w = ((victim, None), w')"
  shows "\<exists>ps w1 w2 w3. pods cl ''worker'' w = (Inr ps, w1) \<and> 2 \<le> length ps \<and> victim = pod_Name (ps ! 0) \<and>
    cl_patchPod cl victim costPatch w1 = (None, w2) \<and> Scale cl workerName (int (length ps) - 1) w2 = (None, w3) \<and>
    cl_deletePod cl victim 0 w3 = (None, w')"
  using assms
  by (auto simp: KillOneWorkerNoReplacement_def Let_def split: prod.splits sum.splits option.splits if_splits)

lemma pods_running:
  assumes "pods cl role w = (Inr ps, w')"
  shows "sorted (map pod_Name ps)" and "\<forall>p \<in> set ps. \<not> pod_Deleting p \<and> pod_Phase p = ''Running''"
    and "p \<in> set ps \<Longrightarrow> pod_Name (hd ps) \<le> pod_Name p"
proof -
  show s: "sorted (map pod_Name ps)" and "\<forall>p \<in> set ps. \<not> pod_Deleting p \<and> pod_Phase p = ''Running''"
    using assms by (auto simp: pods_def split: prod.splits sum.splits)
  show "p \<in> set ps \<Longrightarrow> pod_Name (hd ps) \<le> pod_Name p" using s by (cases ps) auto
qed

section \<open>Properties\<close>

lemma itoa_ports [simp]: "itoa 8080 = ''8080''" "itoa 8081 = ''8081''"
  by (simp_all add: itoa_def digits.simps char_of_def bit_0)

text \<open>What successful polling goes through, world by world: unsuccessful looks, each followed by a wait that
  is not cut off, and at last a look that finds what is waited for.\<close>

inductive becomes_ready :: "'w cluster \<Rightarrow> string \<Rightarrow> int \<Rightarrow> time \<Rightarrow> 'w \<Rightarrow> 'w \<Rightarrow> bool"
  for cl :: "'w cluster" and name :: string and n :: int and deadline :: time where
  ready_now: "cl_getDeployment cl name w = (Inr d, w') \<Longrightarrow> deployment_ready n d \<Longrightarrow> becomes_ready cl name n deadline w w'"
| ready_later: "cl_getDeployment cl name w = (rep, w1) \<Longrightarrow> \<not> ready_reply n rep \<Longrightarrow> cl_now cl w1 = (t, w2) \<Longrightarrow> t \<le> deadline \<Longrightarrow>
    cl_wait cl Second w2 = (None, w3) \<Longrightarrow> becomes_ready cl name n deadline w3 w' \<Longrightarrow> becomes_ready cl name n deadline w w'"

inductive becomes_serving :: "'w cluster \<Rightarrow> string \<Rightarrow> time \<Rightarrow> 'w \<Rightarrow> 'w \<Rightarrow> bool"
  for cl :: "'w cluster" and url :: string and deadline :: time where
  serving_now: "cl_now cl w = (t, w1) \<Longrightarrow> t < deadline \<Longrightarrow> cl_get cl url w1 = (Inr resp, w') \<Longrightarrow> rs_status resp = StatusOK \<Longrightarrow>
    becomes_serving cl url deadline w w'"
| serving_later: "cl_now cl w = (t, w1) \<Longrightarrow> t < deadline \<Longrightarrow> cl_get cl url w1 = (rep, w2) \<Longrightarrow> \<not> serving rep \<Longrightarrow>
    cl_wait cl (500 * Millisecond) w2 = (None, w3) \<Longrightarrow> becomes_serving cl url deadline w3 w' \<Longrightarrow>
    becomes_serving cl url deadline w w'"

definition ready_within :: "'w cluster \<Rightarrow> string \<Rightarrow> int \<Rightarrow> duration \<Rightarrow> 'w \<Rightarrow> 'w \<Rightarrow> bool" where
  "ready_within cl name n timeout w w' \<longleftrightarrow> (\<exists>t w0. cl_now cl w = (t, w0) \<and> becomes_ready cl name n (t + timeout) w0 w')"

definition serving_within :: "'w cluster \<Rightarrow> string \<Rightarrow> duration \<Rightarrow> 'w \<Rightarrow> 'w \<Rightarrow> bool" where
  "serving_within cl url timeout w w' \<longleftrightarrow> (\<exists>t w0. cl_now cl w = (t, w0) \<and> becomes_serving cl url (t + timeout) w0 w')"

definition service_there :: "'w cluster \<Rightarrow> Service \<Rightarrow> 'w \<Rightarrow> 'w \<Rightarrow> bool" where
  "service_there cl s w w' \<longleftrightarrow>
     cl_createService cl s w = (None, w') \<or> (\<exists>e. cl_createService cl s w = (Some e, w') \<and> IsAlreadyExists e)"

lemma wait_deployment_success:
  assumes ck: "clock_ok cl clk"
  shows "wait_deployment cl name n timeout deadline w = Some (None, w') \<longleftrightarrow> becomes_ready cl name n deadline w w'"
proof
  show "becomes_ready cl name n deadline w w'" if "wait_deployment cl name n timeout deadline w = Some (None, w')"
    using that
  proof (induction "nat (deadline + 1 - clk w)" arbitrary: w rule: less_induct)
    case less
    let ?b = "deployment_body cl name n timeout deadline w"
    show ?case
    proof (cases ?b)
      case (Inl r)
      then have "?b = Inl (None, w')" using less.prems wait_deployment_unfold [of cl name n timeout deadline w] by simp
      then show ?thesis
        by (auto simp: deployment_body_def ready_reply_def split: prod.splits option.splits if_splits sum.splits intro: ready_now)
    next
      case (Inr w3)
      then have "becomes_ready cl name n deadline w3 w'"
        using less.hyps [OF deployment_body_down [OF ck Inr]] less.prems wait_deployment_unfold [of cl name n timeout deadline w] by simp
      then show ?thesis
        using Inr by (auto simp: deployment_body_def not_less split: prod.splits option.splits if_splits intro: ready_later)
    qed
  qed
  show "wait_deployment cl name n timeout deadline w = Some (None, w')" if "becomes_ready cl name n deadline w w'"
    using that
  proof induction
    case (ready_now w d w')
    then show ?case by (subst wait_deployment.simps) simp
  next
    case (ready_later w rep w1 t w2 w3 w')
    then show ?case by (subst wait_deployment.simps) (auto simp: ready_reply_def)
  qed
qed

lemma wait_http_success:
  assumes ck: "clock_ok cl clk"
  shows "wait_http cl url timeout deadline w = Some (None, w') \<longleftrightarrow> becomes_serving cl url deadline w w'"
proof
  show "becomes_serving cl url deadline w w'" if "wait_http cl url timeout deadline w = Some (None, w')"
    using that
  proof (induction "nat (deadline + 1 - clk w)" arbitrary: w rule: less_induct)
    case less
    let ?b = "http_body cl url timeout deadline w"
    show ?case
    proof (cases ?b)
      case (Inl r)
      then have "?b = Inl (None, w')" using less.prems wait_http_unfold [of cl url timeout deadline w] by simp
      then show ?thesis
        by (auto simp: http_body_def serving_def split: prod.splits option.splits if_splits sum.splits intro: serving_now)
    next
      case (Inr w3)
      then have "becomes_serving cl url deadline w3 w'"
        using less.hyps [OF http_body_down [OF ck Inr]] less.prems wait_http_unfold [of cl url timeout deadline w] by simp
      then show ?thesis
        using Inr by (auto simp: http_body_def split: prod.splits option.splits if_splits intro: serving_later)
    qed
  qed
  show "wait_http cl url timeout deadline w = Some (None, w')" if "becomes_serving cl url deadline w w'"
    using that
  proof induction
    case (serving_now w t w1 resp w')
    then show ?case by (subst wait_http.simps) (simp add: serving_def)
  next
    case (serving_later w t w1 rep w2 w3 w')
    then show ?case by (subst wait_http.simps) simp
  qed
qed

lemma WaitDeploymentReady_success:
  "clock_ok cl clk \<Longrightarrow> WaitDeploymentReady cl name n timeout w = Some (None, w') \<longleftrightarrow> ready_within cl name n timeout w w'"
  by (auto simp: WaitDeploymentReady_def ready_within_def time_add_def wait_deployment_success split: prod.splits)

lemma waitHTTPReady_success:
  "clock_ok cl clk \<Longrightarrow> waitHTTPReady cl url timeout w = Some (None, w') \<longleftrightarrow> serving_within cl url timeout w w'"
  by (auto simp: waitHTTPReady_def serving_within_def time_add_def wait_http_success split: prod.splits)

lemma applyService_success: "applyService cl s w = (None, w') \<longleftrightarrow> service_there cl s w w'"
  by (auto simp: applyService_def service_there_def split: prod.splits option.splits)

lemma andthen_success: "andthen x f = Some (None, w') \<longleftrightarrow> (\<exists>w1. x = Some (None, w1) \<and> f w1 = Some (None, w'))"
  by (cases "(x, f)" rule: andthen.cases) auto

lemma wrap_success: "wrap msg rw = Some (None, w') \<longleftrightarrow> rw = (None, w')"
  by (auto simp: wrap_def split: prod.splits)

lemma andthen_returns:
  assumes "\<exists>r w'. x = Some (r, w')" and "\<And>w. \<exists>r w'. f w = Some (r, w')"
  shows "\<exists>r w'. andthen x f = Some (r, w')"
proof -
  obtain r w1 where x: "x = Some (r, w1)" using assms(1) by blast
  then show ?thesis using assms(2) [of w1] by (cases r) auto
qed

lemma wrap_returns: "\<exists>r' w'. wrap msg rw = Some (r', w')"
  by (auto simp: wrap_def split: prod.splits)

lemma WaitDeploymentReady_total:
  assumes "clock_ok cl clk"
  shows "\<exists>r w'. WaitDeploymentReady cl name n timeout w = Some (r, w')"
  using WaitDeploymentReady_returns [OF assms, of name n timeout w] by auto

lemma waitHTTPReady_total:
  assumes "clock_ok cl clk"
  shows "\<exists>r w'. waitHTTPReady cl url timeout w = Some (r, w')"
  using waitHTTPReady_returns [OF assms, of url timeout w] by blast

lemma Ensure_returns:
  assumes "clock_ok cl clk"
  shows "\<exists>r w'. EnsureRateLimiter cl k workers cpu w = Some (r, w')"
  unfolding EnsureRateLimiter_def Let_def
  by (intro andthen_returns wrap_returns WaitDeploymentReady_total [OF assms] waitHTTPReady_total [OF assms])

text \<open>C34. In a world whose clock advances, setting up the rate limiter always comes to an end, whatever the
  cluster answers. It reports success exactly if one after the other, each in the world the one before left: the coordinator's
  deployment was applied, its service was created or was there already, the same for the workers, then polling found
  the coordinator ready with one replica and after that the workers with the wanted number, all of the current
  generation, each within 120 s, and at last the worker service answered its health check with 200 within 30 s.\<close>

theorem EnsureRateLimiter_ready:
  assumes "clock_ok cl clk"
  shows "\<exists>r w'. EnsureRateLimiter cl k workers cpu w = Some (r, w') \<and>
    (r = None \<longleftrightarrow> (\<exists>w1 w2 w3 w4 w5 w6.
       applyDeployment cl (coordinatorDeployment k) w = (None, w1) \<and>
       service_there cl (service k ''coordinator'' ''coordinator'' 8081) w1 w2 \<and>
       applyDeployment cl (workerDeployment k workers (if cpu = '''' then workerCPUDefault else cpu)) w2 = (None, w3) \<and>
       service_there cl (service k ''ratelim-workers'' ''worker'' 8080) w3 w4 \<and>
       ready_within cl ''coordinator'' 1 (120 * Second) w4 w5 \<and>
       ready_within cl ''ratelim-workers'' workers (120 * Second) w5 w6 \<and>
       serving_within cl ''http://ratelim-workers:8080/healthz'' (30 * Second) w6 w'))"
proof -
  have url: "''http://'' @ workerName @ '':'' @ itoa workerPort @ ''/healthz'' = ''http://ratelim-workers:8080/healthz''"
    by (simp add: kube_names)
  note success = andthen_success wrap_success applyService_success WaitDeploymentReady_success [OF assms]
    waitHTTPReady_success [OF assms]
  obtain r w' where r: "EnsureRateLimiter cl k workers cpu w = Some (r, w')" using Ensure_returns [OF assms] by blast
  have s: "EnsureRateLimiter cl k workers cpu w = Some (None, w') \<longleftrightarrow> (\<exists>w1 w2 w3 w4 w5 w6.
       applyDeployment cl (coordinatorDeployment k) w = (None, w1) \<and>
       service_there cl (service k coordinatorName ''coordinator'' coordinatorPort) w1 w2 \<and>
       applyDeployment cl (workerDeployment k workers (if cpu = '''' then workerCPUDefault else cpu)) w2 = (None, w3) \<and>
       service_there cl (service k workerName ''worker'' workerPort) w3 w4 \<and>
       ready_within cl coordinatorName 1 (120 * Second) w4 w5 \<and>
       ready_within cl workerName workers (120 * Second) w5 w6 \<and>
       serving_within cl ''http://ratelim-workers:8080/healthz'' (30 * Second) w6 w')"
    unfolding EnsureRateLimiter_def Let_def success url
    by (intro iffI; elim exE conjE; intro exI conjI; assumption)
  have "r = None \<longleftrightarrow> EnsureRateLimiter cl k workers cpu w = Some (None, w')" using r by simp
  then show ?thesis
    using r unfolding s coordinatorName_def workerName_def coordinatorPort_def workerPort_def
    by (intro exI [of _ r] exI [of _ w'] conjI) assumption+
qed

text \<open>A cluster in which everything succeeds; its world is the clock.\<close>

definition sample_deployment :: "string \<Rightarrow> Deployment" where
  "sample_deployment name =
     (if name = coordinatorName then coordinatorDeployment \<lparr>k_ns = ''ratelimiter'', k_image = ''ratelim''\<rparr>
      else workerDeployment \<lparr>k_ns = ''ratelimiter'', k_image = ''ratelim''\<rparr> 2 ''400m'')
     \<lparr>d_Name := name, d_Generation := 1, d_Status :=
        (let n = (if name = coordinatorName then 1 else 2) in
         \<lparr>ObservedGeneration = 1, Replicas = n, UpdatedReplicas = n, ReadyReplicas = n\<rparr>)\<rparr>"

definition sample_cluster :: "int cluster" where
  "sample_cluster =
     \<lparr>cl_getDeployment = \<lambda>n w. (Inr (sample_deployment n), w), cl_createDeployment = \<lambda>d w. (None, w),
      cl_updateDeployment = \<lambda>d w. (None, w), cl_patchDeployment = \<lambda>n p w. (None, w), cl_createService = \<lambda>s w. (None, w),
      cl_listPods = \<lambda>s w. (Inr [\<lparr>pod_Name = ''w-b'', pod_Deleting = False, pod_Phase = ''Running'', pod_IP = ''10.0.0.2''\<rparr>,
        \<lparr>pod_Name = ''w-a'', pod_Deleting = False, pod_Phase = ''Running'', pod_IP = ''10.0.0.1''\<rparr>], w),
      cl_patchPod = \<lambda>n p w. (None, w), cl_deletePod = \<lambda>n g w. (None, w), cl_getConfigMap = \<lambda>n w. (Inr [], w),
      cl_OnError = \<lambda>p f w. f w, cl_get = \<lambda>u w. (Inr (respond StatusOK (Text ''ok'')), w), cl_now = \<lambda>w. (w, w),
      cl_wait = \<lambda>d w. (None, w + d), cl_createTemp = \<lambda>w. (Inr ''/tmp/c'', w), cl_writeString = \<lambda>p s w. (None, w),
      cl_readFile = \<lambda>w p. Inl ''empty'', cl_remove = \<lambda>p w. w\<rparr>"

theorem EnsureRateLimiter_ready_witness:
  "\<exists>w5 w6. ready_within sample_cluster ''coordinator'' 1 (120 * Second) 0 w5 \<and>
     ready_within sample_cluster ''ratelim-workers'' 2 (120 * Second) w5 w6 \<and>
     serving_within sample_cluster ''http://ratelim-workers:8080/healthz'' (30 * Second) w6 0"
proof -
  let ?k = "\<lparr>k_ns = ''ratelimiter'', k_image = ''ratelim''\<rparr>"
  have ck: "clock_ok sample_cluster (\<lambda>w. w)" by (simp add: clock_ok_def sample_cluster_def)
  have now: "cl_now sample_cluster 0 = (0, 0)" by (simp add: sample_cluster_def)
  have dep: "WaitDeploymentReady sample_cluster name (if name = coordinatorName then 1 else 2) t 0 = Some (None, 0)" for name t
    unfolding WaitDeploymentReady_def now Let_def prod.case
    by (subst wait_deployment.simps) (simp add: sample_cluster_def sample_deployment_def deployment_ready_def)
  have http: "waitHTTPReady sample_cluster u (30 * Second) 0 = Some (None, 0)" for u
    unfolding waitHTTPReady_def now Let_def prod.case
    by (subst wait_http.simps) (simp add: sample_cluster_def serving_def respond_def time_add_def Second_def)
  have app: "applyDeployment sample_cluster d 0 = (None, 0)" "applyService sample_cluster sv 0 = (None, 0)" for d sv
    by (simp_all add: applyDeployment_def apply_attempt_def applyService_def sample_cluster_def)
  have "EnsureRateLimiter sample_cluster ?k 2 ''400m'' 0 = Some (None, 0)"
    using dep [of coordinatorName] dep [of workerName] http
    by (simp add: EnsureRateLimiter_def app wrap_def) (simp add: kube_names)
  then show ?thesis using EnsureRateLimiter_ready [OF ck, of ?k 2 "''400m''" 0] app
    by (auto simp: service_there_def sample_cluster_def)
qed

definition counters_ok :: "Counters \<Rightarrow> bool" where
  "counters_ok c \<longleftrightarrow> list_all (\<lambda>(k, v). in_i64 v) (counters_map c)"

lemma counters_distinct: "distinct (map fst (sort_key fst (counters_map c)))" "distinct (map fst (counters_map c))"
proof -
  show d: "distinct (map fst (counters_map c))" by (simp add: counters_map_def)
  then show "distinct (map fst (sort_key fst (counters_map c)))" by (simp add: distinct_map)
qed

lemma decode_encode_counters:
  assumes "counters_ok c"
  shows "decode_map (\<lambda>v. decode_int v 0) (encode_counters (counters_map c)) [] = Some (sort_key fst (counters_map c))"
proof -
  have "\<forall>(k, x) \<in> set (sort_key fst (counters_map c)). decode_int (JInt x) 0 = Some x"
    using assms by (auto simp: counters_ok_def list_all_iff)
  then show ?thesis
    using decode_members_map [of "sort_key fst (counters_map c)" "\<lambda>v. decode_int v 0" JInt "[]"] counters_distinct
    by (simp add: encode_counters_def)
qed

lemma counter_of_sorted: "counter_of (sort_key fst (counters_map c)) k = counter_of (counters_map c) k"
proof -
  have "map_of (sort_key fst (counters_map c)) = map_of (counters_map c)"
    using counters_distinct by (subst map_of_inject_set) auto
  then show ?thesis by (simp add: counter_of_def)
qed

lemma foldl_decisions:
  "foldl (\<lambda>n (t, m). i64 (n + i64 (counter_of m ''admitted'' + counter_of m ''rejected''))) (i64 k)
      (map (\<lambda>n. (n, sort_key fst (counters_map (c n)))) ns) =
    i64 (k + sum_list (map (\<lambda>n. Admitted (c n) + Rejected (c n)) ns))"
proof (induction ns arbitrary: k)
  case (Cons n ns)
  have a: "counter_of (counters_map (c n)) ''admitted'' = Admitted (c n)"
    "counter_of (counters_map (c n)) ''rejected'' = Rejected (c n)"
    by (simp_all add: counter_of_def counters_map_def)
  have "i64 (i64 k + i64 (Admitted (c n) + Rejected (c n))) = i64 (k + (Admitted (c n) + Rejected (c n)))"
    using i64_add_left [of k "i64 (Admitted (c n) + Rejected (c n))"] i64_add_left [of "Admitted (c n) + Rejected (c n)" k]
    by (simp add: add.commute)
  then show ?case
    using Cons.IH [of "k + (Admitted (c n) + Rejected (c n))"] by (simp add: counter_of_sorted a add.assoc)
qed simp

lemma decode_worker_stats:
  assumes d: "distinct names" and ok: "\<forall>n \<in> set names. \<exists>c. counts s n = Some c \<and> counters_ok c"
  shows "decode_struct set_decisions [] (rs_body (worker_handleStats wid names s)) =
    Some (map (\<lambda>n. (n, sort_key fst (counters_map (the (counts s n))))) (sort names))"
proof -
  let ?dec = "\<lambda>v. decode_map (\<lambda>v. decode_int v 0) v []"
  let ?g = "\<lambda>n. encode_counters (counters_map (the (counts s n)))"
  have mf: "List.map_filter (\<lambda>n. map_option (\<lambda>m. (n, encode_counters m)) (StatsSnapshot s n)) (sort names) =
      map (\<lambda>n. (n, ?g n)) (sort names)"
    using ok map_filter_total [of "sort names" "StatsSnapshot s" encode_counters]
    by (fastforce simp: StatsSnapshot_def)
  have dm: "decode_members (\<lambda>k v m. map_option (\<lambda>x. put k x m) (?dec v)) (map (\<lambda>n. (n, ?g n)) ns) m =
      Some (m @ map (\<lambda>n. (n, sort_key fst (counters_map (the (counts s n))))) ns)"
    if "distinct (map fst m @ ns)" "set ns \<subseteq> set names" for ns m
    using that
  proof (induction ns arbitrary: m)
    case (Cons n ns)
    let ?x = "sort_key fst (counters_map (the (counts s n)))"
    have "?dec (?g n) = Some ?x" using ok Cons.prems(2) by (fastforce intro: decode_encode_counters)
    moreover have "put n ?x m = m @ [(n, ?x)]" using Cons.prems(1) by (intro put_new) auto
    ultimately show ?case using Cons.IH [of "m @ [(n, ?x)]"] Cons.prems by simp
  qed simp
  have k: "\<not> key_match ''tenants'' ''worker''" by (simp add: key_match_def lower_char_def)
  show ?thesis
    using dm [of "[]" "sort names"] d by (simp add: worker_handleStats_def mf set_decisions_def k)
qed

text \<open>C37. The number of decisions the load generator reads from a worker is the number the worker counted:
  the worker's own answer to \<open>GET /v1/stats\<close>, decoded as \<open>WorkerDecisions\<close> does it, gives the sum of
  admitted and rejected requests over the tenants.\<close>

theorem decisions_roundtrip:
  assumes "distinct names" and "\<forall>n \<in> set names. \<exists>c. counts s n = Some c \<and> counters_ok c"
  shows "\<exists>resp. worker_Handler wid names now (get_request ''/v1/stats'') s = Inl resp \<and>
    decisions_of_reply (Inr resp) =
      Some (i64 (\<Sum>n \<in> set names. Admitted (the (counts s n)) + Rejected (the (counts s n))))"
proof -
  have h: "worker_Handler wid names now (get_request ''/v1/stats'') s = Inl (worker_handleStats wid names s)"
    by (simp add: worker_Handler_def worker_routes_def get_request_def before_def method_match_def)
  have z: "(0 :: int) = i64 0" by (simp add: i64_id in_i64_nonneg)
  have "sum_list (map (\<lambda>n. Admitted (the (counts s n)) + Rejected (the (counts s n))) (sort names)) =
      (\<Sum>n \<in> set names. Admitted (the (counts s n)) + Rejected (the (counts s n)))"
    using assms(1) sum_list_distinct_conv_sum_set [of "sort names"] by simp
  then show ?thesis
    using h foldl_decisions [of 0 "\<lambda>n. the (counts s n)" "sort names"]
    by (simp add: decisions_of_reply_def decode_worker_stats [OF assms] flip: z)
qed

theorem decisions_roundtrip_witness:
  "\<exists>resp. worker_Handler ''w'' [''a''] 0 (get_request ''/v1/stats'')
      ((linit 0)\<lparr>counts := [''a'' \<mapsto> zero_counters\<lparr>Admitted := 3, Rejected := 4\<rparr>]\<rparr>) = Inl resp \<and>
    decisions_of_reply (Inr resp) = Some 7"
  using decisions_roundtrip [of "[''a'']" "(linit 0)\<lparr>counts := [''a'' \<mapsto> zero_counters\<lparr>Admitted := 3, Rejected := 4\<rparr>]\<rparr>" "''w''" 0]
  by (auto simp: counters_ok_def counters_map_def zero_counters_def i64_id in_i64_nonneg)

end
