(* ===== verification/Drive.thy ===== *)
theory Drive
  imports Driver
begin

text \<open>
  Package \<open>internal/loadgen\<close>, file \<open>driver.go\<close>: \<open>Run\<close>, which drives all
  loads at once and waits for them. It is a machine with one runner per load (the goroutine of \<open>runTenant\<close>
  with the requests it has launched), the goroutine that calls \<open>onSecond\<close>, the results and the
  context. An event is one step of one goroutine, or the end of the context; \<open>drive_enabled\<close>
  says when it can happen and \<open>drive_step\<close> what it does, with \<open>None\<close> for a panic. \<open>Run\<close> is
  back from its \<open>wg.Wait\<close> when every runner has left its loop and waited for its requests, and
  the \<open>onSecond\<close> goroutine has returned: \<open>drive_done\<close>.

  What \<open>onSecond\<close> works on, and the goroutines it leaves behind, are the caller's: the state of
  the caller is carried along beside the machine and never decides what the machine does.

  The theorems show that a run always comes to its end, and that every result is exact when it does.
\<close>

section \<open>Definitions\<close>

text \<open>A runner: its loop once the goroutine has begun, the requests launched whose goroutine has not begun, and
  for each request under way the time it was sent.\<close>

record runner =
  rn_pacer :: "pacer option"
  rn_waiting :: nat
  rn_flight :: "time list"

record drive =
  dr_runners :: "runner list"
  dr_results :: Results
  dr_cancelled :: bool
  dr_hooked :: bool
  dr_last :: time
  dr_sec :: int

text \<open>\<open>Enter\<close>: the goroutine of a load begins. \<open>Pace\<close>: a step of its loop. \<open>Begin\<close> and \<open>End\<close>: a
  request's goroutine counts it and sends it, and gets its answer. \<open>SecondTick\<close> and \<open>HookCancelled\<close>: the
  two cases of the \<open>onSecond\<close> goroutine. \<open>Background\<close>: a step of a goroutine of the caller.\<close>

datatype drive_event =
    Enter nat time
  | Pace nat pace_event
  | Begin nat time
  | End nat nat exchange
  | SecondTick time
  | HookCancelled
  | CtxDone
  | Background nat

definition drive_init :: "TenantLoad list \<Rightarrow> bool \<Rightarrow> time \<Rightarrow> drive" where
  "drive_init loads hooked start =
     \<lparr>dr_runners = replicate (length loads) \<lparr>rn_pacer = None, rn_waiting = 0, rn_flight = []\<rparr>,
      dr_results = initial_results loads, dr_cancelled = False, dr_hooked = hooked, dr_last = start, dr_sec = 1\<rparr>"

fun drive_enabled :: "TenantLoad list \<Rightarrow> time \<Rightarrow> duration \<Rightarrow> drive_event \<Rightarrow> drive \<Rightarrow> bool" where
  "drive_enabled loads start dur (Enter i now) d \<longleftrightarrow>
     i < length loads \<and> rn_pacer (dr_runners d ! i) = None \<and> start \<le> now"
| "drive_enabled loads start dur (Pace i e) d \<longleftrightarrow>
     i < length loads \<and> e \<noteq> Finish \<and> (e = Cancel \<longrightarrow> dr_cancelled d) \<and>
     (case rn_pacer (dr_runners d ! i) of None \<Rightarrow> False | Some p \<Rightarrow> pacer_step (loads ! i) start dur e p \<noteq> None)"
| "drive_enabled loads start dur (Begin i t0) d \<longleftrightarrow>
     i < length loads \<and> 0 < rn_waiting (dr_runners d ! i) \<and> start \<le> t0"
| "drive_enabled loads start dur (End i k x) d \<longleftrightarrow>
     i < length loads \<and> k < length (rn_flight (dr_runners d ! i)) \<and> x_t0 x = rn_flight (dr_runners d ! i) ! k \<and>
     x_cancelled x = dr_cancelled d"
| "drive_enabled loads start dur (SecondTick now) d \<longleftrightarrow> dr_hooked d \<and> dr_last d \<le> now"
| "drive_enabled loads start dur HookCancelled d \<longleftrightarrow> dr_hooked d \<and> dr_cancelled d"
| "drive_enabled loads start dur CtxDone d \<longleftrightarrow> \<not> dr_cancelled d"
| "drive_enabled loads start dur (Background j) d \<longleftrightarrow> True"

fun upd_result :: "string \<Rightarrow> (TenantResult \<Rightarrow> TenantResult option) \<Rightarrow> Results \<Rightarrow> Results option" where
  "upd_result t f [] = None"
| "upd_result t f ((t', r) # rs) =
     (if t' = t then map_option (\<lambda>r'. (t', r') # rs) (f r) else map_option ((#) (t', r)) (upd_result t f rs))"

definition upd_runner :: "nat \<Rightarrow> (runner \<Rightarrow> runner) \<Rightarrow> drive \<Rightarrow> drive" where
  "upd_runner i f d = d\<lparr>dr_runners := (dr_runners d)[i := f (dr_runners d ! i)]\<rparr>"

definition with_result :: "string \<Rightarrow> (TenantResult \<Rightarrow> TenantResult option) \<Rightarrow> drive \<Rightarrow> drive option" where
  "with_result t f d = map_option (\<lambda>rs. d\<lparr>dr_results := rs\<rparr>) (upd_result t f (dr_results d))"

definition remove_nth :: "nat \<Rightarrow> 'a list \<Rightarrow> 'a list" where
  "remove_nth k xs = take k xs @ drop (Suc k) xs"

text \<open>A step of a loop; a dispatch launches a request or counts a drop.\<close>

definition pace_runner :: "TenantLoad \<Rightarrow> time \<Rightarrow> duration \<Rightarrow> nat \<Rightarrow> pace_event \<Rightarrow> pacer \<Rightarrow> drive \<Rightarrow> drive option" where
  "pace_runner l start dur i e p d =
     (case pacer_step l start dur e p of
        None \<Rightarrow> None
      | Some p' \<Rightarrow>
          if e \<noteq> Dispatch then Some (upd_runner i (\<lambda>rn. rn\<lparr>rn_pacer := Some p'\<rparr>) d)
          else if p_busy p < tl_Concurrency l
          then Some (upd_runner i (\<lambda>rn. rn\<lparr>rn_pacer := Some p', rn_waiting := rn_waiting rn + 1\<rparr>) d)
          else with_result (tl_Tenant l) (\<lambda>r. Some (r\<lparr>ClientDrops := i64 (ClientDrops r + 1)\<rparr>))
            (upd_runner i (\<lambda>rn. rn\<lparr>rn_pacer := Some p'\<rparr>) d))"

fun drive_step :: "TenantLoad list \<Rightarrow> time \<Rightarrow> duration \<Rightarrow> drive_event \<Rightarrow> drive \<Rightarrow> drive option" where
  "drive_step loads start dur (Enter i now) d =
     map_option (\<lambda>p. upd_runner i (\<lambda>rn. rn\<lparr>rn_pacer := Some p\<rparr>) d) (pacer_start (loads ! i) now)"
| "drive_step loads start dur (Pace i e) d =
     Option.bind (rn_pacer (dr_runners d ! i)) (\<lambda>p. pace_runner (loads ! i) start dur i e p d)"
| "drive_step loads start dur (Begin i t0) d =
     with_result (tl_Tenant (loads ! i)) (\<lambda>r. Some (one_begin r))
       (upd_runner i (\<lambda>rn. rn\<lparr>rn_waiting := rn_waiting rn - 1, rn_flight := rn_flight rn @ [t0]\<rparr>) d)"
| "drive_step loads start dur (End i k x) d =
     Option.bind (rn_pacer (dr_runners d ! i)) (\<lambda>p. Option.bind (pacer_step (loads ! i) start dur Finish p) (\<lambda>p'.
       with_result (tl_Tenant (loads ! i)) (one_end (load_cost (loads ! i)) start x)
         (upd_runner i (\<lambda>rn. rn\<lparr>rn_pacer := Some p', rn_flight := remove_nth k (rn_flight rn)\<rparr>) d)))"
| "drive_step loads start dur (SecondTick now) d =
     Some (if dur \<le> time_sub now start then d\<lparr>dr_hooked := False\<rparr>
           else d\<lparr>dr_last := now, dr_sec := i64 (dr_sec d + 1)\<rparr>)"
| "drive_step loads start dur HookCancelled d = Some (d\<lparr>dr_hooked := False\<rparr>)"
| "drive_step loads start dur CtxDone d = Some (d\<lparr>dr_cancelled := True\<rparr>)"
| "drive_step loads start dur (Background j) d = Some d"

definition runner_done :: "runner \<Rightarrow> bool" where
  "runner_done rn \<longleftrightarrow> (case rn_pacer rn of None \<Rightarrow> False | Some p \<Rightarrow> p_stopped p \<and> p_busy p = 0)"

definition drive_done :: "drive \<Rightarrow> bool" where
  "drive_done d \<longleftrightarrow> list_all runner_done (dr_runners d) \<and> \<not> dr_hooked d"

text \<open>The caller's side: what a call of \<open>onSecond\<close> and a step of a goroutine it started do.\<close>

type_synonym 's on_second = "int \<Rightarrow> Results \<Rightarrow> 's \<Rightarrow> 's"

fun caller_step ::
  "'s on_second option \<Rightarrow> (nat \<Rightarrow> 's \<Rightarrow> 's) \<Rightarrow> time \<Rightarrow> duration \<Rightarrow> drive_event \<Rightarrow> drive \<Rightarrow> 's \<Rightarrow> 's" where
  "caller_step onSecond bg start dur (SecondTick now) d u =
     (if dur \<le> time_sub now start then u
      else case onSecond of None \<Rightarrow> u | Some hook \<Rightarrow> hook (dr_sec d) (dr_results d) u)"
| "caller_step onSecond bg start dur (Background j) d u = bg j u"
| "caller_step onSecond bg start dur _ d u = u"

text \<open>A course of events up to the return; \<open>None\<close> if a step panics, an event cannot happen, or the
  events end before the run does.\<close>

fun drive_run ::
  "'s on_second option \<Rightarrow> (nat \<Rightarrow> 's \<Rightarrow> 's) \<Rightarrow> TenantLoad list \<Rightarrow> time \<Rightarrow> duration \<Rightarrow> drive_event list \<Rightarrow> drive \<Rightarrow> 's \<Rightarrow>
     (drive \<times> 's) option" where
  "drive_run onSecond bg loads start dur [] d u = (if drive_done d then Some (d, u) else None)"
| "drive_run onSecond bg loads start dur (e # es) d u =
     (if drive_enabled loads start dur e d
      then case drive_step loads start dur e d of
             None \<Rightarrow> None
           | Some d' \<Rightarrow> drive_run onSecond bg loads start dur es d' (caller_step onSecond bg start dur e d u)
      else None)"

definition Driver_Run ::
  "'s on_second option \<Rightarrow> (nat \<Rightarrow> 's \<Rightarrow> 's) \<Rightarrow> TenantLoad list \<Rightarrow> time \<Rightarrow> duration \<Rightarrow> drive_event list \<Rightarrow> 's \<Rightarrow>
     (Results \<times> 's) option" where
  "Driver_Run onSecond bg loads start dur es u =
     map_option (\<lambda>(d, u'). (dr_results d, u'))
       (drive_run onSecond bg loads start dur es (drive_init loads (onSecond \<noteq> None) start) u)"

text \<open>A complete course: its events can happen one after the other, and at its end the run is done, if no step
  has panicked before.\<close>

fun complete_course :: "TenantLoad list \<Rightarrow> time \<Rightarrow> duration \<Rightarrow> drive_event list \<Rightarrow> drive \<Rightarrow> bool" where
  "complete_course loads start dur [] d \<longleftrightarrow> drive_done d"
| "complete_course loads start dur (e # es) d \<longleftrightarrow>
     drive_enabled loads start dur e d \<and>
     (case drive_step loads start dur e d of None \<Rightarrow> True | Some d' \<Rightarrow> complete_course loads start dur es d')"

section \<open>The invariant\<close>

text \<open>A slot of the semaphore is in use for every request launched and not ended; a loop that has stopped has no
  iteration left; requests are sent after the start.\<close>

definition runner_ok :: "TenantLoad \<Rightarrow> time \<Rightarrow> runner \<Rightarrow> bool" where
  "runner_ok l start rn \<longleftrightarrow>
     (\<forall>t0 \<in> set (rn_flight rn). start \<le> t0) \<and>
     (case rn_pacer rn of
        None \<Rightarrow> rn_waiting rn = 0 \<and> rn_flight rn = []
      | Some p \<Rightarrow>
          pacer_ok l p \<and> p_busy p = int (rn_waiting rn) + int (length (rn_flight rn)) \<and>
          (p_stopped p \<longrightarrow> p_todo p = 0))"

text \<open>The history of a runner: requests under way, slots in use, requests launched, dispatches without a slot.\<close>

definition flying :: "runner \<Rightarrow> int" where
  "flying rn = int (length (rn_flight rn))"

definition of_pacer :: "(pacer \<Rightarrow> int) \<Rightarrow> runner \<Rightarrow> int" where
  "of_pacer f rn = (case rn_pacer rn of None \<Rightarrow> 0 | Some p \<Rightarrow> f p)"

definition tenant_sum :: "(runner \<Rightarrow> int) \<Rightarrow> TenantLoad list \<Rightarrow> string \<Rightarrow> runner list \<Rightarrow> int" where
  "tenant_sum f loads t rns = (\<Sum>i < length loads. if tl_Tenant (loads ! i) = t then f (rns ! i) else 0)"

fun outcome_of :: "TenantLoad list \<Rightarrow> string \<Rightarrow> drive_event \<Rightarrow> (int \<times> exchange) list" where
  "outcome_of loads t (End i k x) = (if tl_Tenant (loads ! i) = t then [(load_cost (loads ! i), x)] else [])"
| "outcome_of loads t _ = []"

definition outcomes :: "TenantLoad list \<Rightarrow> string \<Rightarrow> drive_event list \<Rightarrow> (int \<times> exchange) list" where
  "outcomes loads t es = concat (map (outcome_of loads t) es)"

text \<open>After the events \<open>es\<close>, every tenant's result stands for the requests of the tenant that have ended; \<open>Sent\<close>
  counts those under way too.\<close>

definition tracks :: "TenantLoad list \<Rightarrow> time \<Rightarrow> drive_event list \<Rightarrow> string \<Rightarrow> drive \<Rightarrow> bool" where
  "tracks loads start es t d \<longleftrightarrow>
     (\<exists>r. map_of (dr_results d) t = Some r \<and> exact_result start (outcomes loads t es) r \<and>
        Sent r = i64 (int (length (outcomes loads t es)) + tenant_sum flying loads t (dr_runners d)) \<and>
        ClientDrops r = i64 (tenant_sum (of_pacer p_drops) loads t (dr_runners d)) \<and>
        int (length (outcomes loads t es)) + tenant_sum (of_pacer p_busy) loads t (dr_runners d) =
          tenant_sum (of_pacer p_launched) loads t (dr_runners d))"

definition drive_ok :: "TenantLoad list \<Rightarrow> time \<Rightarrow> drive_event list \<Rightarrow> drive \<Rightarrow> bool" where
  "drive_ok loads start es d \<longleftrightarrow>
     length (dr_runners d) = length loads \<and>
     (\<forall>i < length loads. runner_ok (loads ! i) start (dr_runners d ! i)) \<and>
     map fst (dr_results d) = map fst (initial_results loads) \<and>
     (\<forall>t \<in> tl_Tenant ` set loads. tracks loads start es t d)"

lemma tenant_sum_upd:
  assumes "i < length loads" and "length rns = length loads"
  shows "tenant_sum f loads t (rns[i := rn]) =
    tenant_sum f loads t rns + (if tl_Tenant (loads ! i) = t then f rn - f (rns ! i) else 0)"
proof -
  let ?g = "\<lambda>rns i. if tl_Tenant (loads ! i) = t then f (rns ! i) else 0"
  let ?A = "{..< length loads}"
  have "sum (?g (rns[i := rn])) ?A = ?g (rns[i := rn]) i + sum (?g (rns[i := rn])) (?A - {i})"
    using assms(1) by (intro sum.remove) auto
  also have "sum (?g (rns[i := rn])) (?A - {i}) = sum (?g rns) (?A - {i})"
    by (intro sum.cong) auto
  also have "\<dots> = sum (?g rns) ?A - ?g rns i" using assms(1) by (simp add: sum_diff1)
  finally show ?thesis using assms by (simp add: tenant_sum_def)
qed

lemma tenant_sum_init: "f \<lparr>rn_pacer = None, rn_waiting = 0, rn_flight = []\<rparr> = 0 \<Longrightarrow>
    tenant_sum f loads t (replicate (length loads) \<lparr>rn_pacer = None, rn_waiting = 0, rn_flight = []\<rparr>) = 0"
  unfolding tenant_sum_def by (intro sum.neutral) simp

lemma zero_result_counters [simp]: "Sent zero_result = 0" "ClientDrops zero_result = 0"
  by (simp_all add: zero_result_def)

lemma drive_ok_init: "drive_ok loads start [] (drive_init loads hooked start)"
  by (simp add: drive_ok_def drive_init_def runner_ok_def tracks_def initial_results_of outcomes_def exact_result_zero
      tenant_sum_init flying_def of_pacer_def)

lemma outcomes_snoc [simp]: "outcomes loads t (es @ [e]) = outcomes loads t es @ outcome_of loads t e"
  by (simp add: outcomes_def)

lemma upd_result_Some:
  "map_of rs t = Some r \<Longrightarrow> f r = Some r' \<Longrightarrow>
    \<exists>rs'. upd_result t f rs = Some rs' \<and> map_of rs' = (map_of rs)(t \<mapsto> r') \<and> map fst rs' = map fst rs"
proof (induction t f rs rule: upd_result.induct)
  case (2 t f t' r1 rs)
  then show ?case by (cases "t' = t") (fastforce simp: fun_upd_twist)+
qed simp

lemma with_result_Some:
  assumes "map_of (dr_results d) t = Some r" and "f r = Some r'"
  obtains rs' where "with_result t f d = Some (d\<lparr>dr_results := rs'\<rparr>)" and "map_of rs' = (map_of (dr_results d))(t \<mapsto> r')"
    and "map fst rs' = map fst (dr_results d)"
  using upd_result_Some [of "dr_results d" t r f r'] assms by (auto simp: with_result_def)

text \<open>One runner and the result of its tenant change together.\<close>

lemma drive_ok_upd:
  assumes ok: "drive_ok loads start es d" and i: "i < length loads" and t: "t = tl_Tenant (loads ! i)"
    and r: "map_of (dr_results d) t = Some r" and rn: "runner_ok (loads ! i) start rn'"
    and d': "dr_runners d' = (dr_runners d)[i := rn']" "map_of (dr_results d') = (map_of (dr_results d))(t \<mapsto> r')"
      "map fst (dr_results d') = map fst (dr_results d)"
    and ys: "outcome_of loads t e = ys" "\<And>t'. t' \<noteq> t \<Longrightarrow> outcome_of loads t' e = []"
    and ex: "exact_result start (outcomes loads t es @ ys) r'"
    and sent: "Sent r' = i64 (Sent r + (int (length ys) + flying rn' - flying (dr_runners d ! i)))"
    and drops: "ClientDrops r' = i64 (ClientDrops r + (of_pacer p_drops rn' - of_pacer p_drops (dr_runners d ! i)))"
    and launched: "int (length ys) + of_pacer p_busy rn' - of_pacer p_busy (dr_runners d ! i) =
      of_pacer p_launched rn' - of_pacer p_launched (dr_runners d ! i)"
  shows "drive_ok loads start (es @ [e]) d'"
proof -
  have len: "length (dr_runners d) = length loads" using ok by (simp add: drive_ok_def)
  note ts = tenant_sum_upd [OF i len]
  have "tracks loads start (es @ [e]) t' d'" if t': "t' \<in> tl_Tenant ` set loads" for t'
  proof (cases "t' = t")
    case False
    have "tracks loads start es t' d" using ok t' by (auto simp: drive_ok_def)
    then show ?thesis using False t ys(2) [OF False] by (simp add: tracks_def d' ts)
  next
    case True
    have "tracks loads start es t d" using ok t' True by (auto simp: drive_ok_def)
    then have old: "Sent r = i64 (int (length (outcomes loads t es)) + tenant_sum flying loads t (dr_runners d))"
        "ClientDrops r = i64 (tenant_sum (of_pacer p_drops) loads t (dr_runners d))"
        "int (length (outcomes loads t es)) + tenant_sum (of_pacer p_busy) loads t (dr_runners d) =
          tenant_sum (of_pacer p_launched) loads t (dr_runners d)"
      using r by (auto simp: tracks_def)
    have "Sent r' = i64 (int (length (outcomes loads t es @ ys)) + tenant_sum flying loads t (dr_runners d'))"
      unfolding sent old(1) i64_add_left d' ts using t by (simp add: algebra_simps)
    moreover have "ClientDrops r' = i64 (tenant_sum (of_pacer p_drops) loads t (dr_runners d'))"
      unfolding drops old(2) i64_add_left d' ts using t by (simp add: algebra_simps)
    moreover have "int (length (outcomes loads t es @ ys)) + tenant_sum (of_pacer p_busy) loads t (dr_runners d') =
        tenant_sum (of_pacer p_launched) loads t (dr_runners d')"
      unfolding d' ts using t old(3) launched by simp
    ultimately show ?thesis using True ex d'(2) ys(1) by (simp add: tracks_def)
  qed
  moreover have "runner_ok (loads ! j) start (dr_runners d' ! j)" if "j < length loads" for j
    using ok rn that len by (cases "j = i") (auto simp: drive_ok_def d')
  ultimately show ?thesis using ok by (simp add: drive_ok_def d')
qed

lemma i64_i64 [simp]: "i64 (i64 x) = i64 x"
  using i64_add_left [of x 0] by simp

lemma drive_ok_result:
  assumes "drive_ok loads start es d" and "i < length loads"
  obtains r where "map_of (dr_results d) (tl_Tenant (loads ! i)) = Some r"
    and "exact_result start (outcomes loads (tl_Tenant (loads ! i)) es) r"
    and "i64 (Sent r) = Sent r" and "i64 (ClientDrops r) = ClientDrops r"
proof -
  have "tracks loads start es (tl_Tenant (loads ! i)) d" using assms by (auto simp: drive_ok_def)
  then show thesis using that by (auto simp: tracks_def)
qed

text \<open>A step that changes a runner only.\<close>

lemma drive_ok_runner:
  assumes ok: "drive_ok loads start es d" and i: "i < length loads"
    and rn: "runner_ok (loads ! i) start (f (dr_runners d ! i))"
    and e: "\<And>t. outcome_of loads t e = []"
    and same: "flying (f (dr_runners d ! i)) = flying (dr_runners d ! i)"
      "of_pacer p_drops (f (dr_runners d ! i)) = of_pacer p_drops (dr_runners d ! i)"
      "of_pacer p_busy (f (dr_runners d ! i)) - of_pacer p_busy (dr_runners d ! i) =
        of_pacer p_launched (f (dr_runners d ! i)) - of_pacer p_launched (dr_runners d ! i)"
  shows "drive_ok loads start (es @ [e]) (upd_runner i f d)"
proof -
  obtain r where r: "map_of (dr_results d) (tl_Tenant (loads ! i)) = Some r"
      "exact_result start (outcomes loads (tl_Tenant (loads ! i)) es) r"
      "i64 (Sent r) = Sent r" "i64 (ClientDrops r) = ClientDrops r"
    by (rule drive_ok_result [OF ok i])
  show ?thesis
    by (rule drive_ok_upd [OF ok i refl r(1) rn, where ys = "[]" and r' = r])
      (use r e same in \<open>auto simp: upd_runner_def fun_upd_idem\<close>)
qed

text \<open>A step that changes a runner and its tenant's result.\<close>

lemma drive_ok_both:
  assumes ok: "drive_ok loads start es d" and i: "i < length loads" and t: "t = tl_Tenant (loads ! i)"
    and rn: "runner_ok (loads ! i) start (f (dr_runners d ! i))"
    and ys: "outcome_of loads t e = ys" "\<And>t'. t' \<noteq> t \<Longrightarrow> outcome_of loads t' e = []"
    and g: "\<And>r. exact_result start (outcomes loads t es) r \<Longrightarrow> i64 (Sent r) = Sent r \<Longrightarrow> i64 (ClientDrops r) = ClientDrops r \<Longrightarrow>
      \<exists>r'. g r = Some r' \<and> exact_result start (outcomes loads t es @ ys) r' \<and>
        Sent r' = i64 (Sent r + (int (length ys) + flying (f (dr_runners d ! i)) - flying (dr_runners d ! i))) \<and>
        ClientDrops r' = i64 (ClientDrops r + (of_pacer p_drops (f (dr_runners d ! i)) - of_pacer p_drops (dr_runners d ! i)))"
    and launched: "int (length ys) + of_pacer p_busy (f (dr_runners d ! i)) - of_pacer p_busy (dr_runners d ! i) =
      of_pacer p_launched (f (dr_runners d ! i)) - of_pacer p_launched (dr_runners d ! i)"
  shows "\<exists>d'. with_result t g (upd_runner i f d) = Some d' \<and> drive_ok loads start (es @ [e]) d'"
proof -
  obtain r where r: "map_of (dr_results d) t = Some r" "exact_result start (outcomes loads t es) r"
      "i64 (Sent r) = Sent r" "i64 (ClientDrops r) = ClientDrops r"
    using drive_ok_result [OF ok i] t by metis
  obtain r' where r': "g r = Some r'" "exact_result start (outcomes loads t es @ ys) r'"
      "Sent r' = i64 (Sent r + (int (length ys) + flying (f (dr_runners d ! i)) - flying (dr_runners d ! i)))"
      "ClientDrops r' = i64 (ClientDrops r + (of_pacer p_drops (f (dr_runners d ! i)) - of_pacer p_drops (dr_runners d ! i)))"
    using g [OF r(2-4)] by blast
  have "map_of (dr_results (upd_runner i f d)) t = Some r" using r(1) by (simp add: upd_runner_def)
  then obtain rs' where rs': "with_result t g (upd_runner i f d) = Some ((upd_runner i f d)\<lparr>dr_results := rs'\<rparr>)"
      "map_of rs' = (map_of (dr_results d))(t \<mapsto> r')" "map fst rs' = map fst (dr_results d)"
    using with_result_Some [of "upd_runner i f d" t r g r'] r'(1) by (auto simp: upd_runner_def)
  have "drive_ok loads start (es @ [e]) ((upd_runner i f d)\<lparr>dr_results := rs'\<rparr>)"
    by (rule drive_ok_upd [OF ok i t r(1) rn _ _ _ ys r'(2-4) launched]) (use rs' in \<open>simp_all add: upd_runner_def\<close>)
  then show ?thesis using rs'(1) by blast
qed

lemma drive_ok_enter:
  assumes ok: "drive_ok loads start es d" and conc: "0 \<le> tl_Concurrency (loads ! i)"
    and en: "drive_enabled loads start dur (Enter i now) d"
  shows "\<exists>d'. drive_step loads start dur (Enter i now) d = Some d' \<and> drive_ok loads start (es @ [Enter i now]) d'"
proof -
  have i: "i < length loads" and n: "rn_pacer (dr_runners d ! i) = None" using en by auto
  have "runner_ok (loads ! i) start (dr_runners d ! i)" using ok i by (simp add: drive_ok_def)
  then have "runner_ok (loads ! i) start ((dr_runners d ! i)\<lparr>rn_pacer := Some (pacer_init now)\<rparr>)"
    using n pacer_ok_init [OF conc, of now] by (simp add: runner_ok_def) (simp add: pacer_init_def)
  then have "drive_ok loads start (es @ [Enter i now]) (upd_runner i (\<lambda>rn. rn\<lparr>rn_pacer := Some (pacer_init now)\<rparr>) d)"
    by (intro drive_ok_runner [OF ok i]) (use n in \<open>simp_all add: flying_def of_pacer_def pacer_init_def\<close>)
  then show ?thesis using conc by (simp add: pacer_start_def)
qed

lemma pacer_step_frame:
  assumes "pacer_step l start dur e p = Some p'" and "p_stopped p \<longrightarrow> p_todo p = 0"
  shows "p_stopped p' \<longrightarrow> p_todo p' = 0"
    and "e \<noteq> Dispatch \<Longrightarrow> p_drops p' = p_drops p \<and> p_launched p' = p_launched p \<and>
      p_busy p' = p_busy p - (if e = Finish then 1 else 0)"
    and "e = Dispatch \<Longrightarrow> p_busy p < tl_Concurrency l \<Longrightarrow>
      p_drops p' = p_drops p \<and> p_launched p' = p_launched p + 1 \<and> p_busy p' = p_busy p + 1"
    and "e = Dispatch \<Longrightarrow> \<not> p_busy p < tl_Concurrency l \<Longrightarrow>
      p_drops p' = p_drops p + 1 \<and> p_launched p' = p_launched p \<and> p_busy p' = p_busy p"
  using assms by (cases e; auto simp: pacer_tick_def pacer_dispatch_def Let_def split: if_splits)+

lemma drive_ok_pace:
  assumes ok: "drive_ok loads start es d" and en: "drive_enabled loads start dur (Pace i e) d"
  shows "\<exists>d'. drive_step loads start dur (Pace i e) d = Some d' \<and> drive_ok loads start (es @ [Pace i e]) d'"
proof -
  let ?l = "loads ! i" and ?rn = "dr_runners d ! i"
  obtain p p' where i: "i < length loads" and e: "e \<noteq> Finish" and p: "rn_pacer ?rn = Some p"
      and p': "pacer_step ?l start dur e p = Some p'"
    using en by (auto split: option.splits)
  have rn: "runner_ok ?l start ?rn" using ok i by (simp add: drive_ok_def)
  have pk: "pacer_ok ?l p'" using rn p pacer_ok_step [OF _ p'] by (simp add: runner_ok_def)
  have st: "p_stopped p \<longrightarrow> p_todo p = 0" using rn p by (simp add: runner_ok_def)
  note fr = pacer_step_frame [OF p' st]
  consider (plain) "e \<noteq> Dispatch" | (launch) "e = Dispatch" "p_busy p < tl_Concurrency ?l"
    | (drop) "e = Dispatch" "\<not> p_busy p < tl_Concurrency ?l" by blast
  then show ?thesis
  proof cases
    case plain
    have "runner_ok ?l start (?rn\<lparr>rn_pacer := Some p'\<rparr>)" using rn p pk fr(1) fr(2) [OF plain] e by (simp add: runner_ok_def)
    then have "drive_ok loads start (es @ [Pace i e]) (upd_runner i (\<lambda>rn. rn\<lparr>rn_pacer := Some p'\<rparr>) d)"
      by (intro drive_ok_runner [OF ok i]) (use p fr(2) [OF plain] e in \<open>simp_all add: flying_def of_pacer_def\<close>)
    then show ?thesis using p p' plain by (simp add: pace_runner_def)
  next
    case launch
    let ?f = "\<lambda>rn. rn\<lparr>rn_pacer := Some p', rn_waiting := rn_waiting rn + 1\<rparr>"
    have "runner_ok ?l start (?f ?rn)" using rn p pk fr(1) fr(3) [OF launch] by (simp add: runner_ok_def)
    then have "drive_ok loads start (es @ [Pace i e]) (upd_runner i ?f d)"
      by (intro drive_ok_runner [OF ok i]) (use p fr(3) [OF launch] in \<open>simp_all add: flying_def of_pacer_def\<close>)
    then show ?thesis using p p' launch by (simp add: pace_runner_def)
  next
    case drop
    have r: "runner_ok ?l start (?rn\<lparr>rn_pacer := Some p'\<rparr>)" using rn p pk fr(1) fr(4) [OF drop] by (simp add: runner_ok_def)
    have "\<exists>d'. with_result (tl_Tenant ?l) (\<lambda>r. Some (r\<lparr>ClientDrops := i64 (ClientDrops r + 1)\<rparr>))
        (upd_runner i (\<lambda>rn. rn\<lparr>rn_pacer := Some p'\<rparr>) d) = Some d' \<and> drive_ok loads start (es @ [Pace i e]) d'"
      by (rule drive_ok_both [OF ok i refl, where ys = "[]"]) (use r p fr(4) [OF drop] in \<open>simp_all add: flying_def of_pacer_def\<close>)
    then show ?thesis using p p' drop by (simp add: pace_runner_def)
  qed
qed

lemma drive_ok_begin:
  assumes ok: "drive_ok loads start es d" and en: "drive_enabled loads start dur (Begin i t0) d"
  shows "\<exists>d'. drive_step loads start dur (Begin i t0) d = Some d' \<and> drive_ok loads start (es @ [Begin i t0]) d'"
proof -
  let ?f = "\<lambda>rn. rn\<lparr>rn_waiting := rn_waiting rn - 1, rn_flight := rn_flight rn @ [t0]\<rparr>"
  have i: "i < length loads" and w: "0 < rn_waiting (dr_runners d ! i)" "start \<le> t0" using en by auto
  have "runner_ok (loads ! i) start (dr_runners d ! i)" using ok i by (simp add: drive_ok_def)
  then have r: "runner_ok (loads ! i) start (?f (dr_runners d ! i))"
    using w by (auto simp: runner_ok_def split: option.splits)
  show ?thesis unfolding drive_step.simps
    by (rule drive_ok_both [OF ok i refl, where ys = "[]"]) (use r in \<open>simp_all add: one_begin_def flying_def of_pacer_def\<close>)
qed

lemma length_remove_nth: "k < length xs \<Longrightarrow> length (remove_nth k xs) = length xs - 1"
  by (simp add: remove_nth_def)

lemma set_remove_nth: "set (remove_nth k xs) \<subseteq> set xs"
  unfolding remove_nth_def by (auto dest: in_set_takeD in_set_dropD)

lemma drive_ok_end:
  assumes ok: "drive_ok loads start es d" and en: "drive_enabled loads start dur (End i k x) d"
  shows "\<exists>d'. drive_step loads start dur (End i k x) d = Some d' \<and> drive_ok loads start (es @ [End i k x]) d'"
proof -
  let ?l = "loads ! i" and ?rn = "dr_runners d ! i"
  have i: "i < length loads" and k: "k < length (rn_flight ?rn)" and x: "x_t0 x = rn_flight ?rn ! k" using en by auto
  have rn: "runner_ok ?l start ?rn" using ok i by (simp add: drive_ok_def)
  then obtain p where p: "rn_pacer ?rn = Some p" using k by (cases "rn_pacer ?rn") (auto simp: runner_ok_def)
  have pb: "p_busy p = int (rn_waiting ?rn) + int (length (rn_flight ?rn))" "p_stopped p \<longrightarrow> p_todo p = 0" "pacer_ok ?l p"
    using rn p by (simp_all add: runner_ok_def)
  then obtain p' where p': "pacer_step ?l start dur Finish p = Some p'" using k by simp
  note fr = pacer_step_frame(1,2) [OF p' pb(2)] and pk = pacer_ok_step [OF pb(3) p']
  let ?f = "\<lambda>rn. rn\<lparr>rn_pacer := Some p', rn_flight := remove_nth k (rn_flight rn)\<rparr>"
  have len: "length (remove_nth k (rn_flight ?rn)) = length (rn_flight ?rn) - 1" by (rule length_remove_nth [OF k])
  have r: "runner_ok ?l start (?f ?rn)"
    using rn p pb(1) fr pk k set_remove_nth [of k "rn_flight ?rn"] by (auto simp: runner_ok_def len)
  have "start \<le> x_t0 x" using rn k nth_mem [OF k] by (auto simp: runner_ok_def x)
  then have sec: "0 \<le> sec_of start x" unfolding sec_of_def by (rule sec_nonneg)
  have g: "\<exists>r'. one_end c start x r = Some r' \<and> exact_result start (xs @ [(c, x)]) r' \<and> Sent r' = Sent r \<and>
      ClientDrops r' = ClientDrops r" if "exact_result start xs r" for c xs r
  proof -
    obtain r' where r': "one_end c start x r = Some r'" using one_end_eq [OF sec] by blast
    show ?thesis using r' exact_result_end [OF that sec r'] one_end_keeps [OF sec r'] by blast
  qed
  have "\<exists>d'. with_result (tl_Tenant ?l) (one_end (load_cost ?l) start x) (upd_runner i ?f d) = Some d' \<and>
      drive_ok loads start (es @ [End i k x]) d'"
    by (rule drive_ok_both [OF ok i refl, where ys = "[(load_cost ?l, x)]"])
      (use r p fr g k len in \<open>auto simp: flying_def of_pacer_def\<close>)
  then show ?thesis using p p' by simp
qed

lemma drive_step_ok:
  assumes "drive_ok loads start es d" and "list_all (\<lambda>l. 0 \<le> tl_Concurrency l) loads"
    and "drive_enabled loads start dur e d"
  shows "\<exists>d'. drive_step loads start dur e d = Some d' \<and> drive_ok loads start (es @ [e]) d'"
proof -
  have frame: "drive_ok loads start (es @ [e]) d'"
    if "dr_runners d' = dr_runners d" "dr_results d' = dr_results d" "\<And>t. outcome_of loads t e = []" for d'
    using assms(1) that by (simp add: drive_ok_def tracks_def)
  show ?thesis
  proof (cases e)
    case (Enter i now)
    then have "0 \<le> tl_Concurrency (loads ! i)" using assms(2,3) by (simp add: list_all_length)
    then show ?thesis using drive_ok_enter assms(1,3) unfolding Enter by blast
  next
    case (Pace i pe)
    then show ?thesis using drive_ok_pace assms(1,3) by blast
  next
    case (Begin i t0)
    then show ?thesis using drive_ok_begin assms(1,3) by blast
  next
    case (End i k x)
    then show ?thesis using drive_ok_end assms(1,3) by blast
  qed (use frame in auto)
qed

lemma drive_run_ok:
  assumes "list_all (\<lambda>l. 0 \<le> tl_Concurrency l) loads"
  shows "drive_ok loads start es0 d \<Longrightarrow> complete_course loads start dur es d \<Longrightarrow>
    \<exists>d' u'. drive_run onSecond bg loads start dur es d u = Some (d', u') \<and> drive_ok loads start (es0 @ es) d' \<and> drive_done d'"
proof (induction es arbitrary: es0 d u)
  case (Cons e es)
  have en: "drive_enabled loads start dur e d" using Cons.prems(2) by simp
  obtain d1 where d1: "drive_step loads start dur e d = Some d1" "drive_ok loads start (es0 @ [e]) d1"
    using drive_step_ok [OF Cons.prems(1) assms en] by blast
  have "complete_course loads start dur es d1" using Cons.prems(2) d1(1) by simp
  from Cons.IH [OF d1(2) this] show ?case using en d1(1) by simp
qed simp

text \<open>When a run is done, nothing is under way.\<close>

lemma drive_done_idle:
  assumes "drive_ok loads start es d" and "drive_done d"
  shows "tenant_sum flying loads t (dr_runners d) = 0" and "tenant_sum (of_pacer p_busy) loads t (dr_runners d) = 0"
proof -
  have "flying (dr_runners d ! i) = 0 \<and> of_pacer p_busy (dr_runners d ! i) = 0" if "i < length loads" for i
  proof -
    have "runner_ok (loads ! i) start (dr_runners d ! i)" and "runner_done (dr_runners d ! i)"
      using assms that by (auto simp: drive_ok_def drive_done_def list_all_length)
    then obtain p where p: "rn_pacer (dr_runners d ! i) = Some p" "p_busy p = 0"
        "0 = int (rn_waiting (dr_runners d ! i)) + int (length (rn_flight (dr_runners d ! i)))"
      by (auto simp: runner_ok_def runner_done_def split: option.splits)
    then have "int (length (rn_flight (dr_runners d ! i))) = 0" by linarith
    then show ?thesis using p by (simp add: flying_def of_pacer_def)
  qed
  then show "tenant_sum flying loads t (dr_runners d) = 0" "tenant_sum (of_pacer p_busy) loads t (dr_runners d) = 0"
    unfolding tenant_sum_def by (auto intro: sum.neutral)
qed

lemma tracks_done:
  assumes "drive_ok loads start es d" and "drive_done d" and "t \<in> tl_Tenant ` set loads"
  shows "\<exists>r. map_of (dr_results d) t = Some r \<and> exact_result start (outcomes loads t es) r \<and>
    Sent r = i64 (int (length (outcomes loads t es))) \<and>
    ClientDrops r = i64 (tenant_sum (of_pacer p_drops) loads t (dr_runners d)) \<and>
    int (length (outcomes loads t es)) = tenant_sum (of_pacer p_launched) loads t (dr_runners d)"
proof -
  have "tracks loads start es t d" using assms(1,3) by (auto simp: drive_ok_def)
  then show ?thesis using drive_done_idle [OF assms(1,2), of t] by (auto simp: tracks_def)
qed

lemma Driver_Run_complete:
  assumes "list_all (\<lambda>l. 0 \<le> tl_Concurrency l) loads"
    and "complete_course loads start dur es (drive_init loads (onSecond \<noteq> None) start)"
  obtains d u' where "drive_run onSecond bg loads start dur es (drive_init loads (onSecond \<noteq> None) start) u = Some (d, u')"
    and "Driver_Run onSecond bg loads start dur es u = Some (dr_results d, u')"
    and "drive_ok loads start es d" and "drive_done d"
  using drive_run_ok [OF assms(1) drive_ok_init assms(2), of onSecond bg u] by (auto simp: Driver_Run_def)

section \<open>Termination\<close>

text \<open>A step of the run itself. Timers fire at later and later instants.\<close>

fun timely :: "drive_event \<Rightarrow> drive \<Rightarrow> bool" where
  "timely (Pace i (Tick now)) d = (case rn_pacer (dr_runners d ! i) of None \<Rightarrow> False | Some p \<Rightarrow> p_last p < now)"
| "timely (SecondTick now) d = (dr_last d < now)"
| "timely (Background j) d = False"
| "timely _ d = True"

definition drive_next :: "TenantLoad list \<Rightarrow> time \<Rightarrow> duration \<Rightarrow> drive \<Rightarrow> drive \<Rightarrow> bool" where
  "drive_next loads start dur d d' \<longleftrightarrow>
     (\<exists>e. drive_enabled loads start dur e d \<and> timely e d \<and> drive_step loads start dur e d = Some d')"

text \<open>What goes down: the loops and goroutines still to end, then the time left to them, then the iterations and
  requests outstanding.\<close>

definition phase_left :: "runner \<Rightarrow> nat" where
  "phase_left rn = (case rn_pacer rn of None \<Rightarrow> 2 | Some p \<Rightarrow> if p_stopped p then 0 else 1)"

definition time_left :: "time \<Rightarrow> duration \<Rightarrow> runner \<Rightarrow> nat" where
  "time_left start dur rn = (case rn_pacer rn of None \<Rightarrow> 0 | Some p \<Rightarrow> nat (start + dur - p_last p))"

definition work_left :: "runner \<Rightarrow> nat" where
  "work_left rn = (case rn_pacer rn of None \<Rightarrow> 0 | Some p \<Rightarrow> 3 * nat (p_todo p)) + 2 * rn_waiting rn + length (rn_flight rn)"

definition phases :: "drive \<Rightarrow> nat" where
  "phases d = sum_list (map phase_left (dr_runners d)) + (if dr_hooked d then 1 else 0) + (if dr_cancelled d then 0 else 1)"

definition instants :: "time \<Rightarrow> duration \<Rightarrow> drive \<Rightarrow> nat" where
  "instants start dur d = sum_list (map (time_left start dur) (dr_runners d)) + nat (start + dur - dr_last d)"

definition works :: "drive \<Rightarrow> nat" where
  "works d = sum_list (map work_left (dr_runners d))"

definition drive_order :: "time \<Rightarrow> duration \<Rightarrow> (drive \<times> drive) set" where
  "drive_order start dur = measures [phases, instants start dur, works]"

lemma sum_list_map_upd:
  fixes f :: "'a \<Rightarrow> nat"
  assumes "i < length xs"
  shows "sum_list (map f (xs[i := x])) + f (xs ! i) = sum_list (map f xs) + f x"
  using assms by (induction xs arbitrary: i) (auto simp: nth_Cons split: nat.splits)

text \<open>A changed runner takes the run down the order as it goes down itself.\<close>

lemma drive_order_runner:
  assumes i: "i < length (dr_runners d)" and d': "dr_runners d' = (dr_runners d)[i := rn']" "dr_hooked d' = dr_hooked d"
      "dr_cancelled d' = dr_cancelled d" "dr_last d' = dr_last d"
    and "phase_left rn' < phase_left (dr_runners d ! i) \<or>
      phase_left rn' = phase_left (dr_runners d ! i) \<and>
        (time_left start dur rn' < time_left start dur (dr_runners d ! i) \<or>
         time_left start dur rn' = time_left start dur (dr_runners d ! i) \<and> work_left rn' < work_left (dr_runners d ! i))"
  shows "(d', d) \<in> drive_order start dur"
  using assms(6) sum_list_map_upd [OF i, of phase_left rn'] sum_list_map_upd [OF i, of "time_left start dur" rn']
    sum_list_map_upd [OF i, of work_left rn']
  unfolding drive_order_def in_measures phases_def instants_def works_def d' by auto

lemma with_result_frame:
  "with_result t f d = Some d' \<Longrightarrow> dr_runners d' = dr_runners d \<and> dr_hooked d' = dr_hooked d \<and>
    dr_cancelled d' = dr_cancelled d \<and> dr_last d' = dr_last d"
  by (auto simp: with_result_def)

lemma not_over: "\<not> dur \<le> time_sub now start \<Longrightarrow> dur \<le> max_i64 \<Longrightarrow> now < start + dur"
  by (auto simp: time_sub_def min_def max_def split: if_splits)

lemma drive_order_pace:
  assumes ok: "drive_ok loads start es d" and dur: "dur \<le> max_i64"
    and en: "drive_enabled loads start dur (Pace i e) d" "timely (Pace i e) d"
    and step: "drive_step loads start dur (Pace i e) d = Some d'"
  shows "(d', d) \<in> drive_order start dur"
proof -
  let ?l = "loads ! i" and ?rn = "dr_runners d ! i"
  obtain p p' where i: "i < length (dr_runners d)" and e: "e \<noteq> Finish" and p: "rn_pacer ?rn = Some p"
      and p': "pacer_step ?l start dur e p = Some p'"
    using en(1) ok by (auto simp: drive_ok_def split: option.splits)
  obtain w where w: "dr_runners d' = (dr_runners d)[i := ?rn\<lparr>rn_pacer := Some p', rn_waiting := rn_waiting ?rn + w\<rparr>]"
      "dr_hooked d' = dr_hooked d" "dr_cancelled d' = dr_cancelled d" "dr_last d' = dr_last d"
      "w = (if e = Dispatch \<and> p_busy p < tl_Concurrency ?l then 1 else 0)"
    using step p p' by (auto simp: pace_runner_def upd_runner_def dest: with_result_frame split: if_splits)
  show ?thesis
  proof (rule drive_order_runner [OF i w(1-4)], cases e)
    case (Tick now)
    then show "phase_left (?rn\<lparr>rn_pacer := Some p', rn_waiting := rn_waiting ?rn + w\<rparr>) < phase_left ?rn \<or>
      phase_left (?rn\<lparr>rn_pacer := Some p', rn_waiting := rn_waiting ?rn + w\<rparr>) = phase_left ?rn \<and>
      (time_left start dur (?rn\<lparr>rn_pacer := Some p', rn_waiting := rn_waiting ?rn + w\<rparr>) < time_left start dur ?rn \<or>
       time_left start dur (?rn\<lparr>rn_pacer := Some p', rn_waiting := rn_waiting ?rn + w\<rparr>) = time_left start dur ?rn \<and>
       work_left (?rn\<lparr>rn_pacer := Some p', rn_waiting := rn_waiting ?rn + w\<rparr>) < work_left ?rn)"
      using p p' en(2) not_over [of dur now start] dur
      by (auto simp: phase_left_def time_left_def pacer_tick_def Let_def split: if_splits)
  qed (use p p' w(5) e in \<open>auto simp: phase_left_def time_left_def work_left_def pacer_dispatch_def split: if_splits\<close>)
qed

lemma drive_order_next:
  assumes ok: "drive_ok loads start es d" and dur: "dur \<le> max_i64"
    and en: "drive_enabled loads start dur e d" "timely e d" and step: "drive_step loads start dur e d = Some d'"
  shows "(d', d) \<in> drive_order start dur"
proof (cases e)
  case (Pace i pe)
  then show ?thesis using drive_order_pace [OF ok dur] en step by blast
next
  case (Enter i now)
  then obtain p where i: "i < length (dr_runners d)" and n: "rn_pacer (dr_runners d ! i) = None"
      and d': "d' = upd_runner i (\<lambda>rn. rn\<lparr>rn_pacer := Some p\<rparr>) d"
    using en step ok by (auto simp: drive_ok_def)
  show ?thesis unfolding d' by (rule drive_order_runner [OF i, where rn' = "(dr_runners d ! i)\<lparr>rn_pacer := Some p\<rparr>"]) (use n in \<open>simp_all add: upd_runner_def phase_left_def\<close>)
next
  case (Begin i t0)
  then have i: "i < length (dr_runners d)" and w: "0 < rn_waiting (dr_runners d ! i)" using en ok by (auto simp: drive_ok_def)
  then have w2: "2 * (rn_waiting (dr_runners d ! i) - Suc 0) = 2 * rn_waiting (dr_runners d ! i) - 2" by simp
  show ?thesis
    by (rule drive_order_runner [OF i]) (use w w2 step Begin with_result_frame in
      \<open>fastforce simp: upd_runner_def phase_left_def time_left_def work_left_def split: option.splits\<close>)+
next
  case (End i k x)
  then have i: "i < length (dr_runners d)" and k: "k < length (rn_flight (dr_runners d ! i))" using en ok by (auto simp: drive_ok_def)
  obtain p p' where p: "rn_pacer (dr_runners d ! i) = Some p" "pacer_step (loads ! i) start dur Finish p = Some p'"
      and s: "with_result (tl_Tenant (loads ! i)) (one_end (load_cost (loads ! i)) start x)
        (upd_runner i (\<lambda>rn. rn\<lparr>rn_pacer := Some p', rn_flight := remove_nth k (rn_flight rn)\<rparr>) d) = Some d'"
    using step by (auto simp: End bind_eq_Some_conv)
  have "p' = p\<lparr>p_busy := p_busy p - 1\<rparr>" using p(2) by (simp split: if_splits)
  then show ?thesis
    by (intro drive_order_runner [OF i, where rn' = "(dr_runners d ! i)\<lparr>rn_pacer := Some p', rn_flight := remove_nth k (rn_flight (dr_runners d ! i))\<rparr>"])
      (use p(1) k with_result_frame [OF s] length_remove_nth [OF k] in
      \<open>simp_all add: upd_runner_def phase_left_def time_left_def work_left_def\<close>)
next
  case (SecondTick now)
  then show ?thesis
    using en step not_over [of dur now start] dur
    by (auto simp: drive_order_def phases_def instants_def split: if_splits)
qed (use en step in \<open>auto simp: drive_order_def phases_def\<close>)

lemma runner_progress:
  assumes rn: "runner_ok (loads ! i) start (dr_runners d ! i)" and nd: "\<not> runner_done (dr_runners d ! i)" and i: "i < length loads"
  shows "\<exists>e. drive_enabled loads start dur e d \<and> timely e d"
proof (cases "rn_pacer (dr_runners d ! i)")
  case None
  then have "drive_enabled loads start dur (Enter i start) d \<and> timely (Enter i start) d" using i by simp
  then show ?thesis by blast
next
  case (Some p)
  have pk: "pacer_ok (loads ! i) p" "p_busy p = int (rn_waiting (dr_runners d ! i)) + int (length (rn_flight (dr_runners d ! i)))"
    using rn Some by (simp_all add: runner_ok_def)
  consider "\<not> p_stopped p" "p_todo p = 0" | "\<not> p_stopped p" "0 < p_todo p"
    | "0 < rn_waiting (dr_runners d ! i)" | "0 < length (rn_flight (dr_runners d ! i))"
    using nd Some pk by (fastforce simp: runner_done_def pacer_ok_def)
  then show ?thesis
  proof cases
    case 1
    then have "drive_enabled loads start dur (Pace i (Tick (p_last p + 1))) d \<and> timely (Pace i (Tick (p_last p + 1))) d"
      using i Some by simp
    then show ?thesis by blast
  next
    case 2
    then have "drive_enabled loads start dur (Pace i Dispatch) d \<and> timely (Pace i Dispatch) d" using i Some by simp
    then show ?thesis by blast
  next
    case 3
    then have "drive_enabled loads start dur (Begin i start) d \<and> timely (Begin i start) d" using i by simp
    then show ?thesis by blast
  next
    case 4
    let ?x = "\<lparr>x_t0 = rn_flight (dr_runners d ! i) ! 0, x_reply = Inr StatusOK, x_cancelled = dr_cancelled d, x_latency = 0\<rparr>"
    have "drive_enabled loads start dur (End i 0 ?x) d \<and> timely (End i 0 ?x) d" using i 4 by simp
    then show ?thesis by blast
  qed
qed

lemma drive_progress:
  assumes ok: "drive_ok loads start es d" and conc: "list_all (\<lambda>l. 0 \<le> tl_Concurrency l) loads" and nd: "\<not> drive_done d"
  shows "\<exists>e d'. drive_enabled loads start dur e d \<and> timely e d \<and> drive_step loads start dur e d = Some d'"
proof -
  have "\<exists>e. drive_enabled loads start dur e d \<and> timely e d"
  proof (cases "dr_hooked d")
    case True
    then have "drive_enabled loads start dur (SecondTick (dr_last d + 1)) d \<and> timely (SecondTick (dr_last d + 1)) d" by simp
    then show ?thesis by blast
  next
    case False
    then obtain i where "i < length loads" "\<not> runner_done (dr_runners d ! i)"
      using nd ok by (auto simp: drive_done_def list_all_length drive_ok_def)
    then show ?thesis using runner_progress ok by (auto simp: drive_ok_def)
  qed
  then show ?thesis using drive_step_ok [OF ok conc] by blast
qed

text \<open>The invariant at every state a run can reach, whatever events led there.\<close>

definition drive_inv :: "TenantLoad list \<Rightarrow> time \<Rightarrow> drive \<Rightarrow> bool" where
  "drive_inv loads start d \<longleftrightarrow> (\<exists>es. drive_ok loads start es d)"

lemma drive_inv_next:
  assumes "drive_inv loads start d" and "list_all (\<lambda>l. 0 \<le> tl_Concurrency l) loads" and "drive_next loads start dur d d'"
  shows "drive_inv loads start d'"
  using assms drive_step_ok unfolding drive_inv_def drive_next_def by (metis option.inject)

lemma wf_drive_order: "wf (drive_order start dur)"
  by (simp add: drive_order_def)

lemma complete_course_exists:
  assumes conc: "list_all (\<lambda>l. 0 \<le> tl_Concurrency l) loads" and dur: "dur \<le> max_i64"
  shows "drive_ok loads start es0 d \<Longrightarrow> \<exists>es. complete_course loads start dur es d"
proof (induction d arbitrary: es0 rule: wf_induct_rule [OF wf_drive_order [of start dur]])
  case (1 d)
  show ?case
  proof (cases "drive_done d")
    case True
    then have "complete_course loads start dur [] d" by simp
    then show ?thesis by blast
  next
    case False
    obtain e d' where e: "drive_enabled loads start dur e d" "timely e d" "drive_step loads start dur e d = Some d'"
      using drive_progress [OF 1(2) conc False] by blast
    obtain es where "complete_course loads start dur es d'"
      using 1(1) [OF drive_order_next [OF 1(2) dur e]] drive_step_ok [OF 1(2) conc e(1)] e(3) by auto
    then have "complete_course loads start dur (e # es) d" using e by simp
    then show ?thesis by blast
  qed
qed

section \<open>Properties\<close>

text \<open>C35. \<open>Run\<close> comes to its end. As long as its timers fire at later and later instants and its requests are
  answered or fail, there is no endless run; and whatever has happened so far, as long as the run is not done (every loop
  left, every request waited for, the \<open>onSecond\<close> goroutine returned) some goroutine can go on without a panic, so that
  every run can be completed.\<close>

theorem Run_terminates:
  assumes "list_all (\<lambda>l. 0 \<le> tl_Concurrency l) loads" and "dur \<le> max_i64"
  shows "(\<nexists>f. f 0 = drive_init loads hooked start \<and> (\<forall>n. drive_next loads start dur (f n) (f (Suc n)))) \<and>
    (\<forall>d. (drive_next loads start dur)\<^sup>*\<^sup>* (drive_init loads hooked start) d \<longrightarrow>
       (drive_done d \<or> (\<exists>d'. drive_next loads start dur d d')) \<and> (\<exists>es. complete_course loads start dur es d))"
proof -
  have init: "drive_inv loads start (drive_init loads hooked start)"
    using drive_ok_init by (auto simp: drive_inv_def)
  have down: "(d', d) \<in> drive_order start dur" if "drive_inv loads start d" "drive_next loads start dur d d'" for d d'
    using that drive_order_next [OF _ assms(2)] unfolding drive_inv_def drive_next_def by blast
  have "False" if f: "f 0 = drive_init loads hooked start" "\<forall>n. drive_next loads start dur (f n) (f (Suc n))" for f
  proof -
    have "drive_inv loads start (f n)" for n
      using init f drive_inv_next [OF _ assms(1), where dur = dur] by (induction n) auto
    then have "\<forall>n. (f (Suc n), f n) \<in> drive_order start dur" using down f(2) by blast
    then show False using wf_drive_order [of start dur] unfolding wf_iff_no_infinite_down_chain by blast
  qed
  moreover have "(drive_done d \<or> (\<exists>d'. drive_next loads start dur d d')) \<and> (\<exists>es. complete_course loads start dur es d)"
    if "(drive_next loads start dur)\<^sup>*\<^sup>* (drive_init loads hooked start) d" for d
  proof -
    have "drive_inv loads start d" using that init drive_inv_next [OF _ assms(1), where dur = dur] by (induction rule: rtranclp_induct) auto
    then obtain es0 where ok: "drive_ok loads start es0 d" by (auto simp: drive_inv_def)
    show ?thesis
      using drive_progress [OF ok assms(1)] complete_course_exists [OF assms ok] unfolding drive_next_def by blast
  qed
  ultimately show ?thesis by blast
qed

definition sample_load :: TenantLoad where
  "sample_load = \<lparr>tl_Tenant = ''a'', tl_RPS = 2, tl_Concurrency = 1, tl_Cost = 5\<rparr>"

theorem Run_terminates_witness:
  "\<exists>es. complete_course [sample_load] 0 5000000000 es (drive_init [sample_load] True 0)"
  using Run_terminates [of "[sample_load]" 5000000000 True 0] by (auto simp: sample_load_def max_i64_def)


definition sample_reply :: exchange where
  "sample_reply = \<lparr>x_t0 = 1000000000, x_reply = Inr 200, x_cancelled = False, x_latency = 2000000\<rparr>"

definition sample_course :: "drive_event list" where
  "sample_course =
     [Enter 0 0, Pace 0 (Tick 1000000000), Pace 0 Dispatch, Pace 0 Dispatch, Begin 0 1000000000, End 0 0 sample_reply,
      Pace 0 (Tick 5000000000)]"

lemmas float_eval = time_sub_def Let_def Seconds_def Second_def fadd_def fsub_def fmul_def fdiv_def min_i64_def max_i64_def
  float_of_int_exact int_of_float_floor signed_divide_int_def signed_modulo_int_def

lemma sample_tick:
  "pacer_tick sample_load 0 5000000000 1000000000 (pacer_init 0) =
    \<lparr>p_quota = 0, p_last = 1000000000, p_todo = 2, p_busy = 0, p_drops = 0, p_stopped = False, p_released = 2, p_launched = 0\<rparr>"
  "pacer_tick sample_load 0 5000000000 5000000000 p = p\<lparr>p_stopped := True\<rparr>"
  by (simp_all add: sample_load_def pacer_init_def pacer_tick_def float_eval)

lemma sample_sec: "sec_of 0 sample_reply = 1"
  by (simp add: sec_of_def sample_reply_def float_eval)

lemma sample_complete: "complete_course [sample_load] 0 5000000000 sample_course (drive_init [sample_load] False 0)"
proof -
  have l: "tl_Tenant sample_load = ''a''" "tl_Concurrency sample_load = 1" by (simp_all add: sample_load_def)
  have p: "p_todo (pacer_init 0) = 0" "\<not> p_stopped (pacer_init 0)" "p_last (pacer_init 0) = 0" by (simp_all add: pacer_init_def)
  have x: "x_t0 sample_reply = 1000000000" "\<not> x_cancelled sample_reply" by (simp_all add: sample_reply_def)
  show ?thesis
    using p x l by (simp add: sample_course_def drive_init_def upd_runner_def pacer_start_def pace_runner_def pacer_dispatch_def
        with_result_def remove_nth_def one_end_eq sample_sec sample_tick drive_done_def runner_done_def)
qed


end
