(* ===== verification/Scenarios.thy ===== *)
theory Scenarios
  imports Kube Drive "HOL-Library.Monad_Syntax"
begin

text \<open>
  Package \<open>internal/loadgen\<close>, file \<open>scenarios.go\<close>: the five scenarios, from their set-up to their
  pass criteria.

  A scenario works on the text written so far, the cluster, and the goroutines its hooks have started and
  that have not finished. What happens during a call of the driver's \<open>Run\<close> (ticks, requests and their outcomes,
  goroutines taking their steps) is a course of events of theory \<open>Drive\<close>, one course per call, given as an argument; so every
  theorem holds for every course of the traffic. The result is \<open>None\<close> if the scenario panics or never returns.

  An override that makes a run zero seconds long leads
  to quotients that \<open>float64\<close> calls NaN; the model's values are meant for runs of positive length.
  Sums of floats over the results are taken in the order of the list.
\<close>

section \<open>The environment\<close>

text \<open>\<open>e_showFloat\<close> prints a float the way \<open>%v\<close> does, for the texts of errors.\<close>

record Env =
  e_Kube :: Kube
  e_WorkerURL :: string
  e_Cfg :: Config
  e_CoordURL :: string
  e_Overrides :: "(string \<times> string) list"
  e_showFloat :: "float64 \<Rightarrow> string"

definition ov :: "Env \<Rightarrow> string \<Rightarrow> float64 \<Rightarrow> float64" where
  "ov e key def =
     (let v = get_param (e_Overrides e) key in
      if v \<noteq> '''' then (case ParseFloat v of Some f \<Rightarrow> f | None \<Rightarrow> def) else def)"

text \<open>\<open>time.Duration(x) * time.Second\<close>.\<close>

definition whole_seconds :: "float64 \<Rightarrow> duration" where
  "whole_seconds x = i64 (int_of_float x * Second)"

definition limit_of :: "Config \<Rightarrow> string \<Rightarrow> float64" where
  "limit_of cfg name = (case map_of (c_Tenants cfg) name of None \<Rightarrow> 0 | Some r \<Rightarrow> r)"

definition limits :: "Config \<Rightarrow> float64 \<times> float64 \<times> float64" where
  "limits cfg = (limit_of cfg ''tenant-a'', limit_of cfg ''tenant-b'', limit_of cfg ''tenant-c'')"

definition pct :: "int \<Rightarrow> int \<Rightarrow> float64" where
  "pct part whole = (if whole = 0 then 0 else fdiv (fmul 100 (float_of_int part)) (float_of_int whole))"

definition within_tol :: "float64 \<Rightarrow> float64 \<Rightarrow> float64 \<Rightarrow> bool" where
  "within_tol v target tol \<longleftrightarrow> fmul target (fsub 1 tol) \<le> v \<and> v \<le> fmul target (fadd 1 tol)"

datatype scenario_error = SetupError kube_error | ScrapeError scrape_error

text \<open>Goroutines started by a hook, with the second they report.\<close>

datatype task = KillWorker int | KillCoord int | RestoreCoord

record 'w scene =
  s_out :: string
  s_world :: 'w
  s_tasks :: "task list"

definition Printf :: "string \<Rightarrow> 'w scene \<Rightarrow> 'w scene" where
  "Printf text s = s\<lparr>s_out := s_out s @ text\<rparr>"

type_synonym traffic = "time \<times> drive_event list"

definition ensure :: "'w cluster \<Rightarrow> Env \<Rightarrow> int \<Rightarrow> string \<Rightarrow> 'w scene \<Rightarrow> (kube_error option \<times> 'w scene) option" where
  "ensure cl env workers workerCPU s =
     (let s = Printf (''setting up: coordinator + '' @ itoa workers @ '' worker replica(s)...'' @ nl) s in
      case EnsureRateLimiter cl (e_Kube env) workers workerCPU (s_world s) of
        None \<Rightarrow> None
      | Some (Some e, w) \<Rightarrow> Some (Some e, s\<lparr>s_world := w\<rparr>)
      | Some (None, w) \<Rightarrow> Some (None, Printf (''ready'' @ nl) (s\<lparr>s_world := w\<rparr>)))"

definition warmup :: "TenantLoad list \<Rightarrow> traffic \<Rightarrow> 'w scene \<Rightarrow> 'w scene option" where
  "warmup loads tr s =
     (let s = Printf (''warmup 3s...'' @ nl) s in
      map_option snd (Driver_Run None (\<lambda>i s. s) loads (fst tr) (3 * Second) (snd tr) s))"

definition progress :: "'w scene on_second" where
  "progress sec rs s =
     (if sec smod 5 \<noteq> 0 then s
      else
        let adm = sumSeries rs rs sb_Admitted; rej = sumSeries rs rs sb_Rejected; errs = sumSeries rs rs sb_Errors;
            pick = (\<lambda>xs. if i64 (sec - 1) < 0 \<or> int (length xs) \<le> i64 (sec - 1) then 0 else xs ! nat (i64 (sec - 1))) in
        Printf (''t='' @ pad_left 2 (itoa sec) @ ''s  admitted/s='' @ pad_right 5 (itoa (pick adm)) @
          '' rejected/s='' @ pad_right 5 (itoa (pick rej)) @ '' errors/s='' @ itoa (pick errs) @ nl) s)"

definition scrape :: "'w cluster \<Rightarrow> Env \<Rightarrow> 'w scene \<Rightarrow> (scrape_error + StatsReply) \<times> 'w scene" where
  "scrape cl env s =
     (let (r, w) = CoordStats (cl_get cl) (e_CoordURL env) (s_world s) in (r, s\<lparr>s_world := w\<rparr>))"

definition load :: "string \<Rightarrow> float64 \<Rightarrow> int \<Rightarrow> int \<Rightarrow> TenantLoad" where
  "load tenant rps conc cost = \<lparr>tl_Tenant = tenant, tl_RPS = rps, tl_Concurrency = conc, tl_Cost = cost\<rparr>"

section \<open>The universal check\<close>

fun invariant_loop ::
  "Config \<Rightarrow> Results \<Rightarrow> duration \<Rightarrow> float64 \<Rightarrow> int \<Rightarrow> string list \<Rightarrow> bool \<times> string \<Rightarrow> (bool \<times> string) option" where
  "invariant_loop cfg rs dur leaseSlack coordRestarts [] st = Some st"
| "invariant_loop cfg rs dur leaseSlack coordRestarts (name # names) (ok, detail) =
     (case map_of (c_Tenants cfg) name of
        None \<Rightarrow> invariant_loop cfg rs dur leaseSlack coordRestarts names (ok, detail)
      | Some rate \<Rightarrow>
          (case map_of rs name of
             None \<Rightarrow> None
           | Some r \<Rightarrow>
               let burst = fmul rate BurstSeconds;
                   bound = fadd (fadd (fadd (fmul rate (Seconds dur)) burst) leaseSlack)
                     (fmul (float_of_int coordRestarts) burst);
                   admTok = float_of_int (tr_AdmittedTokens r) in
               invariant_loop cfg rs dur leaseSlack coordRestarts names
                 (if bound < admTok then False else ok,
                  detail @ name @ '' '' @ fixed 0 admTok @ ''<='' @ fixed 0 bound @ ''  '')))"

definition invariantCheck :: "Env \<Rightarrow> Results \<Rightarrow> duration \<Rightarrow> int \<Rightarrow> int \<Rightarrow> Check option" where
  "invariantCheck env rs dur workers coordRestarts =
     (let leaseSlack = fmul (fmul (float_of_int workers) (rnd (6 / 5))) (float_of_int (Size (c_Lease (e_Cfg env)))) in
      map_option
        (\<lambda>(ok, detail). check ''global invariant: admitted tokens <= rate x window + burst (+slack)'' ok detail)
        (invariant_loop (e_Cfg env) rs dur leaseSlack coordRestarts (TenantsSorted rs) (True, '''')))"

definition sortedKeys :: "(string \<times> 'v) list \<Rightarrow> string list" where
  "sortedKeys m = sort (map fst m)"

definition sumSeriesAt :: "Results \<Rightarrow> int \<Rightarrow> int option" where
  "sumSeriesAt rs sec =
     (let s = sumSeries rs rs sb_Admitted in
      if sec < int (length s) then (if sec < 0 then None else Some (s ! nat sec)) else Some 0)"

section \<open>The scenarios\<close>

type_synonym 'w outcome = "((scenario_error + Check list) \<times> 'w scene) option"

definition setup_then ::
  "'w cluster \<Rightarrow> Env \<Rightarrow> int \<Rightarrow> string \<Rightarrow> ('w scene \<Rightarrow> ((scenario_error + 'a) \<times> 'w scene) option) \<Rightarrow> 'w scene \<Rightarrow>
     ((scenario_error + 'a) \<times> 'w scene) option" where
  "setup_then cl env workers cpu f s =
     (case ensure cl env workers cpu s of
        None \<Rightarrow> None
      | Some (Some e, s) \<Rightarrow> Some (Inl (SetupError e), s)
      | Some (None, s) \<Rightarrow> f s)"

definition baseline_loads :: "Env \<Rightarrow> TenantLoad list" where
  "baseline_loads env =
     (let (la, lb, lc) = limits (e_Cfg env) in
      [load ''tenant-a'' (ov env ''rate_a'' (fmul (rnd (6 / 5)) la)) 24 1,
       load ''tenant-a'' (ov env ''rate_a5'' (fmul (rnd (4 / 25)) la)) 8 5,
       load ''tenant-b'' (ov env ''rate_b'' (fmul (rnd (1 / 2)) lb)) 8 0])"

definition baseline_checks :: "Env \<Rightarrow> duration \<Rightarrow> Results \<Rightarrow> int \<Rightarrow> int \<Rightarrow> Check list option" where
  "baseline_checks env dur rs leases sent =
     do {
       a \<leftarrow> map_of rs ''tenant-a'';
       b \<leftarrow> map_of rs ''tenant-b'';
       inv \<leftarrow> invariantCheck env rs dur 2 0;
       let (la, lb, lc) = limits (e_Cfg env);
           tokRateA = fdiv (float_of_int (tr_AdmittedTokens a)) (Seconds dur);
           errors = i64 (ErrorCount a + ErrorCount b) in
       Some
         [check ''tenant-a admitted token rate at its limit (weighted requests)'' (within_tol tokRateA la (rnd (1 / 10)))
            (fixed 1 tokRateA @ '' tokens/s vs limit '' @ fixed 0 la @ ''/s (tolerance 10%)''),
          check ''tenant-a excess rejected with 429'' (0 < tr_Rejected a \<and> 15 < pct (tr_Rejected a) (Sent a))
            (itoa (tr_Rejected a) @ '' rejected of '' @ itoa (Sent a) @ '' sent ('' @ fixed 0 (pct (tr_Rejected a) (Sent a)) @ ''%)''),
          check ''tenant-b under limit fully admitted'' (99 \<le> pct (tr_Admitted b) (Sent b))
            (fixed 2 (pct (tr_Admitted b) (Sent b)) @ ''% admitted''),
          check ''no errors'' (pct errors sent \<le> rnd (1 / 10))
            (itoa errors @ '' errors of '' @ itoa sent @ '' requests''),
          check ''workers do not consult coordinator per request''
            (0 < leases \<and> float_of_int leases \<le> fmul (rnd (1 / 5)) (float_of_int sent))
            (itoa leases @ '' lease calls vs '' @ itoa sent @ '' requests''),
          inv]
     }"

definition runBaseline :: "'w cluster \<Rightarrow> Env \<Rightarrow> traffic \<Rightarrow> traffic \<Rightarrow> 'w scene \<Rightarrow> 'w outcome" where
  "runBaseline cl env tr1 tr2 =
     setup_then cl env 2 workerCPUDefault (\<lambda>s.
       let (la, lb, lc) = limits (e_Cfg env);
           dur = whole_seconds (ov env ''duration'' 30);
           loads = baseline_loads env in
       do {
         s \<leftarrow> warmup loads tr1 s;
         case scrape cl env s of
           (Inl e, s) \<Rightarrow> Some (Inl (ScrapeError e), s)
         | (Inr s0, s) \<Rightarrow>
             let s = Printf (''measuring '' @ Duration_String dur @ '': tenant-a @ '' @ fixed 0 (tl_RPS (loads ! 0)) @
               '' rps cost-1 + '' @ fixed 0 (tl_RPS (loads ! 1)) @ '' rps cost-5 (2x limit '' @ fixed 0 la @
               '' tokens/s), tenant-b @ '' @ fixed 0 (tl_RPS (loads ! 2)) @ '' rps (0.5x limit '' @ fixed 0 lb @ '')'' @ nl) s in
             do {
               (rs, s) \<leftarrow> Driver_Run (Some progress) (\<lambda>i s. s) loads (fst tr2) dur (snd tr2) s;
               case scrape cl env s of
                 (Inl e, s) \<Rightarrow> Some (Inl (ScrapeError e), s)
               | (Inr s1, s) \<Rightarrow>
                   do {
                     table \<leftarrow> renderTable rs;
                     let leases = i64 (totalLeaseRequests (Some s1) - totalLeaseRequests (Some s0));
                         sent = totalSent rs;
                         perLease = (if 0 < leases then fdiv (float_of_int sent) (float_of_int leases) else 0);
                         s = Printf (table @ nl @ ''coordinator lease calls during run: '' @ itoa leases @ '' for '' @ itoa sent @
                           '' requests (1 lease call per '' @ fixed 0 perLease @ '' requests)'' @ nl) s in
                     do {
                       checks \<leftarrow> baseline_checks env dur rs leases sent;
                       Some (Inr checks, s)
                     }
                   }
             }
       })"

definition hot_loads :: "Env \<Rightarrow> TenantLoad list" where
  "hot_loads env =
     (let (la, lb, lc) = limits (e_Cfg env) in
      [load ''tenant-a'' (ov env ''rate_a'' (fmul 20 la)) 128 0,
       load ''tenant-b'' (ov env ''rate_b'' (fmul (rnd (3 / 5)) lb)) 8 0,
       load ''tenant-c'' (ov env ''rate_c'' (fmul (rnd (3 / 5)) lc)) 4 0])"

definition hot_checks :: "Env \<Rightarrow> duration \<Rightarrow> Results \<Rightarrow> Check list option" where
  "hot_checks env dur rs =
     do {
       a \<leftarrow> map_of rs ''tenant-a'';
       b \<leftarrow> map_of rs ''tenant-b'';
       c \<leftarrow> map_of rs ''tenant-c'';
       p99b \<leftarrow> Percentile 99 b;
       p99c \<leftarrow> Percentile 99 c;
       inv \<leftarrow> invariantCheck env rs dur 2 0;
       let (la, lb, lc) = limits (e_Cfg env);
           admRateA = fdiv (float_of_int (tr_Admitted a)) (Seconds dur);
           p99Cap = ov env ''p99ms'' 50;
           errors = i64 (i64 (ErrorCount a + ErrorCount b) + ErrorCount c) in
       Some
         [check ''tenant-b unaffected: full admission'' (99 \<le> pct (tr_Admitted b) (Sent b))
            (fixed 2 (pct (tr_Admitted b) (Sent b)) @ ''% admitted''),
          check ''tenant-c unaffected: full admission'' (99 \<le> pct (tr_Admitted c) (Sent c))
            (fixed 2 (pct (tr_Admitted c) (Sent c)) @ ''% admitted''),
          check ''tenant-b p99 stays low'' (p99b \<le> p99Cap)
            (''p99 '' @ fixed 1 p99b @ ''ms (cap '' @ fixed 0 p99Cap @ ''ms)''),
          check ''tenant-c p99 stays low'' (p99c \<le> p99Cap)
            (''p99 '' @ fixed 1 p99c @ ''ms (cap '' @ fixed 0 p99Cap @ ''ms)''),
          check ''negligible 5xx/transport errors'' (pct errors (totalSent rs) \<le> rnd (1 / 10))
            (itoa errors @ '' errors of '' @ itoa (totalSent rs) @ '' requests''),
          check ''hot tenant still gets its configured share'' (within_tol admRateA la (rnd (3 / 20)))
            (''admitted '' @ fixed 1 admRateA @ ''/s vs limit '' @ fixed 0 la @ ''/s (tolerance 15%)''),
          inv]
     }"

definition runHotTenant :: "'w cluster \<Rightarrow> Env \<Rightarrow> traffic \<Rightarrow> traffic \<Rightarrow> 'w scene \<Rightarrow> 'w outcome" where
  "runHotTenant cl env tr1 tr2 =
     setup_then cl env 2 workerCPUDefault (\<lambda>s.
       let dur = whole_seconds (ov env ''duration'' 30);
           loads = hot_loads env in
       do {
         s \<leftarrow> warmup loads tr1 s;
         let s = Printf (''measuring '' @ Duration_String dur @ '': tenant-a flooding @ '' @ fixed 0 (tl_RPS (loads ! 0)) @
           '' rps (20x limit), b/c below their limits'' @ nl) s in
         do {
           (rs, s) \<leftarrow> Driver_Run (Some progress) (\<lambda>i s. s) loads (fst tr2) dur (snd tr2) s;
           table \<leftarrow> renderTable rs;
           checks \<leftarrow> hot_checks env dur rs;
           Some (Inr checks, Printf table s)
         }
       })"

text \<open>\<open>scaling\<close> measures three numbers of replicas one after the other. \<open>ResetConns\<close> only drops
  idle connections; which worker serves a request is part of the events.\<close>

record scaling =
  sg_throughput :: "(int \<times> float64) list"
  sg_p99 :: "(int \<times> float64) list"
  sg_invChecks :: "Check list"

definition at_replicas :: "(int \<times> float64) list \<Rightarrow> int \<Rightarrow> float64" where
  "at_replicas m n = (case map_of m n of None \<Rightarrow> 0 | Some x \<Rightarrow> x)"

definition per_worker_text :: "(string \<times> int) list \<Rightarrow> (string \<times> int) list \<Rightarrow> string" where
  "per_worker_text earlier later =
     ''  per-worker decisions:'' @
     concat (map (\<lambda>pod. ''  '' @ pod @ ''='' @ itoa (i64 (counter_of later pod - counter_of earlier pod))) (sortedKeys later)) @ nl"

definition scaling_measure ::
  "'w cluster \<Rightarrow> Env \<Rightarrow> TenantLoad list \<Rightarrow> float64 \<Rightarrow> duration \<Rightarrow> int \<Rightarrow> traffic \<Rightarrow> traffic \<Rightarrow> scaling \<Rightarrow> 'w scene \<Rightarrow>
     (scaling \<times> 'w scene) option" where
  "scaling_measure cl env loads offered dur n tr1 tr2 acc s =
     do {
       s \<leftarrow> warmup loads tr1 s;
       let (earlier, w) = WorkerDecisions cl (s_world s);
           earlier = (case earlier of Inl _ \<Rightarrow> [] | Inr m \<Rightarrow> m);
           s = Printf (''measuring '' @ Duration_String dur @ '' @ '' @ itoa n @ '' replica(s), offered '' @ fixed 0 offered @
             '' rps...'' @ nl) (s\<lparr>s_world := w\<rparr>) in
       do {
         (rs, s) \<leftarrow> Driver_Run None (\<lambda>i s. s) loads (fst tr2) dur (snd tr2) s;
         r \<leftarrow> map_of rs ''tenant-hi'';
         p99 \<leftarrow> Percentile 99 r;
         ic \<leftarrow> invariantCheck env rs dur n 0;
         let tp = fdiv (float_of_int (i64 (tr_Admitted r + tr_Rejected r))) (Seconds dur);
             s = Printf (''  '' @ itoa n @ '' replica(s): '' @ fixed 0 tp @ '' decisions/s, p99 '' @ fixed 1 p99 @
               ''ms, errors '' @ itoa (ErrorCount r) @ nl) s;
             (later, w) = WorkerDecisions cl (s_world s);
             s = s\<lparr>s_world := w\<rparr>;
             s = (case later of Inl _ \<Rightarrow> s | Inr later \<Rightarrow> Printf (per_worker_text earlier later) s);
             ic = ic\<lparr>ck_Name := ck_Name ic @ '' @ '' @ itoa n @ '' replica(s)''\<rparr> in
         Some (acc\<lparr>sg_throughput := put n tp (sg_throughput acc), sg_p99 := put n p99 (sg_p99 acc),
                 sg_invChecks := sg_invChecks acc @ [ic]\<rparr>, s)
       }
     }"

fun scaling_phases ::
  "'w cluster \<Rightarrow> Env \<Rightarrow> TenantLoad list \<Rightarrow> float64 \<Rightarrow> duration \<Rightarrow> (int \<times> traffic \<times> traffic) list \<Rightarrow> scaling \<Rightarrow> 'w scene \<Rightarrow>
     ((scenario_error + scaling) \<times> 'w scene) option" where
  "scaling_phases cl env loads offered dur [] acc s = Some (Inr acc, s)"
| "scaling_phases cl env loads offered dur ((n, tr1, tr2) # ph) acc s =
     setup_then cl env n workerCPUScaling (\<lambda>s.
       let s = Printf (''waiting for all '' @ itoa n @ '' worker endpoint(s) to serve traffic...'' @ nl) s in
       case WaitAllWorkersReachable cl (e_WorkerURL env) (45 * Second) (s_world s) of
         None \<Rightarrow> None
       | Some (Some e, w) \<Rightarrow> Some (Inl (SetupError e), s\<lparr>s_world := w\<rparr>)
       | Some (None, w) \<Rightarrow>
           (case scaling_measure cl env loads offered dur n tr1 tr2 acc (s\<lparr>s_world := w\<rparr>) of
              None \<Rightarrow> None
            | Some (acc, s) \<Rightarrow> scaling_phases cl env loads offered dur ph acc s)) s"

text \<open>\<open>%.2f\<close> of a quotient whose divisor may be zero.\<close>

definition ratio_text :: "float64 \<Rightarrow> float64 \<Rightarrow> string" where
  "ratio_text x y = (if y = 0 then (if x = 0 then ''NaN'' else ''+Inf'') else fixed 2 (fdiv x y))"

definition scaling_checks :: "float64 \<Rightarrow> scaling \<Rightarrow> Check list" where
  "scaling_checks offered acc =
     (let t1 = at_replicas (sg_throughput acc) 1; t2 = at_replicas (sg_throughput acc) 2; t4 = at_replicas (sg_throughput acc) 4 in
      [check ''1 replica is saturated (test validity)'' (t1 \<le> fmul (rnd (9 / 10)) offered)
         (fixed 0 t1 @ ''/s achieved vs '' @ fixed 0 offered @ ''/s offered; if this fails, raise the offered rate''),
       check ''2 replicas beat 1 by >=1.3x'' (fmul (rnd (13 / 10)) t1 \<le> t2)
         (fixed 0 t2 @ ''/s vs '' @ fixed 0 t1 @ ''/s ('' @ ratio_text t2 t1 @ ''x)''),
       check ''4 replicas beat 1 by >=2.0x'' (fmul 2 t1 \<le> t4)
         (fixed 0 t4 @ ''/s vs '' @ fixed 0 t1 @ ''/s ('' @ ratio_text t4 t1 @ ''x)'')] @ sg_invChecks acc)"

definition scaling_table :: "scaling \<Rightarrow> string" where
  "scaling_table acc =
     nl @ ''replicas  decisions/s   p99(ms)'' @ nl @
     concat (map (\<lambda>n. pad_left 8 (itoa n) @ ''  '' @ pad_left 11 (fixed 0 (at_replicas (sg_throughput acc) n)) @ ''  '' @
       pad_left 8 (fixed 1 (at_replicas (sg_p99 acc) n)) @ nl) [1, 2, 4])"

definition runScaling ::
  "'w cluster \<Rightarrow> Env \<Rightarrow> traffic \<times> traffic \<Rightarrow> traffic \<times> traffic \<Rightarrow> traffic \<times> traffic \<Rightarrow> 'w scene \<Rightarrow> 'w outcome" where
  "runScaling cl env tr1 tr2 tr4 s =
     (let offered = ov env ''rate'' 2500;
          dur = whole_seconds (ov env ''duration'' 25);
          loads = [load ''tenant-hi'' offered (int_of_float (ov env ''concurrency'' 200)) 0] in
      case scaling_phases cl env loads offered dur [(1, tr1), (2, tr2), (4, tr4)]
          \<lparr>sg_throughput = [], sg_p99 = [], sg_invChecks = []\<rparr> s of
        None \<Rightarrow> None
      | Some (Inl e, s) \<Rightarrow> Some (Inl e, s)
      | Some (Inr acc, s) \<Rightarrow>
          let s = Printf (scaling_table acc) s;
              (e, w) = Scale cl workerName 2 (s_world s);
              s = s\<lparr>s_world := w\<rparr> in
          (case e of
             Some e \<Rightarrow> Some (Inl (SetupError e), s)
           | None \<Rightarrow> Some (Inr (scaling_checks offered acc), s)))"

definition steadyLoads :: "Env \<Rightarrow> TenantLoad list" where
  "steadyLoads env =
     (let (la, lb, lc) = limits (e_Cfg env) in
      [load ''tenant-a'' (ov env ''rate_a'' (fmul (rnd (4 / 5)) la)) 16 0,
       load ''tenant-b'' (ov env ''rate_b'' (fmul (rnd (4 / 5)) lb)) 8 0,
       load ''tenant-c'' (ov env ''rate_c'' (fmul (rnd (4 / 5)) lc)) 4 0])"

text \<open>The goroutines of the failure scenarios. One that does not return leaves nothing.\<close>

fun run_task :: "'w cluster \<Rightarrow> Env \<Rightarrow> task \<Rightarrow> 'w scene \<Rightarrow> 'w scene option" where
  "run_task cl env (KillWorker sec) s =
     (let ((victim, err), w) = KillOneWorkerNoReplacement cl (s_world s); s = s\<lparr>s_world := w\<rparr> in
      Some (case err of
              Some e \<Rightarrow> Printf (''!! kill failed: '' @ error_text (e_showFloat env) e @ nl) s
            | None \<Rightarrow> Printf (''>>> t='' @ itoa sec @ ''s: force-killed worker pod '' @ victim @
                '' (replicas now 1, no replacement)'' @ nl) s))"
| "run_task cl env (KillCoord sec) s =
     (let (err, w) = KillCoordinator cl (s_world s); s = s\<lparr>s_world := w\<rparr> in
      Some (case err of
              Some e \<Rightarrow> Printf (''!! coordinator kill failed: '' @ error_text (e_showFloat env) e @ nl) s
            | None \<Rightarrow> Printf (''>>> t='' @ itoa sec @ ''s: coordinator force-killed (scaled to 0)'' @ nl) s))"
| "run_task cl env RestoreCoord s =
     (case RestoreCoordinator cl (s_world s) of
        None \<Rightarrow> None
      | Some (err, w) \<Rightarrow>
          let s = s\<lparr>s_world := w\<rparr> in
          Some (case err of
                  Some e \<Rightarrow> Printf (''!! coordinator restore failed: '' @ error_text (e_showFloat env) e @ nl) s
                | None \<Rightarrow> Printf (''>>> coordinator pod ready again (workers reconnect once kube-proxy programs the new endpoint, ~10s)'' @ nl) s))"

definition background :: "'w cluster \<Rightarrow> Env \<Rightarrow> nat \<Rightarrow> 'w scene \<Rightarrow> 'w scene" where
  "background cl env i s =
     (if i < length (s_tasks s)
      then case run_task cl env (s_tasks s ! i) (s\<lparr>s_tasks := take i (s_tasks s) @ drop (Suc i) (s_tasks s)\<rparr>) of
             None \<Rightarrow> s
           | Some s' \<Rightarrow> s'
      else s)"

definition start_task :: "task \<Rightarrow> 'w scene \<Rightarrow> 'w scene" where
  "start_task t s = s\<lparr>s_tasks := s_tasks s @ [t]\<rparr>"

fun sum_windows :: "int \<Rightarrow> int \<Rightarrow> (SecBucket \<Rightarrow> int) \<Rightarrow> Results \<Rightarrow> float64 \<Rightarrow> float64 option" where
  "sum_windows from to metric [] acc = Some acc"
| "sum_windows from to metric ((t, r) # rs) acc =
     (case WindowRate from to metric r of
        None \<Rightarrow> None
      | Some x \<Rightarrow> sum_windows from to metric rs (fadd acc x))"

definition errors_at :: "(int \<Rightarrow> bool) \<Rightarrow> Results \<Rightarrow> int" where
  "errors_at P rs =
     foldl (\<lambda>n (t, r). foldl (\<lambda>n (i, b). if P (int i) then i64 (n + sb_Errors b) else n) n (enumerate 0 (Buckets r))) 0 rs"

definition total_errors :: "Results \<Rightarrow> int" where
  "total_errors rs = foldl (\<lambda>n (t, r). i64 (n + ErrorCount r)) 0 rs"

definition worker_kill_checks :: "Env \<Rightarrow> duration \<Rightarrow> int \<Rightarrow> Results \<Rightarrow> Check list option" where
  "worker_kill_checks env dur killAt rs =
     do {
       pre \<leftarrow> sum_windows 5 (i64 (killAt - 1)) sb_Admitted rs 0;
       post \<leftarrow> sum_windows (i64 (killAt + 10)) (i64 (int_of_float (Seconds dur) - 1)) sb_Admitted rs 0;
       inv \<leftarrow> invariantCheck env rs dur 2 0;
       let errsOutside = errors_at (\<lambda>i. i < i64 (killAt - 1) \<or> i64 (killAt + 6) < i) rs;
           sent = totalSent rs;
           totalErrs = total_errors rs in
       Some
         [check ''recovers to pre-kill admission rate on 1 worker'' (within_tol post pre (rnd (1 / 10)))
            (''pre '' @ fixed 1 pre @ ''/s vs post '' @ fixed 1 post @ ''/s (tolerance 10%)''),
          check ''disturbance is temporary: errors only near the kill'' (pct errsOutside sent \<le> rnd (1 / 5))
            (itoa errsOutside @ '' errors outside t=['' @ itoa (i64 (killAt - 1)) @ '','' @ itoa (i64 (killAt + 6)) @ '']s''),
          check ''total errors are a small fraction'' (pct totalErrs sent \<le> 2)
            (itoa totalErrs @ '' of '' @ itoa sent @ '' requests ('' @ fixed 2 (pct totalErrs sent) @ ''%)''),
          inv]
     }"

definition runWorkerKill :: "'w cluster \<Rightarrow> Env \<Rightarrow> traffic \<Rightarrow> traffic \<Rightarrow> 'w scene \<Rightarrow> 'w outcome" where
  "runWorkerKill cl env tr1 tr2 =
     setup_then cl env 2 workerCPUDefault (\<lambda>s.
       let loads = steadyLoads env in
       do {
         s \<leftarrow> warmup loads tr1 s;
         let killAt = int_of_float (ov env ''kill_at'' 15);
             dur = whole_seconds (ov env ''duration'' 45);
             s = Printf (''measuring '' @ Duration_String dur @
               '': all tenants at 80% of their limits; killing 1 of 2 workers (no replacement) at t='' @ itoa killAt @ ''s'' @ nl) s;
             hook = (\<lambda>sec rs s. let s = progress sec rs s in if sec = killAt then start_task (KillWorker sec) s else s) in
         do {
           (rs, s) \<leftarrow> Driver_Run (Some hook) (background cl env) loads (fst tr2) dur (snd tr2) s;
           table \<leftarrow> renderTable rs;
           checks \<leftarrow> worker_kill_checks env dur killAt rs;
           let s = Printf (table @ renderChart ''admitted/sec (all tenants)'' (sumSeries rs rs sb_Admitted) @
                     renderChart ''errors/sec (all tenants)'' (sumSeries rs rs sb_Errors)) s in
           Some (Inr checks, s\<lparr>s_world := snd (Scale cl workerName 2 (s_world s))\<rparr>)
         }
       })"

fun recover_from :: "float64 \<Rightarrow> int \<Rightarrow> int list \<Rightarrow> int" where
  "recover_from base i [] = -1"
| "recover_from base i (v # vs) =
     (if fmul (rnd (9 / 10)) base \<le> float_of_int v then i else recover_from base (i + 1) vs)"

text \<open>The search starts at \<open>restoreAt\<close>; a negative index panics.\<close>

definition recoverSec :: "float64 \<Rightarrow> int \<Rightarrow> int list \<Rightarrow> int option" where
  "recoverSec base restoreAt adm =
     (if restoreAt < int (length adm)
      then (if restoreAt < 0 then None else Some (recover_from base restoreAt (drop (nat restoreAt) adm)))
      else Some (-1))"

definition coordinator_kill_checks ::
  "Env \<Rightarrow> duration \<Rightarrow> TenantLoad list \<Rightarrow> int \<Rightarrow> int \<Rightarrow> Results \<Rightarrow> (string \<times> Check list) option" where
  "coordinator_kill_checks env dur loads killAt restoreAt rs =
     (let durS = int_of_float (Seconds dur) in
      do {
        base \<leftarrow> sum_windows 3 (i64 (killAt - 1)) sb_Admitted rs 0;
        closed \<leftarrow> sum_windows (i64 (killAt + 5)) (i64 (restoreAt - 2)) sb_Admitted rs 0;
        closedRej \<leftarrow> sum_windows (i64 (killAt + 5)) (i64 (restoreAt - 2)) sb_Rejected rs 0;
        recov \<leftarrow> sum_windows (i64 (durS - 11)) (i64 (durS - 1)) sb_Admitted rs 0;
        rsec \<leftarrow> recoverSec base restoreAt (sumSeries rs rs sb_Admitted);
        atKill \<leftarrow> sumSeriesAt rs killAt;
        afterKill \<leftarrow> sumSeriesAt rs (i64 (killAt + 1));
        inv \<leftarrow> invariantCheck env rs dur 2 1;
        let errsClosed = errors_at (\<lambda>i. i64 (killAt + 5) \<le> i \<and> i < i64 (restoreAt - 2)) rs;
            offered = foldl (\<lambda>x l. fadd x (tl_RPS l)) 0 loads in
        Some
          (if 0 \<le> rsec
           then nl @ ''recovered to >=90% of baseline at t='' @ itoa rsec @ ''s ('' @ itoa (i64 (rsec - restoreAt)) @ ''s after restore began)'' @ nl
           else '''',
           [check ''workers keep admitting briefly after the kill (leased budget)'' (0 < atKill \<or> 0 < afterKill)
              (''admitted at t='' @ itoa killAt @ ''..'' @ itoa (i64 (killAt + 1)) @ ''s: '' @ itoa atKill @ '', '' @ itoa afterKill),
            check ''then fails closed: admissions ~0 while coordinator is down'' (closed \<le> fmul (rnd (1 / 20)) base)
              (fixed 1 closed @ ''/s during outage vs '' @ fixed 1 base @ ''/s baseline''),
            check ''fail-closed means clean 429s, not errors'' (fmul (rnd (4 / 5)) offered \<le> closedRej \<and> errsClosed = 0)
              (fixed 1 closedRej @ '' rejects/s (offered '' @ fixed 0 offered @ ''/s), '' @ itoa errsClosed @ '' errors during outage''),
            check ''recovers to baseline after coordinator returns'' (0 \<le> rsec \<and> within_tol recov base (rnd (1 / 10)))
              (''final-10s rate '' @ fixed 1 recov @ ''/s vs '' @ fixed 1 base @ ''/s baseline (tolerance 10%)''),
            inv])
      })"

definition runCoordinatorKill :: "'w cluster \<Rightarrow> Env \<Rightarrow> traffic \<Rightarrow> traffic \<Rightarrow> 'w scene \<Rightarrow> 'w outcome" where
  "runCoordinatorKill cl env tr1 tr2 =
     setup_then cl env 2 workerCPUDefault (\<lambda>s.
       let loads = steadyLoads env in
       do {
         s \<leftarrow> warmup loads tr1 s;
         let killAt = int_of_float (ov env ''kill_at'' 10);
             restoreAt = int_of_float (ov env ''restore_at'' 25);
             dur = whole_seconds (ov env ''duration'' 60);
             s = Printf (''measuring '' @ Duration_String dur @ '': tenants at 80% of limits; killing coordinator at t='' @ itoa killAt @
               ''s, restoring at t='' @ itoa restoreAt @ ''s'' @ nl) s;
             hook = (\<lambda>sec rs s. let s = progress sec rs s in
                       if sec = killAt then start_task (KillCoord sec) s
                       else if sec = restoreAt then start_task RestoreCoord s else s) in
         do {
           (rs, s) \<leftarrow> Driver_Run (Some hook) (background cl env) loads (fst tr2) dur (snd tr2) s;
           table \<leftarrow> renderTable rs;
           (recovered, checks) \<leftarrow> coordinator_kill_checks env dur loads killAt restoreAt rs;
           let s = Printf (table @ renderChart ''admitted/sec (all tenants)'' (sumSeries rs rs sb_Admitted) @
                     renderChart ''rejected/sec (all tenants)'' (sumSeries rs rs sb_Rejected) @ recovered) s in
           (case RestoreCoordinator cl (s_world s) of
              None \<Rightarrow> None
            | Some (e, w) \<Rightarrow> Some (Inr checks, s\<lparr>s_world := w\<rparr>))
         }
       })"

section \<open>The registry\<close>

datatype scenario_run = Baseline | HotTenant | Scaling | WorkerKill | CoordinatorKill

record Scenario =
  sc_Name :: string
  sc_Description :: string
  sc_Run :: scenario_run

definition Scenarios :: "Scenario list" where
  "Scenarios =
     [\<lparr>sc_Name = ''baseline'', sc_Description =
         ''Normal operation across 2 concurrent workers: tenant-a offers 2x its limit '' @
         ''in tokens as a mixed-cost workload (cheap cost-1 requests plus expensive cost-5 ones) '' @
         ''and is admitted at exactly its token limit (excess gets 429); tenant-b sends 0.5x its '' @
         ''limit and is fully admitted. Also verifies workers lease budget in batches instead of '' @
         ''consulting the coordinator per request.'', sc_Run = Baseline\<rparr>,
      \<lparr>sc_Name = ''hot-tenant'', sc_Description =
         ''Tenant isolation: tenant-a floods at 20x its limit while tenant-b and '' @
         ''tenant-c send below their limits. The quiet tenants keep full admission, low p99 '' @
         ''latency, and no errors; the hot tenant still gets its configured share.'', sc_Run = HotTenant\<rparr>,
      \<lparr>sc_Name = ''scaling'', sc_Description =
         ''Horizontal scaling: the same high offered load is driven at 1, 2, and 4 '' @
         ''worker replicas (workers are CPU-capped at '' @ workerCPUScaling @ '' to make saturation '' @
         ''cheap to reach). Max decision throughput must grow with the replica count.'', sc_Run = Scaling\<rparr>,
      \<lparr>sc_Name = ''worker-kill'', sc_Description =
         ''Fault tolerance, worker: mid-run one of 2 worker pods is killed abruptly '' @
         ''with no replacement. Expect a brief error blip while the Service converges, then '' @
         ''steady state on the surviving worker; stranded leased budget is bounded and '' @
         ''recovered within one lease duration.'', sc_Run = WorkerKill\<rparr>,
      \<lparr>sc_Name = ''coordinator-kill'', sc_Description =
         ''Fault tolerance, coordinator: mid-run the coordinator is killed. Workers '' @
         ''keep admitting from leased budget for a short window, then fail closed (clean 429s, '' @
         ''not errors). When the coordinator returns, admission recovers to the configured '' @
         ''limits.'', sc_Run = CoordinatorKill\<rparr>]"

fun find_scenario :: "Scenario list \<Rightarrow> string \<Rightarrow> Scenario option" where
  "find_scenario [] name = None"
| "find_scenario (sc # scs) name = (if sc_Name sc = name then Some sc else find_scenario scs name)"

definition FindScenario :: "string \<Rightarrow> Scenario option" where
  "FindScenario name = find_scenario Scenarios name"

text \<open>The traffic of the up to six runs a scenario makes.\<close>

record course =
  tr_warm1 :: traffic
  tr_meas1 :: traffic
  tr_warm2 :: traffic
  tr_meas2 :: traffic
  tr_warm4 :: traffic
  tr_meas4 :: traffic

fun run_scenario :: "scenario_run \<Rightarrow> 'w cluster \<Rightarrow> Env \<Rightarrow> course \<Rightarrow> 'w scene \<Rightarrow> 'w outcome" where
  "run_scenario Baseline cl env tr s = runBaseline cl env (tr_warm1 tr) (tr_meas1 tr) s"
| "run_scenario HotTenant cl env tr s = runHotTenant cl env (tr_warm1 tr) (tr_meas1 tr) s"
| "run_scenario Scaling cl env tr s =
     runScaling cl env (tr_warm1 tr, tr_meas1 tr) (tr_warm2 tr, tr_meas2 tr) (tr_warm4 tr, tr_meas4 tr) s"
| "run_scenario WorkerKill cl env tr s = runWorkerKill cl env (tr_warm1 tr) (tr_meas1 tr) s"
| "run_scenario CoordinatorKill cl env tr s = runCoordinatorKill cl env (tr_warm1 tr) (tr_meas1 tr) s"

section \<open>What the universal check decides\<close>

text \<open>The bound of the check, exactly.\<close>

definition exact_bound :: "Config \<Rightarrow> duration \<Rightarrow> int \<Rightarrow> int \<Rightarrow> rat \<Rightarrow> rat" where
  "exact_bound cfg dur workers restarts rate =
     rate * secs dur + rate + 6 / 5 * of_int workers * of_int (Size (c_Lease cfg)) + of_int restarts * rate"

definition lease_slack :: "Config \<Rightarrow> int \<Rightarrow> float64" where
  "lease_slack cfg workers = fmul (fmul (float_of_int workers) (rnd (6 / 5))) (float_of_int (Size (c_Lease cfg)))"

definition float_bound :: "Config \<Rightarrow> duration \<Rightarrow> int \<Rightarrow> int \<Rightarrow> rat \<Rightarrow> float64" where
  "float_bound cfg dur workers restarts rate =
     fadd (fadd (fadd (fmul rate (Seconds dur)) (fmul rate BurstSeconds)) (lease_slack cfg workers))
       (fmul (float_of_int restarts) (fmul rate BurstSeconds))"

lemma rnd_bounds:
  assumes "0 \<le> x"
  shows "x * (1 - 1 / 2 ^ 53) - tiny64 \<le> rnd x" "rnd x \<le> x * (1 + 1 / 2 ^ 53) + tiny64" "0 \<le> rnd x"
  by (rule rnd_lower [OF assms], rule rnd_upper [OF assms], rule rnd_nonneg [OF assms])

lemma rnd_rel_mult:
  assumes "1 \<le> x" and "x * (1 - e) \<le> y" and "y \<le> x * (1 + e)" and "0 \<le> e" and "e \<le> 1 / 2"
    and d: "e + 1 / 2 ^ 51 \<le> d"
  shows "x * (1 - d) \<le> rnd y" "rnd y \<le> x * (1 + d)"
proof -
  define z k where "z = x * e" and "k = x * d"
  have "x * e \<le> x * (1 / 2)" using assms by (intro mult_left_mono) auto
  then have e2: "z \<le> x / 2" by (simp add: z_def)
  have "x * (e + 1 / 2 ^ 51) \<le> x * d" using assms by (intro mult_left_mono) auto
  then have d2: "z + x / 2 ^ 51 \<le> k" unfolding z_def k_def by (simp add: distrib_left)
  have y: "x - z \<le> y" "y \<le> x + z" using assms(2,3) unfolding z_def by (simp_all add: algebra_simps)
  have y0: "0 \<le> y" using y(1) e2 assms(1) by simp
  note r = rnd_bounds [OF y0] and t = tiny64_small
  have "x - k \<le> rnd y" "rnd y \<le> x + k" using r t assms(1) y e2 d2 by (simp_all add: field_simps)
  then show "x * (1 - d) \<le> rnd y" "rnd y \<le> x * (1 + d)" unfolding k_def by (simp_all add: algebra_simps)
qed

lemma lease_slack_near:
  assumes "1 \<le> workers" and "workers \<le> 2 ^ 53" and "1 \<le> Size (c_Lease cfg)" and "Size (c_Lease cfg) \<le> 2 ^ 53"
  defines "L \<equiv> 6 / 5 * of_int workers * of_int (Size (c_Lease cfg)) :: rat"
  shows "L * (1 - 1 / 2 ^ 49) \<le> lease_slack cfg workers" "lease_slack cfg workers \<le> L * (1 + 1 / 2 ^ 49)" "1 \<le> L"
proof -
  let ?W = "of_int workers :: rat" and ?S = "of_int (Size (c_Lease cfg)) :: rat"
  have W: "1 \<le> ?W" "float_of_int workers = ?W" and S: "1 \<le> ?S" "float_of_int (Size (c_Lease cfg)) = ?S"
    using assms by (simp_all add: float_of_int_exact)
  have c: "6 / 5 * (1 - 1 / 2 ^ 51) \<le> rnd (6 / 5)" "rnd (6 / 5) \<le> 6 / 5 * (1 + 1 / 2 ^ 51)"
    by (rule rnd_rel_mult [of "6 / 5" 0]; simp)+
  let ?w = "rnd (?W * rnd (6 / 5))"
  have "?W * (6 / 5 * (1 - 1 / 2 ^ 51)) \<le> ?W * rnd (6 / 5)" "?W * rnd (6 / 5) \<le> ?W * (6 / 5 * (1 + 1 / 2 ^ 51))"
    using W c by (intro mult_left_mono; simp)+
  then have w: "?W * (6 / 5) * (1 - 1 / 2 ^ 50) \<le> ?w" "?w \<le> ?W * (6 / 5) * (1 + 1 / 2 ^ 50)"
    using W by (intro rnd_rel_mult [of _ "1 / 2 ^ 51"]; simp add: algebra_simps)+
  have "?W * (6 / 5) * (1 - 1 / 2 ^ 50) * ?S \<le> ?w * ?S" "?w * ?S \<le> ?W * (6 / 5) * (1 + 1 / 2 ^ 50) * ?S"
    using S w by (intro mult_right_mono; simp)+
  moreover have "?W * (6 / 5) * (1 - 1 / 2 ^ 50) * ?S = L * (1 - 1 / 2 ^ 50)"
    "?W * (6 / 5) * (1 + 1 / 2 ^ 50) * ?S = L * (1 + 1 / 2 ^ 50)" by (simp_all add: L_def)
  moreover have WS: "1 * 1 \<le> ?W * ?S" using W S by (intro mult_mono) auto
  then show "1 \<le> L" by (simp add: L_def)
  ultimately show "L * (1 - 1 / 2 ^ 49) \<le> lease_slack cfg workers" "lease_slack cfg workers \<le> L * (1 + 1 / 2 ^ 49)"
    unfolding lease_slack_def fmul_def W(2) S(2) by (intro rnd_rel_mult [of _ "1 / 2 ^ 50"]; simp)+
qed

lemma float_bound_near:
  assumes "1 \<le> workers" and "workers \<le> 2 ^ 53" and "1 \<le> Size (c_Lease cfg)" and "Size (c_Lease cfg) \<le> 2 ^ 53"
    and "0 \<le> restarts" and "restarts \<le> 2 ^ 53" and "0 \<le> dur" and "in_i64 dur" and "0 < rate" and "is_float64 rate"
  shows "exact_bound cfg dur workers restarts rate * (1 - 1 / 2 ^ 46) \<le> float_bound cfg dur workers restarts rate"
    and "float_bound cfg dur workers restarts rate \<le> exact_bound cfg dur workers restarts rate * (1 + 1 / 2 ^ 46)"
proof -
  define P where "P = rate * secs dur"
  define L :: rat where "L = 6 / 5 * of_int workers * of_int (Size (c_Lease cfg))"
  define C where "C = of_int restarts * rate"
  define l where "l = lease_slack cfg workers"
  define p where "p = fmul rate (Seconds dur)"
  define c where "c = rnd C"
  define s1 where "s1 = rnd (p + rate)"
  define s2 where "s2 = rnd (s1 + l)"
  have burst: "fmul rate BurstSeconds = rate" using assms(10) by (simp add: fmul_def BurstSeconds_def rnd_id)
  have R: "float_of_int restarts = of_int restarts" using assms by (simp add: float_of_int_exact)
  have b: "float_bound cfg dur workers restarts rate = rnd (s2 + c)"
    unfolding float_bound_def burst R by (simp add: p_def c_def C_def s1_def s2_def l_def fadd_def fmul_def)
  have B: "exact_bound cfg dur workers restarts rate = P + rate + L + C" by (simp add: exact_bound_def P_def L_def C_def)
  have P0: "0 \<le> P" and C0: "0 \<le> C" using assms by (auto simp: P_def C_def)
  have comm: "p = fmul (Seconds dur) rate" by (simp add: p_def fmul_def mult.commute)
  have p0: "0 \<le> p" and p1: "p \<le> P * (1 + 1 / 2 ^ 49) + tiny64" and p2: "P * (1 - 1 / 2 ^ 49) - tiny64 \<le> p"
    using increment_bounds [OF assms(7,8), of rate] increment_lower [OF assms(7,8), of rate] assms(9)
    by (simp_all add: comm P_def mult_ac)
  note l = lease_slack_near [OF assms(1-4), folded L_def l_def]
  have l0: "0 \<le> l" using l(1,3) by (simp add: algebra_simps)
  note c = rnd_bounds [OF C0, folded c_def]
  have "0 \<le> p + rate" using p0 assms(9) by simp
  note s1 = rnd_bounds [OF this, folded s1_def]
  have "0 \<le> s1 + l" using s1(3) l0 by simp
  note s2 = rnd_bounds [OF this, folded s2_def]
  have "0 \<le> s2 + c" using s2(3) c(3) by simp
  note f = rnd_bounds [OF this, folded b]
  note facts = p1 p2 l c s1 s2 f P0 C0 assms(9) tiny64_small tiny64_nonneg
  show "exact_bound cfg dur workers restarts rate * (1 - 1 / 2 ^ 46) \<le> float_bound cfg dur workers restarts rate"
    unfolding B using facts by (simp add: field_simps)
  show "float_bound cfg dur workers restarts rate \<le> exact_bound cfg dur workers restarts rate * (1 + 1 / 2 ^ 46)"
    unfolding B using facts by (simp add: field_simps)
qed

definition tenant_within :: "Config \<Rightarrow> Results \<Rightarrow> (rat \<Rightarrow> rat) \<Rightarrow> string \<Rightarrow> bool" where
  "tenant_within cfg rs bound t \<longleftrightarrow>
     (\<forall>r rate. map_of rs t = Some r \<longrightarrow> map_of (c_Tenants cfg) t = Some rate \<longrightarrow> of_int (tr_AdmittedTokens r) \<le> bound rate)"

lemma invariant_loop_ok:
  assumes "\<forall>t \<in> set names. \<exists>r. map_of rs t = Some r \<and> \<bar>tr_AdmittedTokens r\<bar> \<le> 2 ^ 53"
  shows "\<exists>ok' d'. invariant_loop cfg rs dur (lease_slack cfg workers) restarts names (ok, d) = Some (ok', d') \<and>
    ok' = (ok \<and> list_all (tenant_within cfg rs (float_bound cfg dur workers restarts)) names)"
  using assms
proof (induction names arbitrary: ok d)
  case (Cons t names)
  obtain r where r: "map_of rs t = Some r" "\<bar>tr_AdmittedTokens r\<bar> \<le> 2 ^ 53" using Cons.prems by auto
  have f: "float_of_int (tr_AdmittedTokens r) = of_int (tr_AdmittedTokens r)" by (rule float_of_int_exact [OF r(2)])
  have IH: "\<exists>ok' d'. invariant_loop cfg rs dur (lease_slack cfg workers) restarts names (ok, d) = Some (ok', d') \<and>
      ok' = (ok \<and> list_all (tenant_within cfg rs (float_bound cfg dur workers restarts)) names)" for ok d
    using Cons by simp
  show ?case
  proof (cases "map_of (c_Tenants cfg) t")
    case None
    then have "tenant_within cfg rs (float_bound cfg dur workers restarts) t" by (simp add: tenant_within_def)
    then show ?thesis using IH [of ok d] None by simp
  next
    case (Some rate)
    have "tenant_within cfg rs (float_bound cfg dur workers restarts) t \<longleftrightarrow>
        of_int (tr_AdmittedTokens r) \<le> float_bound cfg dur workers restarts rate"
      using Some r(1) by (simp add: tenant_within_def)
    then show ?thesis
      using IH [of "if float_bound cfg dur workers restarts rate < of_int (tr_AdmittedTokens r) then False else ok"] Some r(1)
      by (auto simp: Let_def f not_less simp flip: float_bound_def)
  qed
qed simp

text \<open>C31. The universal check never panics, and it decides the intended bound up to the rounding of float64: if
  it passes, no configured tenant was admitted more than rate times window, one burst, one burst per restart of
  the coordinator and the slack for leased budget (times \<open>1 + 2 ^ -46\<close>); and if every tenant stayed within this
  bound (times \<open>1 - 2 ^ -46\<close>), it passes.\<close>

theorem invariantCheck_sound:
  assumes "1 \<le> workers" and "workers \<le> 2 ^ 53" and "1 \<le> Size (c_Lease (e_Cfg env))" and "Size (c_Lease (e_Cfg env)) \<le> 2 ^ 53"
    and "0 \<le> restarts" and "restarts \<le> 2 ^ 53" and "0 \<le> dur" and "in_i64 dur"
    and rates: "\<forall>(t, rate) \<in> set (c_Tenants (e_Cfg env)). 0 < rate \<and> is_float64 rate"
    and toks: "\<forall>(t, r) \<in> set rs. \<bar>tr_AdmittedTokens r\<bar> \<le> 2 ^ 53"
  shows "\<exists>c. invariantCheck env rs dur workers restarts = Some c \<and>
    (ck_OK c \<longrightarrow> (\<forall>t. tenant_within (e_Cfg env) rs
       (\<lambda>rate. exact_bound (e_Cfg env) dur workers restarts rate * (1 + 1 / 2 ^ 46)) t)) \<and>
    ((\<forall>t. tenant_within (e_Cfg env) rs
       (\<lambda>rate. exact_bound (e_Cfg env) dur workers restarts rate * (1 - 1 / 2 ^ 46)) t) \<longrightarrow> ck_OK c)"
proof -
  let ?cfg = "e_Cfg env"
  let ?fb = "float_bound ?cfg dur workers restarts" and ?B = "exact_bound ?cfg dur workers restarts"
  have near: "?B rate * (1 - 1 / 2 ^ 46) \<le> ?fb rate" "?fb rate \<le> ?B rate * (1 + 1 / 2 ^ 46)"
    if "map_of (c_Tenants ?cfg) t = Some rate" for t rate
  proof -
    have "0 < rate \<and> is_float64 rate" using rates map_of_SomeD [OF that] by blast
    then show "?B rate * (1 - 1 / 2 ^ 46) \<le> ?fb rate" "?fb rate \<le> ?B rate * (1 + 1 / 2 ^ 46)"
      using float_bound_near [OF assms(1-8)] by blast+
  qed
  have "\<exists>r. map_of rs t = Some r \<and> \<bar>tr_AdmittedTokens r\<bar> \<le> 2 ^ 53" if t: "t \<in> set (TenantsSorted rs)" for t
  proof -
    have "t \<in> fst ` set rs" using t by (simp add: TenantsSorted_def)
    then obtain r where "map_of rs t = Some r" by (metis map_of_eq_None_iff option.exhaust)
    then show ?thesis using toks by (auto dest: map_of_SomeD)
  qed
  then obtain ok d where l: "invariant_loop ?cfg rs dur (lease_slack ?cfg workers) restarts (TenantsSorted rs) (True, '''') = Some (ok, d)"
      "ok = list_all (tenant_within ?cfg rs ?fb) (TenantsSorted rs)"
    using invariant_loop_ok [of "TenantsSorted rs" rs ?cfg dur workers restarts True "''''"] by blast
  have all: "ok \<longleftrightarrow> (\<forall>t. tenant_within ?cfg rs ?fb t)"
  proof -
    have "tenant_within ?cfg rs ?fb t" if "t \<notin> set (TenantsSorted rs)" for t
      using that by (auto simp: TenantsSorted_def tenant_within_def map_of_eq_None_iff [symmetric])
    then show ?thesis unfolding l(2) list_all_iff by blast
  qed
  obtain c where c: "invariantCheck env rs dur workers restarts = Some c" "ck_OK c = ok"
    using l(1) by (simp add: invariantCheck_def lease_slack_def check_def Let_def)
  have "tenant_within ?cfg rs ?fb t \<Longrightarrow> tenant_within ?cfg rs (\<lambda>rate. ?B rate * (1 + 1 / 2 ^ 46)) t"
    and "tenant_within ?cfg rs (\<lambda>rate. ?B rate * (1 - 1 / 2 ^ 46)) t \<Longrightarrow> tenant_within ?cfg rs ?fb t" for t
    using near [of t] unfolding tenant_within_def by (blast intro: order_trans)+
  then show ?thesis using c all by blast
qed

definition sample_env :: Env where
  "sample_env = \<lparr>e_Kube = \<lparr>k_ns = ''ratelimiter'', k_image = ''ratelim''\<rparr>, e_WorkerURL = ''http://ratelim-workers:8080'',
     e_Cfg = \<lparr>c_Lease = \<lparr>Size = 10, DurationMs = 2000\<rparr>, c_Tenants = [(''tenant-a'', 100), (''tenant-b'', 50)]\<rparr>,
     e_CoordURL = ''http://coordinator:8081'', e_Overrides = [], e_showFloat = (\<lambda>_. ''0'')\<rparr>"

theorem invariantCheck_sound_witness:
  "\<exists>c. invariantCheck sample_env [(''tenant-a'', zero_result\<lparr>tr_AdmittedTokens := 3100\<rparr>)] 30000000000 2 0 = Some c \<and>
     ck_OK c"
proof -
  let ?rs = "[(''tenant-a'', zero_result\<lparr>tr_AdmittedTokens := 3100\<rparr>)]"
  have "\<exists>c. invariantCheck sample_env ?rs 30000000000 2 0 = Some c \<and>
    ((\<forall>t. tenant_within (e_Cfg sample_env) ?rs
       (\<lambda>rate. exact_bound (e_Cfg sample_env) 30000000000 2 0 rate * (1 - 1 / 2 ^ 46)) t) \<longrightarrow> ck_OK c)"
    using invariantCheck_sound [of 2 sample_env 0 30000000000 ?rs]
    by (auto simp: sample_env_def in_i64_def min_i64_def max_i64_def is_float64_def)
  moreover have "tenant_within (e_Cfg sample_env) ?rs
       (\<lambda>rate. exact_bound (e_Cfg sample_env) 30000000000 2 0 rate * (1 - 1 / 2 ^ 46)) t" for t
    by (simp add: tenant_within_def sample_env_def exact_bound_def secs_def)
  ultimately show ?thesis by blast
qed

section \<open>No panics\<close>

text \<open>Traffic of a run: a complete course of its events, with no more of them than the floats of \<open>Percentile\<close>
  can count. \<open>hooked\<close> tells whether the run has an \<open>onSecond\<close>.\<close>

definition traffic_ok :: "TenantLoad list \<Rightarrow> bool \<Rightarrow> duration \<Rightarrow> traffic \<Rightarrow> bool" where
  "traffic_ok loads hooked dur tr \<longleftrightarrow>
     complete_course loads (fst tr) dur (snd tr) (drive_init loads hooked (fst tr)) \<and> length (snd tr) \<le> 2 ^ 53"

definition slots_ok :: "TenantLoad list \<Rightarrow> bool" where
  "slots_ok loads \<longleftrightarrow> list_all (\<lambda>l. 0 \<le> tl_Concurrency l) loads"

definition results_ok :: "TenantLoad list \<Rightarrow> Results \<Rightarrow> bool" where
  "results_ok loads rs \<longleftrightarrow>
     fst ` set rs = tl_Tenant ` set loads \<and> (\<forall>t r. map_of rs t = Some r \<longrightarrow> length (latencies r) \<le> 2 ^ 53)"

lemma length_outcomes: "length (outcomes loads t es) \<le> length es"
proof (induction es)
  case (Cons e es)
  have "length (outcome_of loads t e) \<le> 1" by (cases e) auto
  then show ?case using Cons by (simp add: outcomes_def)
qed (simp add: outcomes_def)

lemma run_defined:
  assumes "traffic_ok loads (hook \<noteq> None) dur tr" and "slots_ok loads"
  obtains rs s' where "Driver_Run hook bg loads (fst tr) dur (snd tr) s = Some (rs, s')" and "results_ok loads rs"
proof -
  have len: "length (snd tr) \<le> 2 ^ 53" using assms by (simp add: traffic_ok_def)
  obtain d s' where run: "Driver_Run hook bg loads (fst tr) dur (snd tr) s = Some (dr_results d, s')"
      and ok: "drive_ok loads (fst tr) (snd tr) d" "drive_done d"
    by (rule Driver_Run_complete [of loads "fst tr" dur "snd tr" hook bg s]) (use assms in \<open>auto simp: traffic_ok_def slots_ok_def\<close>)
  have keys: "fst ` set (dr_results d) = tl_Tenant ` set loads"
    using ok(1) initial_results_of(3) [of loads] unfolding drive_ok_def by (metis image_set)
  moreover have "length (latencies r) \<le> 2 ^ 53" if r: "map_of (dr_results d) t = Some r" for t r
  proof -
    have "t \<in> tl_Tenant ` set loads" using map_of_SomeD [OF r] keys by force
    then have "exact_result (fst tr) (outcomes loads t (snd tr)) r" using tracks_done [OF ok] r by fastforce
    then have "length (latencies r) \<le> length (outcomes loads t (snd tr))" by (simp add: exact_result_def)
    then show ?thesis using length_outcomes [of loads t "snd tr"] len by linarith
  qed
  ultimately show thesis using that run by (simp add: results_ok_def)
qed

lemma result_of: "results_ok loads rs \<Longrightarrow> t \<in> tl_Tenant ` set loads \<Longrightarrow> \<exists>r. map_of rs t = Some r"
  unfolding results_ok_def by (metis map_of_eq_None_iff not_None_eq)

lemma Percentile_defined:
  assumes "length (latencies r) \<le> 2 ^ 53" and "0 \<le> p" and "p \<le> 100"
  shows "\<exists>v. Percentile p r = Some v"
  using Percentile_eq [of p r] assms by (cases "latencies r = []") (auto simp: Percentile_def)

lemma renderTable_defined:
  assumes "results_ok loads rs"
  shows "\<exists>out. renderTable rs = Some out"
proof -
  have "\<exists>out. table_rows rs names = Some out" if "set names \<subseteq> fst ` set rs" for names
    using that
  proof (induction names)
    case (Cons t names)
    obtain r where r: "map_of rs t = Some r" using Cons.prems by (metis insert_subset list.simps(15) map_of_eq_None_iff not_None_eq)
    have "length (latencies r) \<le> 2 ^ 53" using assms r by (simp add: results_ok_def)
    then obtain v w where "Percentile 50 r = Some v" "Percentile 99 r = Some w"
      using Percentile_defined [of r 50] Percentile_defined [of r 99] by auto
    moreover obtain out where "table_rows rs names = Some out" using Cons by auto
    ultimately show ?case using r by (simp add: table_row_def)
  qed simp
  then show ?thesis unfolding renderTable_def TenantsSorted_def by (metis image_set option.simps(9) set_eq_subset set_sort)
qed

lemma invariantCheck_defined:
  "\<exists>c. invariantCheck env rs dur workers restarts = Some c"
proof -
  have "\<exists>x. invariant_loop cfg rs dur slack restarts names st = Some x" if "set names \<subseteq> fst ` set rs" for cfg slack names st
    using that
  proof (induction names arbitrary: st)
    case (Cons t names)
    obtain ok d where st: "st = (ok, d)" by fastforce
    obtain r where r: "map_of rs t = Some r" using Cons.prems by (metis insert_subset list.simps(15) map_of_eq_None_iff not_None_eq)
    show ?case using Cons r by (cases "map_of (c_Tenants cfg) t") (auto simp: st Let_def)
  qed simp
  from this [of "TenantsSorted rs"] show ?thesis by (auto simp: invariantCheck_def Let_def TenantsSorted_def)
qed

lemma sum_windows_defined: "0 \<le> from \<Longrightarrow> \<exists>x. sum_windows from to metric rs acc = Some x"
  by (induction rs arbitrary: acc) (auto simp: WindowRate_def Let_def)

lemma sumSeriesAt_defined: "0 \<le> sec \<Longrightarrow> \<exists>n. sumSeriesAt rs sec = Some n"
  by (simp add: sumSeriesAt_def Let_def)

lemma recoverSec_defined: "0 \<le> i \<Longrightarrow> \<exists>n. recoverSec base i adm = Some n"
  by (simp add: recoverSec_def)

lemma ov_default: "e_Overrides env = [] \<Longrightarrow> ov env key def = def"
  by (simp add: ov_def get_param_def)

lemma ensure_returns: "clock_ok cl clk \<Longrightarrow> \<exists>r s'. ensure cl env n cpu s = Some (r, s')"
proof -
  assume ck: "clock_ok cl clk"
  let ?s = "Printf (''setting up: coordinator + '' @ itoa n @ '' worker replica(s)...'' @ nl) s"
  have "\<exists>r w'. EnsureRateLimiter cl (e_Kube env) n cpu (s_world ?s) = Some (r, w')"
    using Ensure_returns [OF ck] by blast
  then show ?thesis by (auto simp: ensure_def Let_def split: option.splits)
qed

lemma setup_then_returns:
  assumes "clock_ok cl clk" and "\<And>s. \<exists>x. f s = Some x"
  shows "\<exists>x. setup_then cl env n cpu f s = Some x"
  using ensure_returns [OF assms(1), of env n cpu s] assms(2) by (auto simp: setup_then_def split: option.splits)

lemma warmup_defined:
  assumes "traffic_ok loads False (3 * Second) tr" and "slots_ok loads"
  shows "\<exists>s'. warmup loads tr s = Some s'"
  by (rule run_defined [of loads None "3 * Second" tr "\<lambda>i s. s" "Printf (''warmup 3s...'' @ nl) s"])
    (use assms in \<open>auto simp: warmup_def Let_def\<close>)

text \<open>Stepping through a body: a bind is defined if its first part is and the rest is for every value.\<close>

lemma bind_defined: "\<exists>x. m = Some x \<Longrightarrow> (\<And>x. m = Some x \<Longrightarrow> \<exists>y. f x = Some y) \<Longrightarrow> \<exists>y. Option.bind m f = Some y"
  by auto

lemma bind_run_defined:
  assumes "traffic_ok loads hooked dur tr" and "slots_ok loads" and "hooked \<longleftrightarrow> hook \<noteq> None"
    and "\<And>rs s'. results_ok loads rs \<Longrightarrow> \<exists>y. f (rs, s') = Some y"
  shows "\<exists>y. Option.bind (Driver_Run hook bg loads (fst tr) dur (snd tr) s) f = Some y"
  by (rule run_defined [of loads hook dur tr bg s]) (use assms in auto)

lemma scrape_defined:
  "(\<And>e s'. \<exists>y. f (Inl e, s') = Some y) \<Longrightarrow> (\<And>st s'. \<exists>y. f (Inr st, s') = Some y) \<Longrightarrow> \<exists>y. f (scrape cl env s) = Some y"
  by (cases "scrape cl env s", case_tac a) auto

lemma result_bind_defined:
  assumes "results_ok loads rs" and "t \<in> tl_Tenant ` set loads"
    and "\<And>r. length (latencies r) \<le> 2 ^ 53 \<Longrightarrow> \<exists>y. f r = Some y"
  shows "\<exists>y. Option.bind (map_of rs t) f = Some y"
proof -
  obtain r where r: "map_of rs t = Some r" using result_of [OF assms(1,2)] by blast
  then have "length (latencies r) \<le> 2 ^ 53" using assms(1) by (simp add: results_ok_def)
  then show ?thesis using assms(3) r by simp
qed

lemma baseline_checks_defined:
  assumes "results_ok (baseline_loads env) rs"
  shows "\<exists>cs. baseline_checks env dur rs leases sent = Some cs"
  unfolding baseline_checks_def
  by (intro result_bind_defined [OF assms] bind_defined invariantCheck_defined)
    (auto simp: baseline_loads_def limits_def load_def Let_def)

lemma slots_ok_loads:
  "slots_ok (baseline_loads env)" "slots_ok (hot_loads env)" "slots_ok (steadyLoads env)"
  by (auto simp: slots_ok_def baseline_loads_def hot_loads_def steadyLoads_def limits_def load_def)

lemma runBaseline_returns:
  assumes "clock_ok cl clk" and "traffic_ok (baseline_loads env) False (3 * Second) tr1"
    and "traffic_ok (baseline_loads env) True (whole_seconds (ov env ''duration'' 30)) tr2"
  shows "\<exists>x. runBaseline cl env tr1 tr2 s = Some x"
proof -
  have rest: "\<exists>y. (case scrape cl env s of
      (Inl e, s) \<Rightarrow> Some (Inl (ScrapeError e), s)
    | (Inr s1, s) \<Rightarrow>
        Option.bind (renderTable rs) (\<lambda>table. Option.bind (baseline_checks env dur rs (l s1) sent)
          (\<lambda>checks. Some (Inr checks, g table s1 s)))) = Some y"
    if "results_ok (baseline_loads env) rs" for rs :: Results and s :: "'a scene" and dur l sent and g :: "string \<Rightarrow> StatsReply \<Rightarrow> 'a scene \<Rightarrow> 'a scene"
    by (rule scrape_defined, simp, unfold prod.case sum.case,
        intro bind_defined renderTable_defined [OF that] baseline_checks_defined [OF that], simp)
  show ?thesis
    unfolding runBaseline_def Let_def limits_def prod.case
    by (rule setup_then_returns [OF assms(1)], rule bind_defined, rule warmup_defined [OF assms(2) slots_ok_loads(1)],
        rule scrape_defined, simp, unfold prod.case sum.case, rule bind_run_defined [OF assms(3) slots_ok_loads(1)], simp,
        unfold prod.case, rule rest)
qed

lemma hot_checks_defined:
  assumes "results_ok (hot_loads env) rs"
  shows "\<exists>cs. hot_checks env dur rs = Some cs"
  unfolding hot_checks_def
  by (intro result_bind_defined [OF assms] bind_defined invariantCheck_defined Percentile_defined)
    (auto simp: hot_loads_def limits_def load_def Let_def)

lemma runHotTenant_returns:
  assumes "clock_ok cl clk" and "traffic_ok (hot_loads env) False (3 * Second) tr1"
    and "traffic_ok (hot_loads env) True (whole_seconds (ov env ''duration'' 30)) tr2"
  shows "\<exists>x. runHotTenant cl env tr1 tr2 s = Some x"
  unfolding runHotTenant_def Let_def
  by (rule setup_then_returns [OF assms(1)], rule bind_defined, rule warmup_defined [OF assms(2) slots_ok_loads(2)],
      rule bind_run_defined [OF assms(3) slots_ok_loads(2)], simp, unfold prod.case)
    (intro bind_defined renderTable_defined hot_checks_defined; simp)

lemma worker_kill_checks_defined:
  assumes "-10 \<le> killAt" and "killAt \<le> 2 ^ 53"
  shows "\<exists>cs. worker_kill_checks env dur killAt rs = Some cs"
proof -
  have "0 \<le> i64 (killAt + 10)" using assms by (simp add: i64_id in_i64_nonneg)
  then show ?thesis
    unfolding worker_kill_checks_def by (intro bind_defined invariantCheck_defined sum_windows_defined) (auto simp: Let_def)
qed

lemma int_of_float_numeral: "0 \<le> x \<Longrightarrow> x \<le> 2 ^ 53 \<Longrightarrow> int_of_float (of_int x) = x"
proof -
  assume x: "0 \<le> x" "x \<le> 2 ^ 53"
  have "(of_int x :: rat) \<le> of_int (2 ^ 53)" using x(2) by (simp only: of_int_le_iff)
  then have "(of_int x :: rat) < 2 ^ 63" by simp
  then show ?thesis using x(1) by (simp add: int_of_float_floor)
qed

lemma runWorkerKill_returns:
  assumes "clock_ok cl clk" and "traffic_ok (steadyLoads env) False (3 * Second) tr1"
    and "traffic_ok (steadyLoads env) True (whole_seconds (ov env ''duration'' 45)) tr2"
    and "-10 \<le> int_of_float (ov env ''kill_at'' 15)"
    and "int_of_float (ov env ''kill_at'' 15) \<le> 2 ^ 53"
  shows "\<exists>x. runWorkerKill cl env tr1 tr2 s = Some x"
  unfolding runWorkerKill_def Let_def
  by (rule setup_then_returns [OF assms(1)], rule bind_defined, rule warmup_defined [OF assms(2) slots_ok_loads(3)],
      rule bind_run_defined [OF assms(3) slots_ok_loads(3)], simp, unfold prod.case)
    (intro bind_defined renderTable_defined worker_kill_checks_defined assms(4,5); simp)

lemma coordinator_kill_checks_defined:
  assumes "0 \<le> killAt" and "0 \<le> restoreAt" and "killAt \<le> 2 ^ 53" and "11 \<le> int_of_float (Seconds dur)"
  shows "\<exists>x. coordinator_kill_checks env dur loads killAt restoreAt rs = Some x"
proof -
  have k: "0 \<le> i64 (killAt + 5)" "0 \<le> i64 (killAt + 1)" using assms(1,3) by (simp_all add: i64_id in_i64_nonneg)
  have "int_of_float (Seconds dur) < 2 ^ 63" by (auto simp: int_of_float_def in_i64_def min_i64_def max_i64_def)
  then have "0 \<le> i64 (int_of_float (Seconds dur) - 11)" using assms(4) by (simp add: i64_id in_i64_nonneg)
  then show ?thesis
    unfolding coordinator_kill_checks_def Let_def
    by (intro bind_defined invariantCheck_defined sum_windows_defined recoverSec_defined sumSeriesAt_defined)
      (use assms k in auto)
qed

lemma RestoreCoordinator_returns: "clock_ok cl clk \<Longrightarrow> \<exists>r w'. RestoreCoordinator cl w = Some (r, w')"
  using WaitDeploymentReady_returns [of cl clk coordinatorName 1 "120 * Second"]
  by (fastforce simp: RestoreCoordinator_def split: prod.splits option.splits)

lemma runCoordinatorKill_returns:
  assumes "clock_ok cl clk" and "traffic_ok (steadyLoads env) False (3 * Second) tr1"
    and "traffic_ok (steadyLoads env) True (whole_seconds (ov env ''duration'' 60)) tr2"
    and "0 \<le> int_of_float (ov env ''kill_at'' 10)" and "0 \<le> int_of_float (ov env ''restore_at'' 25)"
    and "int_of_float (ov env ''kill_at'' 10) \<le> 2 ^ 53"
    and "11 \<le> int_of_float (Seconds (whole_seconds (ov env ''duration'' 60)))"
  shows "\<exists>x. runCoordinatorKill cl env tr1 tr2 s = Some x"
proof -
  have fin: "\<exists>y. (case x of (recovered, checks) \<Rightarrow>
      (case RestoreCoordinator cl (h recovered) of None \<Rightarrow> None | Some (e, w) \<Rightarrow> Some (g recovered checks w))) = Some y"
    for x :: "string \<times> Check list" and h and g :: "string \<Rightarrow> Check list \<Rightarrow> 'a \<Rightarrow> 'c"
    using RestoreCoordinator_returns [OF assms(1), of "h (fst x)"] by (cases x) auto
  show ?thesis
    unfolding runCoordinatorKill_def Let_def
    by (rule setup_then_returns [OF assms(1)], rule bind_defined, rule warmup_defined [OF assms(2) slots_ok_loads(3)],
        rule bind_run_defined [OF assms(3) slots_ok_loads(3)], simp, unfold prod.case)
      (intro bind_defined renderTable_defined coordinator_kill_checks_defined assms(4-7) fin; assumption)
qed
definition scaling_loads :: "Env \<Rightarrow> TenantLoad list" where
  "scaling_loads env = [load ''tenant-hi'' (ov env ''rate'' 2500) (int_of_float (ov env ''concurrency'' 200)) 0]"

lemma scaling_measure_defined:
  assumes "traffic_ok loads False (3 * Second) tr1" and "traffic_ok loads False dur tr2" and slots: "slots_ok loads"
    and hi: "''tenant-hi'' \<in> tl_Tenant ` set loads"
  shows "\<exists>x. scaling_measure cl env loads offered dur n tr1 tr2 acc s = Some x"
  unfolding scaling_measure_def Let_def
  by (rule bind_defined, rule warmup_defined [OF assms(1) slots], unfold split_beta, rule bind_run_defined [OF assms(2) slots], simp, unfold fst_conv snd_conv)
    (rule result_bind_defined [OF _ hi], assumption,
     intro bind_defined invariantCheck_defined Percentile_defined; simp)

lemma scaling_phases_return:
  assumes ck: "clock_ok cl clk" and slots: "slots_ok loads" and hi: "''tenant-hi'' \<in> tl_Tenant ` set loads"
  shows "list_all (\<lambda>(n, tr1, tr2). traffic_ok loads False (3 * Second) tr1 \<and> traffic_ok loads False dur tr2) ph \<Longrightarrow>
    \<exists>x. scaling_phases cl env loads offered dur ph acc s = Some x"
proof (induction ph arbitrary: acc s)
  case (Cons p ph)
  obtain n tr1 tr2 where p: "p = (n, tr1, tr2)" by (metis prod_cases3)
  have ok: "traffic_ok loads False (3 * Second) tr1" "traffic_ok loads False dur tr2" using Cons.prems by (auto simp: p)
  have IH: "\<exists>x. scaling_phases cl env loads offered dur ph acc s = Some x" for acc s using Cons by simp
  show ?case
    unfolding p scaling_phases.simps Let_def
  proof (rule setup_then_returns [OF ck])
    fix s :: "'a scene"
    let ?s = "Printf (''waiting for all '' @ itoa n @ '' worker endpoint(s) to serve traffic...'' @ nl) s"
    obtain r w' where w: "WaitAllWorkersReachable cl (e_WorkerURL env) (45 * Second) (s_world ?s) = Some (r, w')"
      using WaitAllWorkersReachable_returns [OF ck] by blast
    obtain acc' s' where m: "scaling_measure cl env loads offered dur n tr1 tr2 acc (?s\<lparr>s_world := w'\<rparr>) = Some (acc', s')"
      using scaling_measure_defined [OF ok slots hi] by (metis prod.exhaust)
    show "\<exists>x. (case WaitAllWorkersReachable cl (e_WorkerURL env) (45 * Second) (s_world ?s) of
         None \<Rightarrow> None
       | Some (Some e, w) \<Rightarrow> Some (Inl (SetupError e), ?s\<lparr>s_world := w\<rparr>)
       | Some (None, w) \<Rightarrow>
           (case scaling_measure cl env loads offered dur n tr1 tr2 acc (?s\<lparr>s_world := w\<rparr>) of
              None \<Rightarrow> None
            | Some (acc, s) \<Rightarrow> scaling_phases cl env loads offered dur ph acc s)) = Some x"
      using w m IH [of acc' s'] by (cases r) simp_all
  qed
qed simp

lemma runScaling_returns:
  assumes "clock_ok cl clk" and slots: "slots_ok (scaling_loads env)"
    and "list_all (\<lambda>(tr1, tr2). traffic_ok (scaling_loads env) False (3 * Second) tr1 \<and>
      traffic_ok (scaling_loads env) False (whole_seconds (ov env ''duration'' 25)) tr2) [p1, p2, p4]"
  shows "\<exists>x. runScaling cl env p1 p2 p4 s = Some x"
proof -
  have hi: "''tenant-hi'' \<in> tl_Tenant ` set (scaling_loads env)" by (simp add: scaling_loads_def load_def)
  obtain r s' where "scaling_phases cl env (scaling_loads env) (ov env ''rate'' 2500) (whole_seconds (ov env ''duration'' 25))
      [(1, p1), (2, p2), (4, p4)] \<lparr>sg_throughput = [], sg_p99 = [], sg_invChecks = []\<rparr> s = Some (r, s')"
    using scaling_phases_return [OF assms(1) slots hi, of "whole_seconds (ov env ''duration'' 25)" "[(1, p1), (2, p2), (4, p4)]"] assms(3)
    by (fastforce simp: split_beta)
  then show ?thesis
    by (cases r) (auto simp: runScaling_def scaling_loads_def Let_def split: prod.splits option.splits)
qed

text \<open>The loads, the traffic and the tuning knobs of a scenario.\<close>

fun course_ok :: "scenario_run \<Rightarrow> Env \<Rightarrow> course \<Rightarrow> bool" where
  "course_ok Baseline env tr \<longleftrightarrow>
     traffic_ok (baseline_loads env) False (3 * Second) (tr_warm1 tr) \<and>
     traffic_ok (baseline_loads env) True (whole_seconds (ov env ''duration'' 30)) (tr_meas1 tr)"
| "course_ok HotTenant env tr \<longleftrightarrow>
     traffic_ok (hot_loads env) False (3 * Second) (tr_warm1 tr) \<and>
     traffic_ok (hot_loads env) True (whole_seconds (ov env ''duration'' 30)) (tr_meas1 tr)"
| "course_ok Scaling env tr \<longleftrightarrow>
     list_all (traffic_ok (scaling_loads env) False (3 * Second)) [tr_warm1 tr, tr_warm2 tr, tr_warm4 tr] \<and>
     list_all (traffic_ok (scaling_loads env) False (whole_seconds (ov env ''duration'' 25))) [tr_meas1 tr, tr_meas2 tr, tr_meas4 tr]"
| "course_ok WorkerKill env tr \<longleftrightarrow>
     traffic_ok (steadyLoads env) False (3 * Second) (tr_warm1 tr) \<and>
     traffic_ok (steadyLoads env) True (whole_seconds (ov env ''duration'' 45)) (tr_meas1 tr)"
| "course_ok CoordinatorKill env tr \<longleftrightarrow>
     traffic_ok (steadyLoads env) False (3 * Second) (tr_warm1 tr) \<and>
     traffic_ok (steadyLoads env) True (whole_seconds (ov env ''duration'' 60)) (tr_meas1 tr)"

lemma default_knobs:
  assumes "e_Overrides env = []"
  shows "int_of_float (ov env ''kill_at'' 15) = 15" "int_of_float (ov env ''kill_at'' 10) = 10"
    "int_of_float (ov env ''restore_at'' 25) = 25" "int_of_float (ov env ''concurrency'' 200) = 200"
    "int_of_float (Seconds (whole_seconds (ov env ''duration'' 60))) = 60"
proof -
  have n: "int_of_float 15 = 15" "int_of_float 10 = 10" "int_of_float 25 = 25" "int_of_float 60 = 60" "int_of_float 200 = 200"
    using int_of_float_numeral [of 200] int_of_float_numeral [of 15] int_of_float_numeral [of 10] int_of_float_numeral [of 25] int_of_float_numeral [of 60]
    by simp_all
  then have d: "whole_seconds 60 = 60000000000"
    by (simp add: whole_seconds_def Second_def i64_def)
  have "Seconds 60000000000 = 60"
    by (simp add: Seconds_def Second_def fadd_def fdiv_def float_of_int_exact signed_divide_int_def signed_modulo_int_def)
  then show "int_of_float (ov env ''kill_at'' 15) = 15" "int_of_float (ov env ''kill_at'' 10) = 10"
    "int_of_float (ov env ''restore_at'' 25) = 25" "int_of_float (ov env ''concurrency'' 200) = 200"
    "int_of_float (Seconds (whole_seconds (ov env ''duration'' 60))) = 60"
    using n d by (simp_all add: ov_default [OF assms])
qed

text \<open>C29. With the documented settings (no overrides), in a world whose clock advances, no scenario panics or is left waiting,
  whatever the cluster answers and whatever becomes of the requests: once each of its \<open>Run\<close>s is complete, the scenario
  returns its checks or the error of its set-up or of a scrape.\<close>

theorem scenarios_never_panic:
  assumes "clock_ok cl clk" and "e_Overrides env = []" and "course_ok sc env tr"
  shows "\<exists>res s'. run_scenario sc cl env tr s = Some (res, s')"
proof -
  note knobs = default_knobs [OF assms(2)]
  have "slots_ok (scaling_loads env)" by (simp add: slots_ok_def scaling_loads_def load_def knobs)
  then have "\<exists>x. run_scenario sc cl env tr s = Some x"
    using assms(3) runBaseline_returns [OF assms(1)] runHotTenant_returns [OF assms(1)] runScaling_returns [OF assms(1)]
      runWorkerKill_returns [OF assms(1)] runCoordinatorKill_returns [OF assms(1)]
    by (cases sc) (simp_all add: knobs)
  then show ?thesis by auto
qed

text \<open>A course without requests: the loops begin, a second passes, and the timers run out.\<close>

definition idle_course :: "time \<Rightarrow> duration \<Rightarrow> bool \<Rightarrow> traffic" where
  "idle_course start dur hooked =
     (start, [Enter 0 start, Enter 2 start, Enter 1 (start + 5)] @ (if hooked then [SecondTick (start + 1000000000)] else []) @
       [Pace 0 (Tick (start + dur)), Pace 1 (Tick (start + dur)), Pace 2 (Tick (start + dur))] @
       (if hooked then [SecondTick (start + dur)] else []))"

lemma idle_course_complete:
  assumes "length loads = 3" and "slots_ok loads" and "5 \<le> dur" and "dur \<le> max_i64" and "hooked \<longrightarrow> 1000000000 < dur"
  shows "traffic_ok loads hooked dur (idle_course start dur hooked)"
proof -
  obtain l0 l1 l2 where l: "loads = [l0, l1, l2]" using assms(1) by (auto simp: numeral_3_eq_3 length_Suc_conv)
  have c: "pacer_start l0 now = Some (pacer_init now)" "pacer_start l1 now = Some (pacer_init now)"
      "pacer_start l2 now = Some (pacer_init now)" for now
    using assms(2) by (auto simp: slots_ok_def l pacer_start_def)
  have t: "time_sub (start + dur) start = dur" using assms(3,4) by (simp add: time_sub_exact)
  have h: "time_sub (start + 1000000000) start = 1000000000" by (simp add: time_sub_exact max_i64_def)
  have k: "pacer_step l start dur (Tick (start + dur)) (pacer_init (start + j)) = Some ((pacer_init (start + j))\<lparr>p_stopped := True\<rparr>)"
    if "j \<le> dur" for l j
    using that t by (simp add: pacer_init_def pacer_tick_def)
  have k0: "pacer_step l start dur (Tick (start + dur)) (pacer_init start) = Some ((pacer_init start)\<lparr>p_stopped := True\<rparr>)" for l
    using k [of 0] assms(3) by simp
  have b: "p_busy (pacer_init now) = 0" for now by (simp add: pacer_init_def)
  show ?thesis
    using assms(3,5) unfolding traffic_ok_def l
    by (cases hooked)
      (simp_all add: idle_course_def drive_init_def upd_runner_def pace_runner_def c t h k k0 b drive_done_def runner_done_def
        del: pacer_step.simps)
qed

theorem scenarios_never_panic_witness:
  "\<exists>res s'. run_scenario CoordinatorKill sample_cluster sample_env
      \<lparr>tr_warm1 = idle_course 0 3000000000 False, tr_meas1 = idle_course 5 60000000000 True,
       tr_warm2 = (0, []), tr_meas2 = (0, []), tr_warm4 = (0, []), tr_meas4 = (0, [])\<rparr>
      \<lparr>s_out = '''', s_world = 0, s_tasks = []\<rparr> = Some (res, s')"
proof (rule scenarios_never_panic)
  show "clock_ok sample_cluster (\<lambda>w. w)" by (simp add: clock_ok_def sample_cluster_def)
  show ov: "e_Overrides sample_env = []" by (simp add: sample_env_def)
  have "int_of_float 60 = 60" using int_of_float_numeral [of 60] by simp
  then have d: "whole_seconds (ov sample_env ''duration'' 60) = 60000000000"
    by (simp add: ov_default [OF ov] whole_seconds_def Second_def i64_def)
  have "length (steadyLoads sample_env) = 3" by (simp add: steadyLoads_def limits_def)
  note idle = idle_course_complete [OF this slots_ok_loads(3)]
  show "course_ok CoordinatorKill sample_env
      \<lparr>tr_warm1 = idle_course 0 3000000000 False, tr_meas1 = idle_course 5 60000000000 True,
       tr_warm2 = (0, []), tr_meas2 = (0, []), tr_warm4 = (0, []), tr_meas4 = (0, [])\<rparr>"
    by (simp add: d idle Second_def max_i64_def)
qed

lemma upd_result_keys: "upd_result t f rs = Some rs' \<Longrightarrow> map fst rs' = map fst rs"
  by (induction t f rs arbitrary: rs' rule: upd_result.induct) (auto split: if_splits)

lemma with_result_keys: "with_result t f d = Some d' \<Longrightarrow> map fst (dr_results d') = map fst (dr_results d)"
  by (auto simp: with_result_def dest: upd_result_keys)

lemma upd_runner_results [simp]: "dr_results (upd_runner i f d) = dr_results d"
  by (simp add: upd_runner_def)

lemma pace_runner_keys:
  "pace_runner l start dur i e p d = Some d' \<Longrightarrow> map fst (dr_results d') = map fst (dr_results d)"
  unfolding pace_runner_def by (auto dest: with_result_keys split: option.splits if_splits)

lemma drive_step_keys:
  "drive_step loads start dur e d = Some d' \<Longrightarrow> map fst (dr_results d') = map fst (dr_results d)"
  by (cases e) (auto simp: bind_eq_Some_conv dest: pace_runner_keys with_result_keys split: if_splits)

lemma drive_run_keys:
  "drive_run hook bg loads start dur es d u = Some (d', u') \<Longrightarrow> map fst (dr_results d') = map fst (dr_results d)"
  by (induction es arbitrary: d u) (auto split: if_splits option.splits dest: drive_step_keys)

lemma Driver_Run_keys:
  "Driver_Run hook bg loads start dur es u = Some (rs, u') \<Longrightarrow> map fst rs = map fst (initial_results loads)"
  by (auto simp: Driver_Run_def drive_init_def dest: drive_run_keys)

text \<open>A shorter run than eleven seconds, which the override \<open>duration\<close> can ask for, makes the coordinator-kill
  scenario panic after it has run: the window of the last ten seconds begins before second 0.\<close>

lemma short_run_panics:
  assumes "0 \<le> int_of_float (Seconds (whole_seconds (ov env ''duration'' 60)))"
    and "int_of_float (Seconds (whole_seconds (ov env ''duration'' 60))) \<le> 10"
  shows "runCoordinatorKill cl env tr1 tr2 s \<noteq> Some (Inr checks, s')"
proof -
  have w: "WindowRate (i64 (n - 11)) (i64 (n - 1)) metric r = None" if "0 \<le> n" "n \<le> 10" for n metric and r :: TenantResult
  proof -
    have "i64 (n - 11) = n - 11" "i64 (n - 1) = n - 1"
      using that by (auto intro!: i64_id simp: in_i64_def min_i64_def max_i64_def)
    then show ?thesis using that by (auto simp: WindowRate_def Let_def)
  qed
  have "coordinator_kill_checks env dur loads killAt restoreAt rs = None"
    if "0 \<le> int_of_float (Seconds dur)" "int_of_float (Seconds dur) \<le> 10" "rs \<noteq> []" for dur loads killAt restoreAt rs
    using that w [OF that(1,2)] by (cases rs) (auto simp: coordinator_kill_checks_def Let_def bind_eq_None_conv)
  moreover have "rs \<noteq> []"
    if "Driver_Run hook bg (steadyLoads env) st dur es u = Some (rs, u')" for hook bg st dur es rs and u u' :: "'a scene"
    using initial_results_of(3) [of "steadyLoads env"] Driver_Run_keys [OF that]
    by (auto simp: steadyLoads_def limits_def load_def)
  ultimately show ?thesis
    using assms unfolding runCoordinatorKill_def setup_then_def Let_def
    by (auto split: option.splits prod.splits simp: bind_eq_Some_conv)
qed

end
