(* ===== verification/Loadgen_Server.thy ===== *)
theory Loadgen_Server
  imports Scenarios
begin

text \<open>
  Package \<open>internal/loadgen\<close>, file \<open>server.go\<close>, and the start-up of \<open>kube.go\<close>: the control server
  that runs one scenario at a time and streams its report.

  A request to run a scenario is answered at once or takes the lock and streams until its scenario ends;
  between the two, other requests arrive. So the handler is split at this point: \<open>handleRun_begin\<close> is what
  it does up to the lock, \<open>handleRun_body\<close> what it streams, and \<open>lg_step\<close> lets requests and ends of runs
  interleave. A scenario that panics has no body; the lock is released in any case.
\<close>

section \<open>Definitions\<close>

definition AuthToken :: string where
  "AuthToken = ''rldemo-c7f31a92d4e85b06''"

record lserver =
  lg_kube :: Kube
  lg_workerURL :: string
  lg_coordURL :: string
  lg_runMu :: bool

text \<open>\<open>NewKube\<close>: credentials from inside the cluster or from a kubeconfig, the client made of them, and the
  environment variables.\<close>

definition NewKube ::
  "string + 'cred \<Rightarrow> string + 'cred \<Rightarrow> ('cred \<Rightarrow> string + 'client) \<Rightarrow> (string \<Rightarrow> string) \<Rightarrow> string + 'client \<times> Kube" where
  "NewKube inCluster kubeConfig newForConfig getenv =
     (case (case inCluster of
              Inr c \<Rightarrow> Inr c
            | Inl _ \<Rightarrow> (case kubeConfig of
                          Inr c \<Rightarrow> Inr c
                        | Inl e \<Rightarrow> Inl (''no in-cluster or kubeconfig credentials: '' @ e))) of
        Inl e \<Rightarrow> Inl e
      | Inr cfg \<Rightarrow>
          (case newForConfig cfg of
             Inl e \<Rightarrow> Inl e
           | Inr cs \<Rightarrow>
               let ns = (if getenv ''POD_NAMESPACE'' = '''' then ''ratelimiter'' else getenv ''POD_NAMESPACE'');
                   image = getenv ''IMAGE'' in
               if image = '''' then Inl ''IMAGE env var must name the ratelim container image''
               else Inr (cs, \<lparr>k_ns = ns, k_image = image\<rparr>)))"

definition authorized :: "request \<Rightarrow> bool" where
  "authorized r \<longleftrightarrow>
     get_param (rq_header r) ''Authorization'' = ''Bearer '' @ AuthToken \<or> get_param (rq_query r) ''token'' = AuthToken"

definition handleScenarios :: response where
  "handleScenarios =
     respond StatusOK (Json (JArr (map (\<lambda>sc.
       JObj [(''Name'', JStr (sc_Name sc)), (''Description'', JStr (sc_Description sc))]) Scenarios)))"

definition handleRun_begin :: "request \<Rightarrow> lserver \<Rightarrow> response + Scenario \<times> lserver" where
  "handleRun_begin r sv =
     (if \<not> authorized r then Inl (respond StatusUnauthorized (Text ''missing or wrong bearer token''))
      else
        case FindScenario (get_param (rq_query r) ''scenario'') of
          None \<Rightarrow> Inl (respond StatusBadRequest (Text (''unknown scenario; one of: '' @ join '', '' (map sc_Name Scenarios))))
        | Some sc \<Rightarrow>
            if lg_runMu sv
            then Inl (respond StatusConflict (Text ''another scenario is already running; try again shortly''))
            else Inr (sc, sv\<lparr>lg_runMu := True\<rparr>))"

definition handleRun_end :: "lserver \<Rightarrow> lserver" where
  "handleRun_end sv = sv\<lparr>lg_runMu := False\<rparr>"

text \<open>\<open>jsonErr\<close> is the decoder's message for a malformed answer of the coordinator.\<close>

fun scrape_text :: "string \<Rightarrow> scrape_error \<Rightarrow> string" where
  "scrape_text jsonErr (GetError m) = m"
| "scrape_text jsonErr (StatusError n) = ''stats returned '' @ itoa n"
| "scrape_text jsonErr DecodeError = jsonErr"

fun scenario_error_text :: "(float64 \<Rightarrow> string) \<Rightarrow> string \<Rightarrow> scenario_error \<Rightarrow> string" where
  "scenario_error_text show jsonErr (SetupError e) = error_text show e"
| "scenario_error_text show jsonErr (ScrapeError e) = ''scraping coordinator stats: '' @ scrape_text jsonErr e"

definition run_env :: "lserver \<Rightarrow> (float64 \<Rightarrow> string) \<Rightarrow> (string \<times> string) list \<Rightarrow> Config \<Rightarrow> Env" where
  "run_env sv show query cfg =
     \<lparr>e_Kube = lg_kube sv, e_WorkerURL = lg_workerURL sv, e_Cfg = cfg, e_CoordURL = lg_coordURL sv,
      e_Overrides = query, e_showFloat = show\<rparr>"

definition run_header :: "Scenario \<Rightarrow> string" where
  "run_header sc = ''=== scenario: '' @ sc_Name sc @ '' ==='' @ nl @ nl @ sc_Description sc @ nl @ nl"

definition handleRun_body ::
  "'w cluster \<Rightarrow> (string \<Rightarrow> string + Config) \<Rightarrow> (float64 \<Rightarrow> string) \<Rightarrow> string \<Rightarrow> lserver \<Rightarrow> (string \<times> string) list \<Rightarrow>
     Scenario \<Rightarrow> course \<Rightarrow> 'w \<Rightarrow> (string \<times> 'w) option" where
  "handleRun_body cl unmarshalStrict show jsonErr sv query sc tr w =
     (case LoadConfig cl unmarshalStrict w of
        (Inl e, w) \<Rightarrow>
          Some (run_header sc @ ''ERROR: reading '' @ configMapName @ '' ConfigMap: '' @ error_text show e @ nl @
                  ''FAIL: setup error'' @ nl, w)
      | (Inr cfg, w) \<Rightarrow>
          (case run_scenario (sc_Run sc) cl (run_env sv show query cfg) tr
                  \<lparr>s_out = run_header sc, s_world = w, s_tasks = []\<rparr> of
             None \<Rightarrow> None
           | Some (Inl e, s) \<Rightarrow>
               Some (s_out s @ nl @ ''ERROR: '' @ scenario_error_text show jsonErr e @ nl @ ''FAIL: scenario error'' @ nl, s_world s)
           | Some (Inr checks, s) \<Rightarrow> Some (s_out s @ fst (renderChecks checks), s_world s)))"

datatype loadgen_route = RScenarios | RRun | RLoadgenHealth

definition loadgen_routes :: "(pattern \<times> loadgen_route) list" where
  "loadgen_routes =
     [((''GET'', [Lit ''scenarios'']), RScenarios),
      ((''GET'', [Lit ''run'']), RRun),
      ((''GET'', [Lit ''healthz'']), RLoadgenHealth)]"

text \<open>The server between requests: \<open>active\<close> are the scenarios now running.\<close>

record lg_state =
  lg_server :: lserver
  lg_active :: "Scenario list"

datatype lg_event = Arrive request | RunEnds

definition lg_arrive :: "request \<Rightarrow> lg_state \<Rightarrow> response option \<times> lg_state" where
  "lg_arrive r st =
     (case route loadgen_routes r of
        NoRoute code \<Rightarrow> (Some (respond code (Text '''')), st)
      | Serve RScenarios _ \<Rightarrow> (Some handleScenarios, st)
      | Serve RLoadgenHealth _ \<Rightarrow> (Some (respond StatusOK (Text ''ok'')), st)
      | Serve RRun _ \<Rightarrow>
          (case handleRun_begin r (lg_server st) of
             Inl resp \<Rightarrow> (Some resp, st)
           | Inr (sc, sv) \<Rightarrow> (None, st\<lparr>lg_server := sv, lg_active := sc # lg_active st\<rparr>)))"

fun lg_step :: "lg_event \<Rightarrow> lg_state \<Rightarrow> lg_state option" where
  "lg_step (Arrive r) st = Some (snd (lg_arrive r st))"
| "lg_step RunEnds st =
     (case lg_active st of
        [] \<Rightarrow> None
      | _ # rest \<Rightarrow> Some (st\<lparr>lg_server := handleRun_end (lg_server st), lg_active := rest\<rparr>))"

definition lg_init :: "Kube \<Rightarrow> string \<Rightarrow> string \<Rightarrow> lg_state" where
  "lg_init k workerURL coordURL =
     \<lparr>lg_server = \<lparr>lg_kube = k, lg_workerURL = workerURL, lg_coordURL = coordURL, lg_runMu = False\<rparr>, lg_active = []\<rparr>"

text \<open>\<open>Run\<close>: without the cluster's client the process stops.\<close>

definition loadgen_Run ::
  "string + 'cred \<Rightarrow> string + 'cred \<Rightarrow> ('cred \<Rightarrow> string + 'client) \<Rightarrow> (string \<Rightarrow> string) \<Rightarrow> string \<Rightarrow> string \<Rightarrow>
     string + 'client \<times> lg_state" where
  "loadgen_Run inCluster kubeConfig newForConfig getenv workerURL coordURL =
     (case NewKube inCluster kubeConfig newForConfig getenv of
        Inl e \<Rightarrow> Inl e
      | Inr (cs, k) \<Rightarrow> Inr (cs, lg_init k workerURL coordURL))"

inductive lg_reach :: "lg_state \<Rightarrow> lg_state \<Rightarrow> bool" for st0 where
  start: "lg_reach st0 st0"
| step: "lg_reach st0 st \<Longrightarrow> lg_step e st = Some st' \<Longrightarrow> lg_reach st0 st'"

section \<open>One run at a time\<close>

definition lg_inv :: "lg_state \<Rightarrow> bool" where
  "lg_inv st \<longleftrightarrow> length (lg_active st) \<le> 1 \<and> (lg_runMu (lg_server st) \<longleftrightarrow> lg_active st \<noteq> [])"

lemma begin_Inr:
  "handleRun_begin r sv = Inr (sc, sv') \<Longrightarrow> authorized r \<and> \<not> lg_runMu sv \<and> sv' = sv\<lparr>lg_runMu := True\<rparr> \<and>
    FindScenario (get_param (rq_query r) ''scenario'') = Some sc"
  by (auto simp: handleRun_begin_def split: if_splits option.splits)

lemma lg_inv_step: "lg_inv st \<Longrightarrow> lg_step e st = Some st' \<Longrightarrow> lg_inv st'"
proof (cases e)
  case (Arrive r)
  assume inv: "lg_inv st" and s: "lg_step e st = Some st'"
  then have st': "st' = snd (lg_arrive r st)" by (simp add: Arrive)
  show ?thesis
  proof (cases "st' = st")
    case False
    then obtain sc sv' where b: "handleRun_begin r (lg_server st) = Inr (sc, sv')"
        "st' = st\<lparr>lg_server := sv', lg_active := sc # lg_active st\<rparr>"
      unfolding st' by (auto simp: lg_arrive_def split: routed.splits loadgen_route.splits sum.splits)
    then show ?thesis using inv begin_Inr [OF b(1)] by (auto simp: lg_inv_def)
  qed (use inv in simp)
next
  case RunEnds
  assume "lg_inv st" and "lg_step e st = Some st'"
  then show ?thesis by (auto simp: RunEnds lg_inv_def handleRun_end_def split: list.splits)
qed

lemma lg_inv_reach: "lg_reach (lg_init k wu cu) st \<Longrightarrow> lg_inv st"
proof (induction rule: lg_reach.induct)
  case start
  show ?case by (simp add: lg_inv_def lg_init_def)
qed (rule lg_inv_step)

lemma scenario_names: "distinct (map sc_Name Scenarios)"
  by (simp add: Scenarios_def)

lemma FindScenario_iff: "FindScenario n = Some sc \<longleftrightarrow> sc \<in> set Scenarios \<and> sc_Name sc = n"
proof -
  have "distinct (map sc_Name scs) \<Longrightarrow> find_scenario scs n = Some sc \<longleftrightarrow> sc \<in> set scs \<and> sc_Name sc = n" for scs
    by (induction scs) auto
  then show ?thesis using scenario_names by (simp add: FindScenario_def)
qed

text \<open>C33. Under every interleaving of requests and ends of runs at most one scenario is running, and the lock is
  held exactly while one is. A request for \<open>/run\<close> starts a scenario exactly if it carries the token, names one of the
  five scenarios and none is running; otherwise it is answered 401, 400 or 409, in this order, and changes nothing.\<close>

theorem run_exclusive:
  assumes "lg_reach (lg_init k workerURL coordURL) st" and "rq_method r = ''GET''" and "rq_path r = [''run'']"
  shows "length (lg_active st) \<le> 1 \<and> (lg_runMu (lg_server st) \<longleftrightarrow> lg_active st \<noteq> []) \<and>
    (if authorized r
     then if \<exists>sc \<in> set Scenarios. sc_Name sc = get_param (rq_query r) ''scenario''
          then if lg_active st = []
               then \<exists>sc \<in> set Scenarios. sc_Name sc = get_param (rq_query r) ''scenario'' \<and> fst (lg_arrive r st) = None \<and>
                      lg_active (snd (lg_arrive r st)) = [sc]
               else (\<exists>resp. lg_arrive r st = (Some resp, st) \<and> rs_status resp = StatusConflict)
          else (\<exists>resp. lg_arrive r st = (Some resp, st) \<and> rs_status resp = StatusBadRequest)
     else (\<exists>resp. lg_arrive r st = (Some resp, st) \<and> rs_status resp = StatusUnauthorized))"
proof -
  have inv: "lg_inv st" by (rule lg_inv_reach [OF assms(1)])
  have rt: "route loadgen_routes r = Serve RRun []"
    using assms(2,3) by (simp add: loadgen_routes_def method_match_def)
  show ?thesis
  proof (cases "FindScenario (get_param (rq_query r) ''scenario'')")
    case None
    then have "\<not> (\<exists>sc \<in> set Scenarios. sc_Name sc = get_param (rq_query r) ''scenario'')"
      using FindScenario_iff by (metis option.distinct(1))
    then show ?thesis using inv rt None by (auto simp: lg_inv_def lg_arrive_def handleRun_begin_def)
  next
    case (Some sc)
    then have sc: "sc \<in> set Scenarios" "sc_Name sc = get_param (rq_query r) ''scenario''"
      using FindScenario_iff by blast+
    show ?thesis using inv rt Some sc by (auto simp: lg_inv_def lg_arrive_def handleRun_begin_def)
  qed
qed

definition sample_run :: "string \<Rightarrow> request" where
  "sample_run name = \<lparr>rq_method = ''GET'', rq_path = [''run''], rq_query = [(''scenario'', name)],
     rq_header = [(''Authorization'', ''Bearer '' @ AuthToken)], rq_body = Text ''''\<rparr>"

theorem run_exclusive_witness:
  "\<exists>st resp. lg_reach (lg_init \<lparr>k_ns = ''n'', k_image = ''i''\<rparr> ''u'' ''v'') st \<and> length (lg_active st) = 1 \<and>
     lg_arrive (sample_run ''scaling'') st = (Some resp, st) \<and> rs_status resp = StatusConflict"
proof -
  let ?st0 = "lg_init \<lparr>k_ns = ''n'', k_image = ''i''\<rparr> ''u'' ''v''" and ?r = "sample_run ''baseline''"
  have find: "\<exists>sc \<in> set Scenarios. sc_Name sc = ''scaling''" by (simp add: Scenarios_def)
  have r: "rq_method (sample_run n) = ''GET''" "rq_path (sample_run n) = [''run'']" "authorized (sample_run n)"
    "get_param (rq_query (sample_run n)) ''scenario'' = n" for n
    by (simp_all add: sample_run_def authorized_def get_param_def)
  have "lg_active (snd (lg_arrive ?r ?st0)) \<noteq> []"
    by (simp add: lg_arrive_def loadgen_routes_def r method_match_def handleRun_begin_def FindScenario_def Scenarios_def lg_init_def)
  moreover have reach: "lg_reach ?st0 (snd (lg_arrive ?r ?st0))"
    by (rule lg_reach.step [OF lg_reach.start, of "Arrive ?r"]) simp
  ultimately show ?thesis
    using run_exclusive [OF reach r(1,2), of "''scaling''"] r find reach
    by (intro exI [of _ "snd (lg_arrive ?r ?st0)"]) (auto simp: le_Suc_eq)
qed

section \<open>The verdict\<close>

text \<open>The last line of a text that ends with a newline; \<open>run.sh\<close> looks whether it begins with \<open>PASS\<close>.\<close>

definition last_line :: "string \<Rightarrow> string" where
  "last_line s = rev (takeWhile (\<lambda>c. c \<noteq> CHR 0x0A) (rev (butlast s)))"

definition one_line :: "string \<Rightarrow> bool" where
  "one_line s \<longleftrightarrow> CHR 0x0A \<notin> set s"

lemma last_line_eq: "one_line x \<Longrightarrow> last_line (pre @ nl @ x @ nl) = x"
proof -
  assume x: "one_line x"
  have b: "butlast (pre @ nl @ x @ nl) = pre @ nl @ x" by (simp add: nl_def butlast_append)
  have "takeWhile (\<lambda>c. c \<noteq> CHR 0x0A) (rev (pre @ nl @ x)) = rev x"
    using x by (simp add: nl_def takeWhile_append one_line_def)
  then show ?thesis unfolding last_line_def b by simp
qed

lemma one_line_join: "one_line sep \<Longrightarrow> \<forall>s \<in> set ss. one_line s \<Longrightarrow> one_line (join sep ss)"
  by (induction sep ss rule: join.induct) (auto simp: one_line_def)

lemma one_line_itoa: "one_line (itoa k)"
proof -
  have "CHR 0x0A \<notin> set (digits n)" for n using digits_ge [of "CHR 0x0A" n] by auto
  then show ?thesis by (auto simp: one_line_def itoa_def)
qed

text \<open>The names of the checks are single lines.\<close>

definition names_ok :: "Check list \<Rightarrow> bool" where
  "names_ok cs \<longleftrightarrow> list_all (\<lambda>c. one_line (ck_Name c)) cs"

lemma invariantCheck_name: "invariantCheck env rs dur n k = Some c \<Longrightarrow> one_line (ck_Name c)"
  by (auto simp: invariantCheck_def Let_def check_def one_line_def)

lemma baseline_names: "baseline_checks env dur rs l n = Some cs \<Longrightarrow> names_ok cs"
  by (auto simp: baseline_checks_def Let_def limits_def bind_eq_Some_conv names_ok_def check_def one_line_def
      dest!: invariantCheck_name)

lemma hot_names: "hot_checks env dur rs = Some cs \<Longrightarrow> names_ok cs"
  by (auto simp: hot_checks_def Let_def limits_def bind_eq_Some_conv names_ok_def check_def one_line_def
      dest!: invariantCheck_name)

lemma worker_kill_names: "worker_kill_checks env dur k rs = Some cs \<Longrightarrow> names_ok cs"
  by (auto simp: worker_kill_checks_def Let_def bind_eq_Some_conv names_ok_def check_def one_line_def
      dest!: invariantCheck_name)

lemma coordinator_kill_names: "coordinator_kill_checks env dur loads k r rs = Some (t, cs) \<Longrightarrow> names_ok cs"
  by (auto simp: coordinator_kill_checks_def Let_def bind_eq_Some_conv names_ok_def check_def one_line_def
      dest!: invariantCheck_name)

lemma scaling_measure_names:
  "scaling_measure cl env loads offered dur n tr1 tr2 acc s = Some (acc', s') \<Longrightarrow> names_ok (sg_invChecks acc) \<Longrightarrow>
    names_ok (sg_invChecks acc')"
  using one_line_itoa [of n]
  by (auto simp: scaling_measure_def Let_def bind_eq_Some_conv names_ok_def one_line_def split_beta
      dest!: invariantCheck_name)

lemma scaling_phases_names:
  "scaling_phases cl env loads offered dur ph acc s = Some (Inr acc', s') \<Longrightarrow> names_ok (sg_invChecks acc) \<Longrightarrow>
    names_ok (sg_invChecks acc')"
proof (induction ph arbitrary: acc s)
  case (Cons p ph)
  obtain n tr1 tr2 where p: "p = (n, tr1, tr2)" by (metis prod_cases3)
  obtain s1 acc1 s2 where m: "scaling_measure cl env loads offered dur n tr1 tr2 acc s1 = Some (acc1, s2)"
      and l: "scaling_phases cl env loads offered dur ph acc1 s2 = Some (Inr acc', s')"
    using Cons.prems(1) by (auto simp: p setup_then_def Let_def split: option.splits prod.splits)
  show ?case by (rule Cons.IH [OF l scaling_measure_names [OF m Cons.prems(2)]])
qed simp

lemma setup_then_Inr: "setup_then cl env n cpu f s = Some (Inr x, s') \<Longrightarrow> \<exists>s1. f s1 = Some (Inr x, s')"
  by (auto simp: setup_then_def split: option.splits prod.splits)

lemma scrape_Inr:
  "(case scrape cl env s of (Inl e, s) \<Rightarrow> Some (Inl (ScrapeError e), s) | (Inr st, s) \<Rightarrow> f st s) = Some (Inr x, s') \<Longrightarrow>
    \<exists>st s1. f st s1 = Some (Inr x, s')"
  by (auto split: prod.splits sum.splits)

lemma scenario_names_ok:
  assumes "run_scenario sc cl env tr s = Some (Inr checks, s')"
  shows "names_ok checks"
proof (cases sc)
  case Baseline
  then show ?thesis using assms
    by (auto simp: runBaseline_def Let_def limits_def bind_eq_Some_conv dest!: setup_then_Inr scrape_Inr)
      (rule baseline_names)
next
  case HotTenant
  then show ?thesis using assms
    by (auto simp: runHotTenant_def Let_def bind_eq_Some_conv dest!: setup_then_Inr dest: hot_names)
next
  case Scaling
  have "names_ok (sg_invChecks \<lparr>sg_throughput = [], sg_p99 = [], sg_invChecks = []\<rparr>)" by (simp add: names_ok_def)
  with Scaling show ?thesis using assms
    by (auto simp: runScaling_def Let_def scaling_checks_def names_ok_def check_def one_line_def
        simp del: scaling_phases.simps
        split: option.splits prod.splits sum.splits dest!: scaling_phases_names [unfolded names_ok_def])
next
  case WorkerKill
  then show ?thesis using assms
    by (auto simp: runWorkerKill_def Let_def bind_eq_Some_conv dest!: setup_then_Inr dest: worker_kill_names)
next
  case CoordinatorKill
  then show ?thesis using assms
    by (auto simp: runCoordinatorKill_def Let_def bind_eq_Some_conv split: option.splits prod.splits
        dest!: setup_then_Inr) (rule coordinator_kill_names)
qed

lemma renderChecks_last:
  assumes "names_ok checks"
  shows "last_line (out @ fst (renderChecks checks)) =
    (if list_all ck_OK checks then ''PASS'' else ''FAIL: '' @ join ''; '' (failed_names checks))"
proof -
  let ?v = "if list_all ck_OK checks then ''PASS'' else ''FAIL: '' @ join ''; '' (failed_names checks)"
  have "\<forall>s \<in> set (failed_names checks). one_line s"
    using assms by (auto simp: names_ok_def failed_names_def list_all_iff)
  then have "one_line (join ''; '' (failed_names checks))" by (intro one_line_join) (simp_all add: one_line_def)
  then have "one_line ?v" by (simp add: one_line_def)
  moreover have "out @ fst (renderChecks checks) =
      (out @ nl @ ''CHECKS'' @ nl @ concat (map check_line checks)) @ nl @ ?v @ nl"
    by (simp add: renderChecks_eq)
  ultimately show ?thesis by (simp only: last_line_eq)
qed

text \<open>C30. The contract \<open>run.sh\<close> depends on: the last line a run streams begins with \<open>PASS\<close> exactly if the
  configuration could be read, the scenario returned its checks, and every one of them holds. Checks that fail are
  named in the last line; an error of the set-up or of the scenario is a \<open>FAIL\<close> of its own.\<close>

theorem run_verdict:
  assumes "handleRun_body cl um show jsonErr sv query sc tr w = Some (out, w')"
  shows "(take 4 (last_line out) = ''PASS'' \<longleftrightarrow>
      (\<exists>cfg w1 checks s'. LoadConfig cl um w = (Inr cfg, w1) \<and>
         run_scenario (sc_Run sc) cl (run_env sv show query cfg) tr \<lparr>s_out = run_header sc, s_world = w1, s_tasks = []\<rparr> =
           Some (Inr checks, s') \<and> list_all ck_OK checks)) \<and>
    (\<forall>cfg w1 checks s'. LoadConfig cl um w = (Inr cfg, w1) \<longrightarrow>
       run_scenario (sc_Run sc) cl (run_env sv show query cfg) tr \<lparr>s_out = run_header sc, s_world = w1, s_tasks = []\<rparr> =
         Some (Inr checks, s') \<longrightarrow> \<not> list_all ck_OK checks \<longrightarrow>
       last_line out = ''FAIL: '' @ join ''; '' (failed_names checks))"
proof -
  obtain r w1 where l: "LoadConfig cl um w = (r, w1)" by fastforce
  have se: "last_line (pre @ nl @ ''FAIL: setup error'' @ nl) = ''FAIL: setup error''"
    "last_line (pre @ nl @ ''FAIL: scenario error'' @ nl) = ''FAIL: scenario error''" for pre
    by (rule last_line_eq; simp add: one_line_def)+
  show ?thesis
  proof (cases r)
    case (Inl e)
    then have out: "out = (run_header sc @ ''ERROR: reading '' @ configMapName @ '' ConfigMap: '' @ error_text show e) @ nl @ ''FAIL: setup error'' @ nl"
      using assms l by (simp add: handleRun_body_def)
    show ?thesis using l Inl unfolding out se by simp
  next
    case (Inr cfg)
    let ?run = "run_scenario (sc_Run sc) cl (run_env sv show query cfg) tr \<lparr>s_out = run_header sc, s_world = w1, s_tasks = []\<rparr>"
    obtain res s' where run: "?run = Some (res, s')"
      using assms l Inr by (auto simp: handleRun_body_def split: option.splits)
    show ?thesis
    proof (cases res)
      case (Inl e)
      then have out: "out = (s_out s' @ nl @ ''ERROR: '' @ scenario_error_text show jsonErr e) @ nl @ ''FAIL: scenario error'' @ nl"
        using assms l Inr run by (simp add: handleRun_body_def)
      show ?thesis using l Inr run Inl unfolding out se by simp
    next
      case checks: (Inr checks)
      have out: "out = s_out s' @ fst (renderChecks checks)"
        using assms l Inr run checks by (simp add: handleRun_body_def)
      have "names_ok checks" using scenario_names_ok run checks by blast
      from renderChecks_last [OF this, of "s_out s'", folded out]
      show ?thesis using l Inr run checks by simp
    qed
  qed
qed

theorem run_verdict_witness:
  "\<exists>out w'. handleRun_body sample_cluster (\<lambda>_. Inl ''empty'') (\<lambda>_. ''0'') ''''
      \<lparr>lg_kube = \<lparr>k_ns = ''n'', k_image = ''i''\<rparr>, lg_workerURL = ''u'', lg_coordURL = ''v'', lg_runMu = True\<rparr> [] (Scenarios ! 0)
      \<lparr>tr_warm1 = (0, []), tr_meas1 = (0, []), tr_warm2 = (0, []), tr_meas2 = (0, []), tr_warm4 = (0, []), tr_meas4 = (0, [])\<rparr> 0 =
      Some (out, w') \<and> take 4 (last_line out) \<noteq> ''PASS''"
proof -
  let ?b = "handleRun_body sample_cluster (\<lambda>_. Inl ''empty'') (\<lambda>_. ''0'') ''''
      \<lparr>lg_kube = \<lparr>k_ns = ''n'', k_image = ''i''\<rparr>, lg_workerURL = ''u'', lg_coordURL = ''v'', lg_runMu = True\<rparr> [] (Scenarios ! 0)
      \<lparr>tr_warm1 = (0, []), tr_meas1 = (0, []), tr_warm2 = (0, []), tr_meas2 = (0, []), tr_warm4 = (0, []), tr_meas4 = (0, [])\<rparr> 0"
  have l: "LoadConfig sample_cluster (\<lambda>_. Inl ''empty'') 0 = (Inl (BadConfig (ReadError ''empty'')), 0)"
    by (simp add: LoadConfig_def sample_cluster_def Load_def)
  obtain out w' where b: "?b = Some (out, w')" by (simp add: handleRun_body_def l)
  show ?thesis using run_verdict [OF b] b l by auto
qed

end
