(* ===== verification/Ratelim_Main.thy ===== *)
theory Ratelim_Main
  imports Loadgen_Server
begin

text \<open>
  Command \<open>cmd/ratelim\<close>: one binary with three roles. \<open>parse_flags\<close> is what \<open>main\<close> uses of package
  \<open>flag\<close>: string flags with one or two dashes, the value after \<open>=\<close> or in the next argument, and
  \<open>ExitOnError\<close>. \<open>ratelim\<close> puts the roles' start-up behind it; a role that cannot start ends the process with
  status 1, as \<open>log.Fatal\<close> does.
\<close>

section \<open>Definitions\<close>

datatype parsed = Parsed "(string \<times> string) list" | Exit int

fun parse_flags :: "(string \<times> string) list \<Rightarrow> string list \<Rightarrow> parsed" where
  "parse_flags vs [] = Parsed vs"
| "parse_flags vs (s # args) =
     (if length s < 2 \<or> hd s \<noteq> CHR ''-'' then Parsed vs
      else if s = ''--'' then Parsed vs
      else
        let name = drop (if s ! 1 = CHR ''-'' then 2 else 1) s in
        if name = '''' \<or> hd name = CHR ''-'' \<or> hd name = CHR ''='' then Exit 2
        else if map_of vs (before CHR ''='' name) = None
        then Exit (if before CHR ''='' name = ''help'' \<or> before CHR ''='' name = ''h'' then 0 else 2)
        else if CHR ''='' \<in> set name then parse_flags (put (before CHR ''='' name) (after CHR ''='' name) vs) args
        else (case args of
                [] \<Rightarrow> Exit 2
              | v # args' \<Rightarrow> parse_flags (put name v vs) args'))"

definition flag_value :: "(string \<times> string) list \<Rightarrow> string \<Rightarrow> string" where
  "flag_value vs name = (case map_of vs name of None \<Rightarrow> '''' | Some v \<Rightarrow> v)"

datatype role =
    CoordinatorRole string string
  | WorkerRole string string
  | LoadgenRole string string string

definition coordinator_flags :: "(string \<times> string) list" where
  "coordinator_flags = [(''config'', ''/etc/ratelim/config.yaml''), (''addr'', '':8081'')]"

definition worker_flags :: "(string \<times> string) list" where
  "worker_flags = [(''coordinator'', ''http://coordinator:8081''), (''addr'', '':8080'')]"

definition loadgen_flags :: "(string \<times> string) list" where
  "loadgen_flags =
     [(''addr'', '':8080''), (''workers'', ''http://ratelim-workers:8080''), (''coordinator'', ''http://coordinator:8081'')]"

definition with_flags :: "(string \<times> string) list \<Rightarrow> string list \<Rightarrow> ((string \<Rightarrow> string) \<Rightarrow> role) \<Rightarrow> int + role" where
  "with_flags defaults args mk =
     (case parse_flags defaults args of
        Exit n \<Rightarrow> Inl n
      | Parsed vs \<Rightarrow> Inr (mk (flag_value vs)))"

text \<open>\<open>main\<close>: an exit status, or the role to run.\<close>

definition main :: "string list \<Rightarrow> int + role" where
  "main argv =
     (if length argv < 2 then Inl 2
      else
        let args = drop 2 argv in
        if argv ! 1 = ''coordinator''
        then with_flags coordinator_flags args (\<lambda>v. CoordinatorRole (v ''config'') (v ''addr''))
        else if argv ! 1 = ''worker''
        then with_flags worker_flags args (\<lambda>v. WorkerRole (v ''coordinator'') (v ''addr''))
        else if argv ! 1 = ''loadgen''
        then with_flags loadgen_flags args (\<lambda>v. LoadgenRole (v ''addr'') (v ''workers'') (v ''coordinator''))
        else Inl 1)"

datatype 'client process =
    Exited int
  | CoordinatorAt string CServer
  | WorkerAt string string lstate
  | LoadgenAt string 'client lg_state

text \<open>The roles' \<open>Run\<close> functions behind the dispatch; listening itself is I/O.\<close>

definition ratelim ::
  "(string \<Rightarrow> string + string) \<Rightarrow> (string \<Rightarrow> string + Config) \<Rightarrow> string + 'cred \<Rightarrow> string + 'cred \<Rightarrow>
     ('cred \<Rightarrow> string + 'client) \<Rightarrow> (string \<Rightarrow> string) \<Rightarrow> time \<Rightarrow> time \<Rightarrow> string list \<Rightarrow> 'client process" where
  "ratelim readFile unmarshalStrict inCluster kubeConfig newForConfig getenv started now argv =
     (case main argv of
        Inl n \<Rightarrow> Exited n
      | Inr (CoordinatorRole cfg addr) \<Rightarrow>
          (case coordinator_Run readFile unmarshalStrict cfg started now of
             Inl e \<Rightarrow> Exited 1
           | Inr s \<Rightarrow> CoordinatorAt addr s)
      | Inr (WorkerRole coord addr) \<Rightarrow> WorkerAt addr coord (worker_Run now)
      | Inr (LoadgenRole addr workers coord) \<Rightarrow>
          (case loadgen_Run inCluster kubeConfig newForConfig getenv workers coord of
             Inl e \<Rightarrow> Exited 1
           | Inr (cs, st) \<Rightarrow> LoadgenAt addr cs st))"

section \<open>The command line and the deployments\<close>

text \<open>Flags come in any order and override their defaults; the rest of the command line is left alone.\<close>

lemma parse_flag_pair:
  assumes "map_of vs name \<noteq> None" and "name \<noteq> ''''" and "CHR ''-'' \<noteq> hd name" and "CHR ''='' \<notin> set name"
  shows "parse_flags vs ((''--'' @ name) # v # args) = parse_flags (put name v vs) args"
proof -
  have "hd name \<noteq> CHR ''=''" using assms(2,4) by (metis hd_in_set)
  then show ?thesis using assms before_none [OF assms(4)] by auto
qed

lemma main_defaults:
  "main [prog, ''coordinator''] = Inr (CoordinatorRole ''/etc/ratelim/config.yaml'' '':8081'')"
  "main [prog, ''worker''] = Inr (WorkerRole ''http://coordinator:8081'' '':8080'')"
  "main [prog, ''loadgen''] = Inr (LoadgenRole '':8080'' ''http://ratelim-workers:8080'' ''http://coordinator:8081'')"
  by (simp_all add: main_def with_flags_def coordinator_flags_def worker_flags_def loadgen_flags_def flag_value_def)

definition container :: "Deployment \<Rightarrow> Container" where
  "container d = hd (ds_Containers (d_Spec d))"

definition healthy :: "string \<Rightarrow> string \<Rightarrow> bool" where
  "healthy role path \<longleftrightarrow>
     (if role = ''coordinator''
      then \<forall>now s. rs_status (fst (coordinator_Handler now (get_request path) s)) = StatusOK
      else \<forall>wid names now s. \<exists>resp. worker_Handler wid names now (get_request path) s = Inl resp \<and> rs_status resp = StatusOK)"

text \<open>The deployments the load generator creates fit the binary they run and each other. The arguments of the coordinator's
  container start the coordinator role with the config file that the mounted config map provides, listening on the port its
  service forwards to; the workers' arguments start the worker role with the URL of the coordinator's service, listening on their
  own service's port. Each service selects exactly the labels of its deployment's pods, and each readiness probe asks a path
  that the role answers with 200 on the port it listens on.\<close>

lemma deployment_wiring:
  "let dc = coordinatorDeployment k; cc = container dc; sc = service k coordinatorName ''coordinator'' coordinatorPort;
       dw = workerDeployment k n cpu; cw = container dw; sw = service k workerName ''worker'' workerPort in
   main (prog # ct_Args cc) = Inr (CoordinatorRole (vm_MountPath (hd (ct_VolumeMounts cc)) @ ''/config.yaml'') ('':'' @ itoa coordinatorPort)) \<and>
   ds_Volumes (d_Spec dc) = [(vm_Name (hd (ct_VolumeMounts cc)), configMapName)] \<and>
   main (prog # ct_Args cw) = Inr (WorkerRole (''http://'' @ sv_Name sc @ '':'' @ itoa coordinatorPort) ('':'' @ itoa workerPort)) \<and>
   sv_Selector sc = ds_PodLabels (d_Spec dc) \<and> ds_Selector (d_Spec dc) = ds_PodLabels (d_Spec dc) \<and>
   sv_Selector sw = ds_PodLabels (d_Spec dw) \<and> ds_Selector (d_Spec dw) = ds_PodLabels (d_Spec dw) \<and>
   sv_Selector sc \<noteq> sv_Selector sw \<and>
   sv_Ports sc = [(coordinatorPort, coordinatorPort)] \<and> ct_Ports cc = [coordinatorPort] \<and> pr_Port (ct_ReadinessProbe cc) = coordinatorPort \<and>
   sv_Ports sw = [(workerPort, workerPort)] \<and> ct_Ports cw = [workerPort] \<and> pr_Port (ct_ReadinessProbe cw) = workerPort \<and>
   healthy ''coordinator'' (pr_Path (ct_ReadinessProbe cc)) \<and> healthy ''worker'' (pr_Path (ct_ReadinessProbe cw))"
proof -
  have c: "main [prog, ''coordinator'', ''--config'', ''/etc/ratelim/config.yaml'', ''--addr'', a] =
      Inr (CoordinatorRole ''/etc/ratelim/config.yaml'' a)" for a
    by (simp add: main_def with_flags_def coordinator_flags_def flag_value_def before_def)
  have w: "main [prog, ''worker'', ''--coordinator'', u, ''--addr'', a] = Inr (WorkerRole u a)" for u a
    by (simp add: main_def with_flags_def worker_flags_def flag_value_def before_def)
  have "healthy ''coordinator'' ''/healthz''" "healthy ''worker'' ''/healthz''"
    by (simp_all add: healthy_def get_request_def before_def coordinator_Handler_def coordinator_routes_def
        worker_Handler_def worker_routes_def method_match_def)
  then show ?thesis
    by (simp add: coordinatorDeployment_def workerDeployment_def service_def container_def Let_def c w coordinatorName_def)
qed

end
