(* ===== verification/Spec2Isabelle.thy ===== *)
theory Spec2Isabelle
  imports System Ratelim_Main
begin

text \<open>
  A verification of the distributed rate limiter: token buckets at a coordinator, workers that lease tokens
  in batches and admit requests from what they hold, and the load generator that sets the system up in a
  cluster and judges it. The definitions follow the Go sources; this header says what stands where.

  \<^bold>\<open>The program.\<close> A coordinator keeps one bucket per configured tenant and answers lease requests by debiting it.
  A worker keeps one pool per tenant; a check takes its cost from the pool, starts a renewal in the background when
  the pool runs low, waits up to 25 ms for it when the pool is cold, and answers 200, 429 or 404. The load
  generator creates both through the Kubernetes API, drives paced load at the workers, kills pods, and evaluates
  pass criteria, among them the promise of the service: over any window the tokens admitted for a tenant are at
  most its rate times the window plus one burst, plus bounded slack.

  \<^bold>\<open>Foundations.\<close>
  \<^item> \<open>Prelude\<close>: 64-bit integers over \<^typ>\<open>int\<close> with explicit wrap-around, sums with one entry changed.
  \<^item> \<open>Float64\<close>, \<open>GoTime\<close>: binary64 values as rationals with rounding to nearest even; instants, durations and their
    conversion to seconds, with error bounds for every operation the program uses.
  \<^item> \<open>Strconv\<close>, \<open>Fmt\<close>, \<open>Http\<close>: decimal integers and literals, padded and fixed-point output, the text of a duration;
    JSON values and decoding into structs, requests, routing by method and path.
  \<^item> \<open>Token_Source\<close>: the contract of a supplier of tokens as a locale, with the bound over any sequence of debits.

  \<^bold>\<open>The rate limiter.\<close>
  \<^item> \<open>Bucket\<close> (\<open>internal/bucket\<close>): \<open>refillLocked\<close>, \<open>TakeUpTo\<close>, \<open>NextTokenIn\<close>; the bucket interprets \<open>token_source\<close>.
    Shown: the invariant, exact debits, refill against the exact refill from both sides, the window bound, honest waits.
  \<^item> \<open>Config\<close> (\<open>internal/config\<close>): \<open>Load\<close> accepts exactly the valid configurations, whatever the order of the map.
  \<^item> \<open>Coordinator\<close> (\<open>internal/coordinator\<close>): lease and stats handlers, routes, start-up; a tenant's state interprets
    \<open>token_source\<close> too. Shown: every branch, the window bound over mixed requests, exact counters, the retry hint.
  \<^item> \<open>Limiter\<close> (\<open>internal/worker/limiter.go\<close>): the critical sections of \<open>Check\<close> and \<open>renew\<close> as functions on a pool, the
    prefetch watermark, backoff and jitter, the pacing of lease calls, counters. \<open>Limiter_Steps\<close> lets goroutines interleave them (\<open>lstep\<close> on events,
    \<open>lreach\<close>); the locale \<open>lease_contract\<close> states what a worker relies on from its lease client. Shown: at
    most one lease call per tenant, no channel closed twice, the bound on a pool, admitted at most leased.
    \<open>Limiter_Progress\<close>: every check can end by at most three steps of its own goroutine; the exported counter is exact.
  \<^item> \<open>Worker_Server\<close> (\<open>internal/worker/server.go\<close>): the lease client and the worker's handlers; the lease client over the
    coordinator's handler interprets \<open>lease_contract\<close>.
  \<^item> \<open>System\<close>: one coordinator and any number of workers as a step relation with lost and late replies, crashes, restarts and
    separate clocks; the simulation between debits at the coordinator and admissions at the workers.

  \<^bold>\<open>The load generator.\<close>
  \<^item> \<open>Driver\<close> (\<open>driver.go\<close>): results and percentiles, requests, and the pacing loop of one load as a machine of ticks,
    dispatches and ends of requests. Shown: accurate pacing, percentiles, the URL of a request.
  \<^item> \<open>Drive\<close> (\<open>driver.go\<close>): \<open>Run\<close> as a machine of all its goroutines: \<open>drive_enabled\<close> and \<open>drive_step\<close> on events, \<open>drive_done\<close>
    for the return from \<open>wg.Wait\<close>. Shown: a run terminates (\<open>drive_order\<close> is well-founded and no state before the end is
    stuck), and every tenant's result is exact modulo \<open>2 ^ 64\<close>.
  \<^item> \<open>Report\<close> (\<open>report.go\<close>): verdict, table, charts, series, and the coordinator's counters over HTTP.
  \<^item> \<open>Kube\<close> (\<open>kube.go\<close>): deployments, services, set-up, waits, kills, scaling, and the workers' counters over HTTP. The
    Kubernetes client, HTTP, clock, timers and files are the record \<open>cluster\<close> of functions on a world of any type; what the
    waits rely on of it is \<open>clock_ok\<close>, what \<open>applyDeployment\<close> relies on is \<open>store_ok\<close>.
    Shown: set-up returns, and what it has gone through, in order, exactly when it reports success.
  \<^item> \<open>Scenarios\<close> (\<open>scenarios.go\<close>): the five scenarios in full, their hooks and background kills, the universal check. The
    traffic of a \<open>Run\<close> is any complete course of \<open>Drive\<close>. Shown: no scenario panics, and what the universal check decides.
  \<^item> \<open>Loadgen_Server\<close> (\<open>server.go\<close>): token, registry, the lock for one run at a time, the streamed report.
  \<^item> \<open>Ratelim_Main\<close> (\<open>cmd/ratelim\<close>): flags, roles, exit status, and the agreement of the deployments with the binary.

  \<^bold>\<open>This theory\<close> holds the properties of the whole system: the guarantee from the start and over any window, what can be
  admitted while the coordinator is away, and that a tenant without configuration is never admitted.

  \<^bold>\<open>Errors, loops and bounds.\<close> An error of the source is a value (\<open>Inl\<close>, or a constructor); a panic or a step that is not
  enabled has no result. Loops over data are recursions. The polling loops of \<open>Kube\<close> are partial functions without fuel:
  not returning is \<open>None\<close>, and they are shown to return whenever the clock advances. \<open>Run\<close> is a machine whose events
  come from outside; that it ends is a theorem about its steps, for timers that fire at later and later instants and requests
  that are answered or fail (the client's timeout). All counters wrap around as Go's do. Rates up to \<open>2 ^ 53\<close> tokens per
  second are assumed where the exactness of a level is claimed; lease sizes and costs stay below \<open>2 ^ 50\<close> where sums
  must not wrap (\<open>deployable\<close>, \<open>sizes_ok\<close>).

  \<^bold>\<open>Not modelled.\<close> Infinities and NaN of float64 (a run of zero seconds would print them); sockets, listening, flushing and
  connection reuse (\<open>ResetConns\<close>, client timeouts appear as transport errors); YAML decoding and the Kubernetes client
  are parameters; tenant names are valid UTF-8 (\<open>json.Marshal\<close> would replace other bytes); \<open>handleLease\<close> is one step, so
  the retry hint of a zero grant does not see a request served between the debit and \<open>NextTokenIn\<close>; goroutines that outlive the run that started them; contexts, except as the end of a timer wait or of a
  request; tests, shell scripts and manifests.
\<close>

section \<open>A concrete run\<close>

definition demo_config :: Config where
  "demo_config = \<lparr>c_Lease = \<lparr>Size = 10, DurationMs = 1000\<rparr>, c_Tenants = [(''a'', 20)]\<rparr>"

lemma deployable_demo: "deployable demo_config 1 0"
  by (simp add: deployable_def demo_config_def config_valid_def config_typed_def rates_ok_def
      sizes_ok_def lease_size_def in_i64_def min_i64_def max_i64_def is_float64_def)

text \<open>One request of tenant \<open>a\<close> arrives at a cold worker, waits for the lease and is admitted.\<close>

lemma demo_run:
  "\<exists>b m s. ssteps demo_config 1 0 (sys_init demo_config 0 1000000000) b \<and> ssteps demo_config 1 0 b m \<and>
     ssteps demo_config 1 0 m s \<and>
     total_admitted b ''a'' = 0 \<and> cnow b = 1000000000 \<and> restarts b = 0 \<and> leases b = 0 \<and> live_workers b = 1 \<and>
     total_admitted m ''a'' = 0 \<and> leases m = 1 \<and> live_workers m = 1 \<and>
     total_admitted s ''a'' = 1 \<and> cnow s = 2000000000 \<and> restarts s = 0 \<and> leases s = 1 \<and> live_workers s = 1"
proof -
  let ?c = demo_config
  let ?s0 = "sys_init ?c 0 1000000000"
  let ?s1 = "?s0\<lparr>procs := procs ?s0 @ [Some (worker_Run 5, Map.empty)]\<rparr>"
  have 1: "ssteps ?c 1 0 ?s0 ?s1" by (intro ssteps_one sstep.start_worker)
  have p1: "proc_at ?s1 0 = Some (worker_Run 5, Map.empty)" by (simp add: proc_at_def sys_init_def)
  obtain l2 where l2: "lrun [Call ''a'' 1 6, Lock 0, LeaseStart 1] (worker_Run 5) = Inr l2"
    by (simp add: worker_Run_def limiter_exec)
  let ?s2 = "set_proc 0 (Some (l2, Map.empty)) ?s1"
  have 2: "ssteps ?c 1 0 ?s1 ?s2" by (rule ssteps_lrun [OF l2 _ p1]) simp
  have p2: "proc_at ?s2 0 = Some (l2, Map.empty)" using p1 by (rule set_proc_proc_at)
  have t2: "thread_at l2 1 = Some (RenewCall ''a'')"
    using l2 by (auto simp: worker_Run_def limiter_exec)
  have c2: "coord ?s2 = Some (Coordinator_New 0 1000000000 ?c)" "cnow ?s2 = 1000000000"
    by (simp_all add: set_proc_def sys_init_def)
  let ?b = "rq_body (lease_request ''w'' ''a'')" and ?now = "2000000000 :: time"
  let ?resp = "respond StatusOK (Json (encode_LeaseResponse \<lparr>Granted = 10, TTLMs = 1000, RetryAfterMs = 0\<rparr>))"
  obtain c3 where h: "handleLease ?now ?b (Coordinator_New 0 1000000000 ?c) = (?resp, c3)"
    by (simp add: handleLease_def Coordinator_New_def demo_config_def lease_tenant_def bucket_exec
        BurstSeconds_def)
  let ?s3 = "set_proc 0 (Some (l2, Map.empty(1 := Some ?resp))) (serve ?now ?b ?resp c3 ?s2)"
  have 3: "ssteps ?c 1 0 ?s2 ?s3"
    using c2(2) by (intro ssteps_one sstep.serve [OF c2(1) _ p2 t2 _ refl h]) simp_all
  have p3: "proc_at ?s3 0 = Some (l2, Map.empty(1 := Some ?resp))"
    by (simp add: proc_at_def set_proc_def serve_def sys_init_def)
  have rep: "lease_of_reply (Inr ?resp) = Inr \<lparr>g_Tokens = 10, g_TTL = 1000000000, g_RetryAfter = 0\<rparr>"
    by (simp add: lease_of_reply_encode in_i64_def min_i64_def max_i64_def duration_of_ms_def
        Millisecond_def i64_id)
  obtain l4 where l4: "lstep (LeaseReturn 1 (lease_of_reply (Inr ?resp)) 7 0) l2 = Inr l4"
    unfolding rep using l2 by (auto simp: worker_Run_def limiter_exec)
  let ?s4 = "set_proc 0 (Some (l4, (Map.empty(1 := Some ?resp))(1 := None))) ?s3"
  have 4: "ssteps ?c 1 0 ?s3 ?s4" by (rule ssteps_one [OF sstep.deliver [OF p3 _ l4]]) simp
  have p4: "proc_at ?s4 0 = Some (l4, (Map.empty(1 := Some ?resp))(1 := None))"
    using p3 by (rule set_proc_proc_at)
  obtain l5 where l5: "lrun [RenewLock 1, Wake 0 8, Relock 0] l4 = Inr l5" "g_admitted l5 ''a'' = 1"
    using l2 l4 unfolding rep by (auto simp: worker_Run_def limiter_exec i64_id in_i64_def min_i64_def max_i64_def)
  let ?s5 = "set_proc 0 (Some (l5, (Map.empty(1 := Some ?resp))(1 := None))) ?s4"
  have 5: "ssteps ?c 1 0 ?s4 ?s5" by (rule ssteps_lrun [OF l5(1) _ p4]) simp
  have l4': "g_admitted l4 ''a'' = 0"
    using l2 l4 unfolding rep by (auto simp: worker_Run_def limiter_exec)
  have "ssteps ?c 1 0 ?s1 ?s4" using 2 3 4 by (meson ssteps_trans)
  moreover have "total_admitted ?s1 ''a'' = 0 \<and> total_admitted ?s4 ''a'' = 0 \<and> total_admitted ?s5 ''a'' = 1"
    by (simp add: total_admitted_def set_proc_def serve_def sys_init_def proc_admitted_def l5(2) l4'
        worker_Run_def linit_def)
  moreover have "cnow ?s1 = 1000000000 \<and> restarts ?s1 = 0 \<and> leases ?s1 = 0 \<and> live_workers ?s1 = 1"
    by (simp add: live_workers_def sys_init_def)
  moreover have "leases ?s4 = 1 \<and> live_workers ?s4 = 1"
    by (simp add: live_workers_def set_proc_def serve_def sys_init_def)
  moreover have "cnow ?s5 = 2000000000 \<and> restarts ?s5 = 0 \<and> leases ?s5 = 1 \<and> live_workers ?s5 = 1"
    by (simp add: live_workers_def set_proc_def serve_def sys_init_def)
  ultimately show ?thesis using 1 5 by blast
qed

lemma demo_reach:
  "\<exists>s. ssteps demo_config 1 0 (sys_init demo_config 0 1000000000) s \<and> total_admitted s ''a'' = 1 \<and>
     cnow s = 2000000000 \<and> restarts s = 0 \<and> leases s = 1 \<and> live_workers s = 1"
  using demo_run ssteps_trans by blast

section \<open>Properties of the system\<close>

text \<open>C1. The promise of the service: from the start, over all workers, live or crashed, and under
  every interleaving of requests, renewals, lost replies, crashes and restarts, the tokens admitted
  for a tenant are at most one burst of one second per coordinator start, plus its rate times the time
  that passed on the coordinator's clock and the lag (the longest a lease request's clock reading is
  behind when it debits the bucket); float64 rounding adds \<open>2 ^ -49\<close> of the rate and
  half a unit in the last place per lease.\<close>

theorem system_guarantee:
  assumes "deployable cfg C lag" and "ssteps cfg C lag (sys_init cfg started t0) s"
    and "map_of (c_Tenants cfg) t = Some rate"
  shows "of_int (total_admitted s t) \<le>
    rate * (1 + of_nat (restarts s)) + rate * (1 + 1 / 2 ^ 49) * secs (cnow s - t0 + lag) +
    of_nat (leases s) * (rate / 2 ^ 53 + 2 * tiny64)"
proof -
  let ?b = "sys_init cfg started t0"
  have r: "sreach cfg C lag ?b" unfolding sreach_def using ssteps.nil by blast
  have b: "total_admitted ?b t = 0" "live_workers ?b = 0" "restarts ?b = 0" "leases ?b = 0" "cnow ?b = t0"
    by (simp_all add: sys_init_def total_admitted_def live_workers_def)
  have "total_admitted s t \<le> granted_since ?b s t"
    using window_admitted(1) [OF r assms(1,2), of t] by (simp add: b)
  then have "(of_int (total_admitted s t) :: rat) \<le> of_int (granted_since ?b s t)" by simp
  also have "\<dots> \<le> budget rate (restarts s) (leases s) (cnow s - t0 + lag)"
    using window_admitted(2) [OF r assms] by (simp add: b)
  finally show ?thesis by (simp only: budget_def)
qed

theorem system_guarantee_witness:
  "\<exists>s. total_admitted s ''a'' = 1 \<and> cnow s = 2000000000 \<and> restarts s = 0 \<and> leases s = 1 \<and>
     of_int (total_admitted s ''a'') \<le>
       20 * (1 + of_nat 0) + 20 * (1 + 1 / 2 ^ 49) * secs (2000000000 - 1000000000 + 0) +
       of_nat 1 * (20 / 2 ^ 53 + 2 * tiny64)"
proof -
  have m: "map_of (c_Tenants demo_config) ''a'' = Some 20" by (simp add: demo_config_def)
  obtain s where s: "ssteps demo_config 1 0 (sys_init demo_config 0 1000000000) s"
    and o: "total_admitted s ''a'' = 1" "cnow s = 2000000000" "restarts s = 0" "leases s = 1"
    using demo_reach by blast
  show ?thesis using system_guarantee [OF deployable_demo s m] o by metis
qed

text \<open>C2. The same over any window of a run, with what workers may hold when it begins: each live
  worker at most the low mark (what a pool may hold when a renewal starts) and one lease. The
  coordinator's share is one burst, one more per restart inside the window, and the rate times the
  length of the window and the lag.\<close>

theorem system_window:
  assumes "deployable cfg C lag" and "sreach cfg C lag b" and "ssteps cfg C lag b s"
    and "map_of (c_Tenants cfg) t = Some rate"
  shows "of_int (total_admitted s t - total_admitted b t) \<le>
    of_nat (live_workers b) * of_int (low_mark C (lease_size cfg) + lease_size cfg) +
    rate * (1 + of_nat (restarts s - restarts b)) + rate * (1 + 1 / 2 ^ 49) * secs (cnow s - cnow b + lag) +
    of_nat (leases s - leases b) * (rate / 2 ^ 53 + 2 * tiny64)"
proof -
  let ?M = "low_mark C (lease_size cfg) + lease_size cfg"
  have "(of_int (total_admitted s t - total_admitted b t) :: rat) \<le>
      of_int (int (live_workers b) * ?M + granted_since b s t)"
    using window_admitted(1) [OF assms(2,1,3), of t] by (simp only: of_int_le_iff)
  also have "\<dots> = of_nat (live_workers b) * of_int ?M + of_int (granted_since b s t)" by simp
  also have "\<dots> \<le> of_nat (live_workers b) * of_int ?M +
      budget rate (restarts s - restarts b) (leases s - leases b) (cnow s - cnow b + lag)"
    using window_admitted(2) [OF assms(2,1,3,4)] by simp
  finally show ?thesis by (simp only: budget_def add.assoc)
qed

theorem system_window_witness:
  "\<exists>b s. live_workers b = 1 \<and> total_admitted b ''a'' = 0 \<and> total_admitted s ''a'' = 1 \<and>
     of_int (total_admitted s ''a'' - total_admitted b ''a'') \<le>
       of_nat 1 * of_int (low_mark 1 (lease_size demo_config) + lease_size demo_config) +
       20 * (1 + of_nat (0 - 0)) + 20 * (1 + 1 / 2 ^ 49) * secs (2000000000 - 1000000000 + 0) +
       of_nat (1 - 0) * (20 / 2 ^ 53 + 2 * tiny64)"
proof -
  have m: "map_of (c_Tenants demo_config) ''a'' = Some 20" by (simp add: demo_config_def)
  obtain b s where b: "ssteps demo_config 1 0 (sys_init demo_config 0 1000000000) b"
    and s: "ssteps demo_config 1 0 b s"
    and o: "total_admitted b ''a'' = 0" "cnow b = 1000000000" "restarts b = 0" "leases b = 0"
      "live_workers b = 1" "total_admitted s ''a'' = 1" "cnow s = 2000000000" "restarts s = 0" "leases s = 1"
    using demo_run ssteps_trans by metis
  have r: "sreach demo_config 1 0 b" using b by (auto simp: sreach_def)
  show ?thesis using system_window [OF deployable_demo r s m] o by metis
qed

text \<open>C3. While the coordinator answers no lease request, because it is down or unreachable, all
  workers together admit for a tenant at most what they hold or have under way: the low mark and one
  lease for each worker live at the start of the outage, however long it lasts.\<close>

theorem outage_bound:
  assumes "deployable cfg C lag" and "sreach cfg C lag b" and "ssteps cfg C lag b s" and "leases s = leases b"
  shows "total_admitted s t - total_admitted b t \<le>
    int (live_workers b) * (low_mark C (lease_size cfg) + lease_size cfg)"
  using window_admitted(1) [OF assms(2,1,3), of t] ssteps_leases [OF assms(3)] assms(4)
  by (simp add: granted_since_def)

theorem outage_bound_witness:
  "\<exists>m s. leases s = leases m \<and> live_workers m = 1 \<and>
     total_admitted s ''a'' - total_admitted m ''a'' = 1 \<and>
     total_admitted s ''a'' - total_admitted m ''a'' \<le> int 1 * (low_mark 1 10 + 10)"
proof -
  obtain m s where m: "ssteps demo_config 1 0 (sys_init demo_config 0 1000000000) m"
    and s: "ssteps demo_config 1 0 m s"
    and o: "total_admitted m ''a'' = 0" "leases m = 1" "live_workers m = 1"
      "total_admitted s ''a'' = 1" "leases s = 1"
    using demo_run ssteps_trans by metis
  have r: "sreach demo_config 1 0 m" using m by (auto simp: sreach_def)
  have "lease_size demo_config = 10" by (simp add: lease_size_def demo_config_def)
  then show ?thesis using outage_bound [OF deployable_demo r s, of "''a''"] o by (metis diff_zero)
qed

text \<open>C27. A tenant that is not configured is never admitted, by any worker, whatever happens.\<close>

theorem unknown_never_admitted:
  assumes "deployable cfg C lag" and "ssteps cfg C lag (sys_init cfg started t0) s"
    and "map_of (c_Tenants cfg) t = None"
  shows "total_admitted s t \<le> 0"
proof -
  let ?b = "sys_init cfg started t0"
  have r: "sreach cfg C lag ?b" unfolding sreach_def using ssteps.nil by blast
  show ?thesis
    using window_admitted(1) [OF r assms(1,2), of t] window_admitted(3) [OF r assms]
    by (simp add: sys_init_def total_admitted_def live_workers_def)
qed

theorem unknown_never_admitted_witness:
  "\<exists>s. live_workers s = 1 \<and> leases s = 1 \<and> total_admitted s ''b'' \<le> 0"
proof -
  have m: "map_of (c_Tenants demo_config) ''b'' = None" by (simp add: demo_config_def)
  obtain s where s: "ssteps demo_config 1 0 (sys_init demo_config 0 1000000000) s"
    and o: "live_workers s = 1" "leases s = 1"
    using demo_reach by blast
  show ?thesis using unknown_never_admitted [OF deployable_demo s m] o by blast
qed

end
